(* ===== verification/Prelude.thy ===== *)
theory Prelude
  imports Main "HOL-Library.Word" "HOL-Library.Sublist"
begin

text \<open>
  The shared layer of the development: how a Python call that may raise is written as a value of a
  sum type (\<open>Inl\<close> the exception, \<open>Inr\<close> the result), Python's indexing and slicing rules, and the
  generic facts on lists that several components use.
\<close>

section \<open>Results of calls that may raise\<close>

named_theorems result_simps \<open>unfolding a successful or failed sequence of calls\<close>
named_theorems py_simps \<open>Python indexing and slicing within range\<close>

text \<open>\<open>rbind m f\<close> is the sequence "evaluate \<open>m\<close>; if it raised, stop with that exception; else go on
  with \<open>f\<close>". Every statement of a function body that may raise is one \<open>rbind\<close>.\<close>

definition rbind :: "'e + 'a \<Rightarrow> ('a \<Rightarrow> 'e + 'b) \<Rightarrow> 'e + 'b" where
  "rbind m f = (case m of Inl e \<Rightarrow> Inl e | Inr x \<Rightarrow> f x)"

lemma rbind_Inl [simp]: "rbind (Inl e) f = Inl e"
  by (simp add: rbind_def)

lemma rbind_Inr [simp]: "rbind (Inr x) f = f x"
  by (simp add: rbind_def)

lemma rbind_cong [fundef_cong]:
  assumes "m = m'" and "\<And>x. m' = Inr x \<Longrightarrow> f x = f' x"
  shows "rbind m f = rbind m' f'"
  using assms by (cases m') (simp_all add: rbind_def)

lemma rbind_eq_Inr [result_simps]: "rbind m f = Inr y \<longleftrightarrow> (\<exists>x. m = Inr x \<and> f x = Inr y)"
  by (cases m) simp_all

lemma rbind_eq_Inl [result_simps]:
  "rbind m f = Inl e \<longleftrightarrow> m = Inl e \<or> (\<exists>x. m = Inr x \<and> f x = Inl e)"
  by (cases m) simp_all

lemma rbind_split: "P (rbind m f) \<longleftrightarrow> (\<forall>e. m = Inl e \<longrightarrow> P (Inl e)) \<and> (\<forall>x. m = Inr x \<longrightarrow> P (f x))"
  by (cases m) simp_all

lemma rbind_assoc: "rbind (rbind m f) g = rbind m (\<lambda>x. rbind (f x) g)"
  by (cases m) simp_all

text \<open>\<open>rguard c e\<close> is the statement \<open>if not c: raise e\<close>.\<close>

definition rguard :: "bool \<Rightarrow> 'e \<Rightarrow> 'e + unit" where
  "rguard c e = (if c then Inr () else Inl e)"

lemma rguard_simps [simp]: "rguard True e = Inr ()" "rguard False e = Inl e"
  by (simp_all add: rguard_def)

lemma rguard_eq_Inr [result_simps]: "rguard c e = Inr u \<longleftrightarrow> c"
  by (simp add: rguard_def)

lemma rguard_eq_Inl [result_simps]: "rguard c e = Inl e' \<longleftrightarrow> \<not> c \<and> e' = e"
  by (auto simp: rguard_def)

section \<open>Calls that change state and may raise\<close>

text \<open>An operation on an object is a function of the object's state to a result and the next state.
  An exception keeps the state the statements before it left behind.\<close>

type_synonym ('s, 'e, 'a) stm = "'s \<Rightarrow> ('e + 'a) \<times> 's"

definition sreturn :: "'a \<Rightarrow> ('s, 'e, 'a) stm" where
  "sreturn x s = (Inr x, s)"

definition sraise :: "'e \<Rightarrow> ('s, 'e, 'a) stm" where
  "sraise e s = (Inl e, s)"

definition slift :: "'e + 'a \<Rightarrow> ('s, 'e, 'a) stm" where
  "slift r s = (r, s)"

definition sbind :: "('s, 'e, 'a) stm \<Rightarrow> ('a \<Rightarrow> ('s, 'e, 'b) stm) \<Rightarrow> ('s, 'e, 'b) stm" where
  "sbind m f s = (case m s of (Inl e, s') \<Rightarrow> (Inl e, s') | (Inr x, s') \<Rightarrow> f x s')"

text \<open>\<open>scatch m h\<close> is \<open>try: m except e: h e\<close>.\<close>

definition scatch :: "('s, 'e, 'a) stm \<Rightarrow> ('e \<Rightarrow> ('s, 'e, 'a) stm) \<Rightarrow> ('s, 'e, 'a) stm" where
  "scatch m h s = (case m s of (Inl e, s') \<Rightarrow> h e s' | (Inr x, s') \<Rightarrow> (Inr x, s'))"

lemma sbind_Pair_Inr [result_simps]:
  "sbind m f s = (Inr y, s'') \<longleftrightarrow> (\<exists>x s'. m s = (Inr x, s') \<and> f x s' = (Inr y, s''))"
  by (auto simp: sbind_def split: prod.splits sum.splits)

lemma sbind_Pair_Inl [result_simps]:
  "sbind m f s = (Inl e, s'') \<longleftrightarrow>
     m s = (Inl e, s'') \<or> (\<exists>x s'. m s = (Inr x, s') \<and> f x s' = (Inl e, s''))"
  by (auto simp: sbind_def split: prod.splits sum.splits)

lemma sreturn_Pair [result_simps]: "sreturn x s = (r, s') \<longleftrightarrow> r = Inr x \<and> s' = s"
  by (auto simp: sreturn_def)

lemma sraise_Pair [result_simps]: "sraise e s = (r, s') \<longleftrightarrow> r = Inl e \<and> s' = s"
  by (auto simp: sraise_def)

lemma slift_Pair [result_simps]: "slift x s = (r, s') \<longleftrightarrow> r = x \<and> s' = s"
  by (auto simp: slift_def)

lemma sbind_eval:
  "m s = (Inr x, s') \<Longrightarrow> sbind m f s = f x s'" "m s = (Inl e, s') \<Longrightarrow> sbind m f s = (Inl e, s')"
  by (simp_all add: sbind_def)

text \<open>A property that every step keeps is kept by a sequence of steps.\<close>

definition spreserves :: "('s \<Rightarrow> 's \<Rightarrow> bool) \<Rightarrow> ('s, 'e, 'a) stm \<Rightarrow> bool" where
  "spreserves R m \<longleftrightarrow> (\<forall>s. R s (snd (m s)))"

named_theorems preserves \<open>which operations keep which relation between the states\<close>

lemma spreserves_sbind:
  assumes "transp R" "spreserves R m" "\<And>x. spreserves R (f x)"
  shows "spreserves R (sbind m f)"
  unfolding spreserves_def
proof
  fix s
  obtain r s' where m: "m s = (r, s')" by (cases "m s")
  then have 1: "R s s'" using assms(2) by (metis snd_conv spreserves_def)
  show "R s (snd (sbind m f s))"
  proof (cases r)
    case (Inl e)
    with m 1 show ?thesis by (simp add: sbind_def)
  next
    case (Inr x)
    have "R s' (snd (f x s'))" using assms(3) by (simp add: spreserves_def)
    with m 1 Inr show ?thesis using assms(1) by (auto simp: sbind_def dest: transpD)
  qed
qed

lemma spreserves_simple:
  assumes "reflp R"
  shows "spreserves R (sreturn x)" "spreserves R (sraise e)" "spreserves R (slift r)"
  using assms by (auto simp: spreserves_def sreturn_def sraise_def slift_def dest: reflpD)

text \<open>\<open>returns P m\<close>: every result of \<open>m\<close> satisfies \<open>P\<close>; \<open>raises E m\<close>: every exception of \<open>m\<close>
  satisfies \<open>E\<close>. Both are proved by following the sequence of calls.\<close>

definition returns :: "('a \<Rightarrow> bool) \<Rightarrow> ('s, 'e, 'a) stm \<Rightarrow> bool" where
  "returns P m \<longleftrightarrow> (\<forall>s x s'. m s = (Inr x, s') \<longrightarrow> P x)"

definition raises :: "('e \<Rightarrow> bool) \<Rightarrow> ('s, 'e, 'a) stm \<Rightarrow> bool" where
  "raises E m \<longleftrightarrow> (\<forall>s e s'. m s = (Inl e, s') \<longrightarrow> E e)"

lemma returns_sbind: "returns P m \<Longrightarrow> (\<And>x. P x \<Longrightarrow> returns Q (f x)) \<Longrightarrow> returns Q (sbind m f)"
  unfolding returns_def by (auto simp: result_simps) blast

lemma returns_sbind_any: "(\<And>x. returns Q (f x)) \<Longrightarrow> returns Q (sbind m f)"
  by (rule returns_sbind [of "\<lambda>_. True"]) (simp_all add: returns_def)

lemma returns_scatch: "returns P m \<Longrightarrow> (\<And>e. returns P (h e)) \<Longrightarrow> returns P (scatch m h)"
  by (auto simp: returns_def scatch_def split: prod.splits sum.splits)

lemma returns_simple:
  "returns P (sraise e)" "returns P (sreturn x) \<longleftrightarrow> P x" "returns P (slift r) \<longleftrightarrow> (\<forall>x. r = Inr x \<longrightarrow> P x)"
  by (auto simp: returns_def sraise_def sreturn_def slift_def)

lemma raises_sbind [preserves]:
  "raises E m \<Longrightarrow> (\<And>x. raises E (f x)) \<Longrightarrow> raises E (sbind m f)"
  unfolding raises_def by (auto simp: result_simps) blast

lemma raises_scatch:
  "raises D m \<Longrightarrow> (\<And>e. D e \<Longrightarrow> raises E (h e)) \<Longrightarrow> raises E (scatch m h)"
  by (fastforce simp: raises_def scatch_def split: prod.splits sum.splits)

lemma raises_simple:
  "raises E (sraise e) \<longleftrightarrow> E e" "raises E (sreturn x)" "raises E (slift r) \<longleftrightarrow> (\<forall>e. r = Inl e \<longrightarrow> E e)"
  by (auto simp: raises_def sraise_def sreturn_def slift_def)

lemma raises_mono: "raises E m \<Longrightarrow> (\<And>e. E e \<Longrightarrow> E' e) \<Longrightarrow> raises E' m"
  by (auto simp: raises_def)

section \<open>Python indexing and slicing\<close>

text \<open>The bounds of a slice are counted from the end when negative and then clamped; a slice never
  raises. \<open>xs[i:j]\<close> is \<open>py_slice xs i j\<close>.\<close>

definition py_clamp :: "int \<Rightarrow> int \<Rightarrow> int" where
  "py_clamp n i = (if i < 0 then max 0 (i + n) else min i n)"

definition py_slice :: "'a list \<Rightarrow> int \<Rightarrow> int \<Rightarrow> 'a list" where
  "py_slice xs i j =
     (let n = int (length xs); a = py_clamp n i; b = py_clamp n j
      in take (nat (b - a)) (drop (nat a) xs))"

definition py_index :: "'e \<Rightarrow> 'a list \<Rightarrow> int \<Rightarrow> 'e + 'a" where
  "py_index e xs i =
     (let n = int (length xs); j = (if i < 0 then i + n else i)
      in if 0 \<le> j \<and> j < n then Inr (xs ! nat j) else Inl e)"

lemma py_clamp_bounds: "0 \<le> n \<Longrightarrow> 0 \<le> py_clamp n i \<and> py_clamp n i \<le> n"
  by (simp add: py_clamp_def)

lemma py_clamp_id [py_simps]: "0 \<le> i \<Longrightarrow> i \<le> n \<Longrightarrow> py_clamp n i = i"
  by (simp add: py_clamp_def)

lemma length_py_slice:
  "length (py_slice xs i j) =
     nat (py_clamp (int (length xs)) j - py_clamp (int (length xs)) i)"
  using py_clamp_bounds [of "int (length xs)" i] py_clamp_bounds [of "int (length xs)" j]
  by (auto simp: py_slice_def Let_def)

lemma py_slice_in [py_simps]:
  "0 \<le> i \<Longrightarrow> i \<le> j \<Longrightarrow> j \<le> int (length xs) \<Longrightarrow>
   py_slice xs i j = take (nat (j - i)) (drop (nat i) xs)"
  by (simp add: py_slice_def py_clamp_id Let_def)

lemma py_slice_nonneg:
  "0 \<le> i \<Longrightarrow> i \<le> j \<Longrightarrow> py_slice xs i j = take (nat (j - i)) (drop (nat i) xs)"
  by (cases "i \<le> int (length xs)") (auto simp: py_slice_def py_clamp_def Let_def min_def)

text \<open>Evaluation does not count the list where the bounds are in order.\<close>

lemma py_slice_code [code]:
  "py_slice xs i j =
     (if 0 \<le> i \<and> i \<le> j then take (nat (j - i)) (drop (nat i) xs)
      else (let n = int (length xs); a = py_clamp n i; b = py_clamp n j
            in take (nat (b - a)) (drop (nat a) xs)))"
  by (simp add: py_slice_nonneg) (simp add: py_slice_def)

lemma py_slice_all [simp]: "py_slice xs 0 (int (length xs)) = xs"
  by (simp add: py_slice_nonneg)

lemma py_index_in [py_simps]:
  "0 \<le> i \<Longrightarrow> i < int (length xs) \<Longrightarrow> py_index e xs i = Inr (xs ! nat i)"
  by (simp add: py_index_def Let_def)

lemma py_index_code [code]:
  "py_index e xs i =
     (if 0 \<le> i then (case drop (nat i) xs of x # _ \<Rightarrow> Inr x | [] \<Rightarrow> Inl e)
      else (let n = int (length xs) in if 0 \<le> i + n then Inr (xs ! nat (i + n)) else Inl e))"
proof (cases "0 \<le> i")
  case True
  then show ?thesis
    by (cases "nat i < length xs") (auto simp: py_index_def Let_def Cons_nth_drop_Suc [symmetric])
qed (simp add: py_index_def Let_def)

lemma py_index_out: "int (length xs) \<le> i \<Longrightarrow> py_index e xs i = Inl e"
  by (simp add: py_index_def Let_def)

lemma py_index_eq_Inr:
  "py_index e xs i = Inr x \<Longrightarrow> x \<in> set xs"
  by (auto simp: py_index_def Let_def split: if_splits)

section \<open>Lists\<close>

lemma take_drop_split: "a \<le> b \<Longrightarrow> take b xs = take a xs @ take (b - a) (drop a xs)"
  by (metis le_add_diff_inverse take_add)

lemma take_drop_append:
  "take a (drop n xs) @ take b (drop (n + a) xs) = take (a + b) (drop n xs)"
  by (simp add: add.commute take_add)

text \<open>A run of bytes seen through a window of the list is a run of the list.\<close>

lemma take_drop_window:
  assumes "take k (drop i (take n (drop off xs))) = w" "length w = k"
  shows "take k (drop (off + i) xs) = w"
proof -
  from assms have "k \<le> n - i \<or> k = 0"
    by (metis diff_le_self length_drop length_take linorder_not_le min.bounded_iff order_refl
        order_trans diff_le_mono)
  with assms show ?thesis
    by (auto simp: drop_take add.commute)
qed

text \<open>\<open>starts t ds\<close>: where consecutive pieces of lengths \<open>ds\<close> start when the first starts at \<open>t\<close>.\<close>

fun starts :: "int \<Rightarrow> int list \<Rightarrow> int list" where
  "starts t [] = []"
| "starts t (d # ds) = t # starts (t + d) ds"

lemma length_starts [simp]: "length (starts t ds) = length ds"
  by (induction t ds rule: starts.induct) simp_all

lemma starts_append: "starts t (xs @ ys) = starts t xs @ starts (t + sum_list xs) ys"
  by (induction t xs rule: starts.induct) (simp_all add: add.assoc)

lemma nth_starts: "i < length ds \<Longrightarrow> starts t ds ! i = t + sum_list (take i ds)"
  by (induction t ds arbitrary: i rule: starts.induct) (auto simp: nth_Cons' take_Cons')

lemma starts_replicate: "starts t (replicate n d) = map (\<lambda>i. t + int i * d) [0..<n]"
  by (rule nth_equalityI) (simp_all add: nth_starts sum_list_replicate)

lemma sum_list_eq_0_iff_int:
  "\<forall>x \<in> set xs. 0 \<le> x \<Longrightarrow> 0 \<le> sum_list xs" for xs :: "int list"
  by (induction xs) auto

end
