(* ===== verification/Bytes.thy ===== *)
theory Bytes
  imports Prelude
begin

text \<open>
  Byte buffers and the parts of Python's \<^verbatim>\<open>struct\<close> module that the MP4 package reads them with
  (\<^verbatim>\<open>cosmos_curator/core/sensors/mp4\<close>), and the exceptions of that package. A buffer is a list of
  8-bit words; a decoded field is an integer. \<^verbatim>\<open>struct.unpack_from\<close> follows CPython: an offset outside
  a signed 64-bit integer raises \<open>OverflowError\<close>, a negative one counts from the end, and too few
  bytes raise \<^verbatim>\<open>struct.error\<close>.
\<close>

unbundle bit_operations_syntax

type_synonym byte = "8 word"
type_synonym bytes = "byte list"

abbreviation blen :: "bytes \<Rightarrow> int" where
  "blen xs \<equiv> int (length xs)"

section \<open>Exceptions\<close>

text \<open>The first four are Python's own; the others are the classes that \<^verbatim>\<open>errors.py\<close>,
  \<^verbatim>\<open>box_primitives.py\<close>, \<^verbatim>\<open>box_traversal.py\<close>, \<^verbatim>\<open>box_probe.py\<close>, \<^verbatim>\<open>moof_walk.py\<close>, \<^verbatim>\<open>moov.py\<close>,
  \<^verbatim>\<open>moov_track.py\<close> and \<^verbatim>\<open>fragment_table.py\<close> define. Messages are left out. The argument of
  \<open>UuidCallbackError\<close> is the caller's exception, which the package only carries.\<close>

datatype mp4_error =
    StructError
  | IndexError
  | OverflowError
  | ValueError
  | BoxNotFoundError
  | AmbiguousVideoTrackError
  | MalformedBoxHeaderError
  | UuidCallbackError string
  | NoFragmentsFoundError
  | AmbiguousSampleDescriptionError
  | EmptySampleTableError
  | MalformedCompositionOffsetError
  | MalformedSampleTableError
  | FragmentLayoutUnsupportedError
  | CompositionOffsetUnsupportedError
  | BoxLayoutUnsupportedError
  | InvalidFrameByteRangeError
  | BoxProbeMismatchError
  | UnsupportedTimescaleError

text \<open>The subclasses of \<^verbatim>\<open>UnindexableVideoError\<close>.\<close>

fun unindexable :: "mp4_error \<Rightarrow> bool" where
  "unindexable StructError = False"
| "unindexable IndexError = False"
| "unindexable OverflowError = False"
| "unindexable ValueError = False"
| "unindexable (UuidCallbackError _) = False"
| "unindexable _ = True"

type_synonym 'a res = "mp4_error + 'a"

section \<open>Big-endian fields\<close>

definition be_int :: "bytes \<Rightarrow> int" where
  "be_int bs = foldl (\<lambda>acc b. acc * 256 + uint b) 0 bs"

definition unpack_window :: "nat \<Rightarrow> bytes \<Rightarrow> int \<Rightarrow> bytes res" where
  "unpack_window n buf off =
     (let len = int (length buf); at = (if off < 0 then off + len else off)
      in if off < - (2 ^ 63) \<or> 2 ^ 63 \<le> off then Inl OverflowError
         else if off < 0 \<and> (0 < off + int n \<or> off + len < 0) then Inl StructError
         else if len - at < int n then Inl StructError
         else Inr (take n (drop (nat at) buf)))"

definition unpack_uint :: "nat \<Rightarrow> bytes \<Rightarrow> int \<Rightarrow> int res" where
  "unpack_uint n buf off = rbind (unpack_window n buf off) (\<lambda>w. Inr (be_int w))"

abbreviation unpack_u16 :: "bytes \<Rightarrow> int \<Rightarrow> int res" where
  "unpack_u16 \<equiv> unpack_uint 2"

abbreviation unpack_u32 :: "bytes \<Rightarrow> int \<Rightarrow> int res" where
  "unpack_u32 \<equiv> unpack_uint 4"

abbreviation unpack_u64 :: "bytes \<Rightarrow> int \<Rightarrow> int res" where
  "unpack_u64 \<equiv> unpack_uint 8"

definition to_i32 :: "int \<Rightarrow> int" where
  "to_i32 v = (if v < 2 ^ 31 then v else v - 2 ^ 32)"

definition unpack_i32 :: "bytes \<Rightarrow> int \<Rightarrow> int res" where
  "unpack_i32 buf off = rbind (unpack_u32 buf off) (\<lambda>v. Inr (to_i32 v))"

text \<open>\<open>unpack_uints w n\<close> is a format of \<open>n\<close> fields of \<open>w\<close> bytes each, such as \<^verbatim>\<open>f">{n}I"\<close>.\<close>

fun be_ints :: "nat \<Rightarrow> nat \<Rightarrow> bytes \<Rightarrow> int list" where
  "be_ints w 0 bs = []"
| "be_ints w (Suc n) bs = be_int (take w bs) # be_ints w n (drop w bs)"

definition unpack_uints :: "nat \<Rightarrow> nat \<Rightarrow> bytes \<Rightarrow> int \<Rightarrow> int list res" where
  "unpack_uints w n buf off = rbind (unpack_window (w * n) buf off) (\<lambda>x. Inr (be_ints w n x))"

text \<open>\<^verbatim>\<open>bytes.decode("ascii", errors="replace")\<close>: a byte from 128 on becomes U+FFFD, which the model
  writes as the character 255, a character no ASCII byte decodes to.\<close>

definition decode_char :: "byte \<Rightarrow> char" where
  "decode_char b = (if uint b < 128 then char_of (uint b) else CHR 0xFF)"

definition decode_ascii :: "bytes \<Rightarrow> string" where
  "decode_ascii bs = map decode_char bs"

definition str_isascii :: "string \<Rightarrow> bool" where
  "str_isascii s \<longleftrightarrow> list_all (\<lambda>c. (of_char c :: int) < 128) s"

text \<open>\<^verbatim>\<open>str.isprintable\<close> on the strings that \<open>decode_ascii\<close> produces: U+FFFD is printable.\<close>

definition str_isprintable :: "string \<Rightarrow> bool" where
  "str_isprintable s \<longleftrightarrow>
     list_all (\<lambda>c. let n = (of_char c :: int) in (32 \<le> n \<and> n < 127) \<or> n = 255) s"

text \<open>\<^verbatim>\<open>int.to_bytes\<close> of a non-negative number in \<open>n\<close> bytes: the fields \<^verbatim>\<open>struct.pack\<close> writes.\<close>

fun be_bytes :: "nat \<Rightarrow> int \<Rightarrow> bytes" where
  "be_bytes 0 v = []"
| "be_bytes (Suc n) v = be_bytes n (v div 256) @ [word_of_int v]"

definition encode_ascii :: "string \<Rightarrow> bytes" where
  "encode_ascii s = map of_char s"

section \<open>NumPy's signed 64-bit integers\<close>

text \<open>Array arithmetic on \<open>int64\<close> wraps; converting a Python integer that does not fit raises.\<close>

definition wrap_i64 :: "int \<Rightarrow> int" where
  "wrap_i64 v = (v + 2 ^ 63) mod 2 ^ 64 - 2 ^ 63"

definition is_i64 :: "int \<Rightarrow> bool" where
  "is_i64 v \<longleftrightarrow> - (2 ^ 63) \<le> v \<and> v < 2 ^ 63"

definition np_array_i64 :: "int list \<Rightarrow> int list res" where
  "np_array_i64 xs = (if list_all is_i64 xs then Inr xs else Inl OverflowError)"

lemma wrap_i64_id: "is_i64 v \<Longrightarrow> wrap_i64 v = v"
  by (simp add: wrap_i64_def is_i64_def)

lemma is_i64_wrap: "is_i64 (wrap_i64 v)"
  using pos_mod_bound [of "2 ^ 64" "v + 2 ^ 63"] pos_mod_sign [of "2 ^ 64" "v + 2 ^ 63"]
  by (simp add: wrap_i64_def is_i64_def)

lemma np_array_i64_eq_Inr [result_simps]:
  "np_array_i64 xs = Inr ys \<longleftrightarrow> list_all is_i64 xs \<and> ys = xs"
  by (auto simp: np_array_i64_def)

lemma np_array_i64_eq_Inl [result_simps]:
  "np_array_i64 xs = Inl e \<longleftrightarrow> \<not> list_all is_i64 xs \<and> e = OverflowError"
  by (auto simp: np_array_i64_def)

section \<open>Facts about fields\<close>

lemma be_int_Nil [simp]: "be_int [] = 0"
  by (simp add: be_int_def)

lemma be_int_snoc [simp]: "be_int (bs @ [b]) = be_int bs * 256 + uint b"
  by (simp add: be_int_def)

lemma uint_byte_bound: "uint (b :: byte) < 256" "0 \<le> uint (b :: byte)"
  using uint_bounded [of b] by simp_all

lemma be_int_bounds: "0 \<le> be_int bs \<and> be_int bs < 256 ^ length bs"
proof (induction bs rule: rev_induct)
  case Nil
  then show ?case by simp
next
  case (snoc b bs)
  then show ?case using uint_byte_bound [of b] by (simp add: algebra_simps)
qed

lemma length_be_bytes [simp]: "length (be_bytes n v) = n"
  by (induction n arbitrary: v) simp_all

lemma be_int_be_bytes: "0 \<le> v \<Longrightarrow> v < 256 ^ n \<Longrightarrow> be_int (be_bytes n v) = v"
proof (induction n arbitrary: v)
  case 0
  then show ?case by simp
next
  case (Suc n)
  have "v div 256 < 256 ^ n"
    using Suc.prems by (simp add: div_less_iff_less_mult)
  then have "be_int (be_bytes n (v div 256)) = v div 256"
    using Suc.prems(1) by (intro Suc.IH) simp_all
  moreover have "uint (word_of_int v :: byte) = v mod 256"
    by (simp add: unsigned_of_int take_bit_eq_mod)
  ultimately show ?case by simp
qed

lemma length_be_ints [simp]: "length (be_ints w n bs) = n"
  by (induction w n bs rule: be_ints.induct) simp_all

lemma be_ints_nonneg: "x \<in> set (be_ints w n bs) \<Longrightarrow> 0 \<le> x"
  by (induction w n bs rule: be_ints.induct) (auto simp: be_int_bounds)

lemma unpack_window_in [py_simps]:
  "0 \<le> off \<Longrightarrow> off < 2 ^ 63 \<Longrightarrow> off + int n \<le> int (length buf) \<Longrightarrow>
   unpack_window n buf off = Inr (take n (drop (nat off) buf))"
  by (simp add: unpack_window_def Let_def)

lemma unpack_window_code [code]:
  "unpack_window n buf off =
     (if 0 \<le> off \<and> off < 9223372036854775808
      then (let w = take n (drop (nat off) buf) in
            if length w = n \<and> (0 < n \<or> nat off \<le> length buf) then Inr w else Inl StructError)
      else (let len = int (length buf); at = off + len
        in if off < - 9223372036854775808 \<or> 9223372036854775808 \<le> off then Inl OverflowError
           else if 0 < off + int n \<or> off + len < 0 then Inl StructError
           else if len - at < int n then Inl StructError
           else Inr (take n (drop (nat at) buf))))"
  by (auto simp: unpack_window_def Let_def min_def not_less)

lemma unpack_window_length: "unpack_window n buf off = Inr w \<Longrightarrow> length w = n"
  by (auto simp: unpack_window_def Let_def split: if_splits)

lemma unpack_window_Inr_end:
  "0 \<le> off \<Longrightarrow> unpack_window n buf off = Inr w \<Longrightarrow>
   off + int n \<le> int (length buf) \<and> off < 2 ^ 63 \<and> w = take n (drop (nat off) buf)"
  by (auto simp: unpack_window_def Let_def split: if_splits)

lemma unpack_window_error:
  "unpack_window n buf off = Inl e \<Longrightarrow> e = StructError \<or> e = OverflowError"
  by (auto simp: unpack_window_def Let_def split: if_splits)

lemma unpack_uint_bounds:
  assumes "unpack_uint n buf off = Inr v"
  shows "0 \<le> v \<and> v < 256 ^ n"
proof -
  from assms obtain w where w: "unpack_window n buf off = Inr w" "v = be_int w"
    by (auto simp: unpack_uint_def result_simps)
  then show ?thesis using be_int_bounds [of w] unpack_window_length [OF w(1)] by simp
qed

lemma unpack_uint_error:
  "unpack_uint n buf off = Inl e \<Longrightarrow> e = StructError \<or> e = OverflowError"
  by (auto simp: unpack_uint_def result_simps dest: unpack_window_error)

lemma unpack_uint_in:
  "0 \<le> off \<Longrightarrow> off < 2 ^ 63 \<Longrightarrow> off + int n \<le> int (length buf) \<Longrightarrow>
   unpack_uint n buf off = Inr (be_int (take n (drop (nat off) buf)))"
  by (simp add: unpack_uint_def unpack_window_in)

lemma unpack_uint_Inr_end:
  "0 \<le> off \<Longrightarrow> unpack_uint n buf off = Inr v \<Longrightarrow>
   off + int n \<le> int (length buf) \<and> off < 2 ^ 63 \<and> v = be_int (take n (drop (nat off) buf))"
  by (auto simp: unpack_uint_def result_simps dest!: unpack_window_Inr_end)

lemma length_decode_ascii [simp]: "length (decode_ascii bs) = length bs"
  by (simp add: decode_ascii_def)

lemma length_encode_ascii [simp]: "length (encode_ascii s) = length s"
  by (simp add: encode_ascii_def)

lemma decode_encode_char: "(of_char c :: int) < 128 \<Longrightarrow> decode_char (of_char c) = c"
proof -
  assume c: "(of_char c :: int) < 128"
  have "uint (of_char c :: byte) = uint (of_nat (of_char c) :: byte)"
    by (simp only: of_nat_of_char)
  also have "\<dots> = int (of_char c) mod 256"
    by (simp add: unsigned_of_nat take_bit_eq_mod zmod_int del: of_nat_of_char)
  also have "int (of_char c) = (of_char c :: int)"
    by (simp only: of_nat_of_char)
  finally have "uint (of_char c :: byte) = (of_char c :: int) mod 256" .
  moreover have "0 \<le> (of_char c :: int)"
    by (metis of_nat_0_le_iff of_nat_of_char)
  ultimately have "uint (of_char c :: byte) = (of_char c :: int)"
    using c by simp
  then show ?thesis using c by (simp add: decode_char_def)
qed

lemma decode_encode_ascii: "str_isascii s \<Longrightarrow> decode_ascii (encode_ascii s) = s"
  by (induction s) (auto simp: decode_ascii_def encode_ascii_def str_isascii_def decode_encode_char)

end
