(* ===== verification/NumpyArrays.thy ===== *)
theory NumpyArrays
  imports Bytes
begin

text \<open>
  The NumPy operations on one-dimensional \<^verbatim>\<open>int64\<close> arrays that the curation and the sampling modules use,
  by what they document. An array is the list of its elements.
\<close>

text \<open>\<open>searchsorted\<close> on an ascending array, to the left and to the right of equal elements.\<close>

definition searchsorted_left :: "int list \<Rightarrow> int \<Rightarrow> nat" where
  "searchsorted_left xs v = length (takeWhile (\<lambda>x. x < v) xs)"

definition searchsorted_right :: "int list \<Rightarrow> int \<Rightarrow> nat" where
  "searchsorted_right xs v = length (takeWhile (\<lambda>x. x \<le> v) xs)"

text \<open>\<open>cumsum\<close> and \<open>sum\<close>, which wrap.\<close>

fun np_cumsum_from :: "int \<Rightarrow> int list \<Rightarrow> int list" where
  "np_cumsum_from acc [] = []"
| "np_cumsum_from acc (x # xs) = (let s = wrap_i64 (acc + x) in s # np_cumsum_from s xs)"

definition np_cumsum :: "int list \<Rightarrow> int list" where
  "np_cumsum = np_cumsum_from 0"

definition np_sum :: "int list \<Rightarrow> int" where
  "np_sum xs = wrap_i64 (sum_list xs)"

text \<open>A slice \<open>a[i:j]\<close> with indices that are not negative.\<close>

definition np_slice :: "'a list \<Rightarrow> nat \<Rightarrow> nat \<Rightarrow> 'a list" where
  "np_slice xs i j = take (j - i) (drop i xs)"

text \<open>On an ascending array a search splits it, and the slice between two searches is what lies between.\<close>

lemma searchsorted_left_le [simp]: "searchsorted_left xs v \<le> length xs"
  by (simp add: searchsorted_left_def length_takeWhile_le)

lemma searchsorted_right_le [simp]: "searchsorted_right xs v \<le> length xs"
  by (simp add: searchsorted_right_def length_takeWhile_le)

lemma nth_less_searchsorted: "i < searchsorted_left xs v \<Longrightarrow> xs ! i < v"
  unfolding searchsorted_left_def by (metis (mono_tags, lifting) nth_mem set_takeWhileD takeWhile_nth)

lemma searchsorted_le_nth:
  assumes "sorted xs" "searchsorted_left xs v \<le> i" "i < length xs"
  shows "v \<le> xs ! i"
proof -
  have "searchsorted_left xs v < length xs" using assms(2,3) by simp
  then have "\<not> xs ! searchsorted_left xs v < v"
    unfolding searchsorted_left_def by (rule nth_length_takeWhile)
  moreover have "xs ! searchsorted_left xs v \<le> xs ! i" using assms by (intro sorted_nth_mono)
  ultimately show ?thesis by simp
qed

lemma nth_le_searchsorted_right: "i < searchsorted_right xs v \<Longrightarrow> xs ! i \<le> v"
  unfolding searchsorted_right_def by (metis (mono_tags, lifting) nth_mem set_takeWhileD takeWhile_nth)

lemma searchsorted_right_less_nth:
  assumes "sorted xs" "searchsorted_right xs v \<le> i" "i < length xs"
  shows "v < xs ! i"
proof -
  have "searchsorted_right xs v < length xs" using assms(2,3) by simp
  then have "\<not> xs ! searchsorted_right xs v \<le> v"
    unfolding searchsorted_right_def by (rule nth_length_takeWhile)
  moreover have "xs ! searchsorted_right xs v \<le> xs ! i" using assms by (intro sorted_nth_mono)
  ultimately show ?thesis by simp
qed

lemma take_searchsorted: "sorted xs \<Longrightarrow> take (searchsorted_left xs v) xs = filter (\<lambda>x. x < v) xs"
proof (induction xs)
  case (Cons x xs)
  show ?case
  proof (cases "x < v")
    case False
    then have "filter (\<lambda>y. y < v) xs = []" using Cons.prems by (auto simp: filter_empty_conv)
    then show ?thesis using False by (simp add: searchsorted_left_def)
  qed (use Cons in \<open>simp add: searchsorted_left_def\<close>)
qed (simp add: searchsorted_left_def)

lemma drop_searchsorted: "sorted xs \<Longrightarrow> drop (searchsorted_left xs v) xs = filter (\<lambda>x. v \<le> x) xs"
proof (induction xs)
  case (Cons x xs)
  show ?case
  proof (cases "x < v")
    case False
    then have "filter (\<lambda>y. v \<le> y) xs = xs" using Cons.prems by (intro filter_True) auto
    then show ?thesis using False by (simp add: searchsorted_left_def)
  qed (use Cons in \<open>simp add: searchsorted_left_def\<close>)
qed (simp add: searchsorted_left_def)

lemma searchsorted_count: "sorted xs \<Longrightarrow> searchsorted_left xs v = length (filter (\<lambda>x. x < v) xs)"
  by (metis take_searchsorted length_take min.absorb2 searchsorted_left_le)

lemma filter_length_mono: "(\<And>x. P x \<Longrightarrow> Q x) \<Longrightarrow> length (filter P xs) \<le> length (filter Q xs)"
  by (induction xs) (auto intro: le_SucI)

lemma slice_searchsorted:
  assumes "sorted xs"
  shows "np_slice xs (searchsorted_left xs lo) (searchsorted_left xs hi) = filter (\<lambda>x. lo \<le> x \<and> x < hi) xs"
proof -
  have "np_slice xs (searchsorted_left xs lo) (searchsorted_left xs hi) = drop (searchsorted_left xs lo) (take (searchsorted_left xs hi) xs)"
    by (simp add: np_slice_def drop_take)
  also have "take (searchsorted_left xs hi) xs = filter (\<lambda>x. x < hi) xs" by (rule take_searchsorted [OF assms])
  also have "drop (searchsorted_left xs lo) (filter (\<lambda>x. x < hi) xs) = filter (\<lambda>x. lo \<le> x \<and> x < hi) xs"
  proof (cases "lo \<le> hi")
    case True
    then have "filter (\<lambda>x. x < lo) (filter (\<lambda>x. x < hi) xs) = filter (\<lambda>x. x < lo) xs"
      by (auto intro!: filter_cong)
    then have "searchsorted_left (filter (\<lambda>x. x < hi) xs) lo = searchsorted_left xs lo"
      using assms by (simp add: searchsorted_count sorted_wrt_filter del: filter_filter)
    then show ?thesis using drop_searchsorted [of "filter (\<lambda>x. x < hi) xs" lo] assms by (simp add: sorted_wrt_filter conj_commute)
  next
    case False
    then have "filter (\<lambda>x. lo \<le> x \<and> x < hi) xs = []" by (auto simp: filter_empty_conv)
    moreover have "searchsorted_left xs hi \<le> searchsorted_left xs lo"
      using False assms by (auto simp: searchsorted_count intro!: filter_length_mono)
    then have "length (filter (\<lambda>x. x < hi) xs) \<le> searchsorted_left xs lo" using assms by (simp add: searchsorted_count)
    ultimately show ?thesis by simp
  qed
  finally show ?thesis .
qed

section \<open>Assignment through an index array\<close>

text \<open>\<^verbatim>\<open>out[index] = values\<close> for an index without repetitions.\<close>

lemma scatter_other: "i \<notin> set is \<Longrightarrow> foldl (\<lambda>out (i, x). out[i := g x]) out (zip is xs) ! i = out ! i"
  by (induction "is" arbitrary: xs out) (auto simp: zip_Cons1 split: list.splits)

lemma scatter_nth:
  "distinct is \<Longrightarrow> set is \<subseteq> {..<length out} \<Longrightarrow> length xs = length is \<Longrightarrow> k < length is \<Longrightarrow>
     foldl (\<lambda>out (i, x). out[i := g x]) out (zip is xs) ! (is ! k) = g (xs ! k)"
proof (induction "is" arbitrary: xs out k)
  case (Cons i "is")
  then obtain x xs' where xs: "xs = x # xs'" by (cases xs) auto
  show ?case
  proof (cases k)
    case 0
    then show ?thesis using Cons.prems xs scatter_other [of i "is" g "out[i := g x]" xs'] by auto
  next
    case (Suc m)
    then show ?thesis using Cons.prems xs Cons.IH [of "out[i := g x]" xs' m] by auto
  qed
qed simp

lemma length_scatter [simp]: "length (foldl (\<lambda>out (i, x). out[i := g x]) out ixs) = length out"
  by (induction ixs arbitrary: out) auto

end
