(* ===== verification/Dedup.thy ===== *)
theory Dedup
  imports NumpyArrays Complex_Main "HOL-Library.Option_ord" "HOL-Library.Product_Lexorder" "HOL-Library.List_Lexorder"
    "HOL-Library.Char_ord" "HOL-Library.Multiset"
begin

text \<open>
  \<^verbatim>\<open>next/recipes/curation/dedup.py\<close>: the rule that keeps or rejects the rows of one cluster, computed in tiles of
  retention order, and the memory model that sizes the tiles. Normalising a vector, an entry of a matrix product,
  which may depend on the number of rows of its tile, the threshold \<^verbatim>\<open>float32(1 - eps)\<close> and the usable share of a
  device are parameters. Distances and similarities are finite. A table is the list of its rows.
\<close>

datatype dedup_error = DedupValueError | DedupTypeError

section \<open>The device memory model\<close>

definition DEDUP_TILE_ROWS_CAP :: int where "DEDUP_TILE_ROWS_CAP = 4096"
definition FLOAT32_BYTES :: int where "FLOAT32_BYTES = 4"
definition SIM_BLOCK_BYTES_PER_CELL :: int where "SIM_BLOCK_BYTES_PER_CELL = 9"
definition GROUP_INDEX_BYTES_PER_ROW :: int where "GROUP_INDEX_BYTES_PER_ROW = 12"
definition NORMALIZE_LIVE_COPIES :: int where "NORMALIZE_LIVE_COPIES = 2"

definition vector_bytes_per_row :: "int \<Rightarrow> int" where
  "vector_bytes_per_row width = width * FLOAT32_BYTES + GROUP_INDEX_BYTES_PER_ROW"

definition max_group_rows :: "(int \<Rightarrow> int) \<Rightarrow> int \<Rightarrow> int \<Rightarrow> int" where
  "max_group_rows device_budget_bytes width device_total_bytes =
     (let vector_bytes = width * FLOAT32_BYTES;
          per_row = max (NORMALIZE_LIVE_COPIES * vector_bytes) (SIM_BLOCK_BYTES_PER_CELL + vector_bytes) + GROUP_INDEX_BYTES_PER_ROW
      in device_budget_bytes device_total_bytes div per_row)"

text \<open>\<^verbatim>\<open>value.bit_length()\<close>\<close>

fun bit_length :: "nat \<Rightarrow> nat" where
  "bit_length n = (if n = 0 then 0 else bit_length (n div 2) + 1)"

declare bit_length.simps [simp del]

definition floor_to_power_of_two :: "int \<Rightarrow> int" where
  "floor_to_power_of_two v = 2 ^ (bit_length (nat v) - 1)"

definition group_tile_rows :: "(int \<Rightarrow> int) \<Rightarrow> int \<Rightarrow> int \<Rightarrow> int option \<Rightarrow> dedup_error + int" where
  "group_tile_rows device_budget_bytes rows width device_total_bytes =
     (case device_total_bytes of
        None \<Rightarrow> Inr DEDUP_TILE_ROWS_CAP
      | Some total_bytes \<Rightarrow>
          let budget_bytes = device_budget_bytes total_bytes;
              feasible_rows = max_group_rows device_budget_bytes width total_bytes
          in if rows > feasible_rows then Inl DedupValueError
             else
               let spare_bytes = budget_bytes - vector_bytes_per_row width * rows
               in Inr (min DEDUP_TILE_ROWS_CAP (floor_to_power_of_two (spare_bytes div (SIM_BLOCK_BYTES_PER_CELL * rows)))))"

section \<open>Retention order and similarities\<close>

definition retention_order :: "string list \<Rightarrow> int list \<Rightarrow> rat list \<Rightarrow> dedup_error + nat list" where
  "retention_order clip_ids fragment_ids distances =
     (if length clip_ids \<noteq> length distances \<or> length fragment_ids \<noteq> length distances then Inl DedupValueError
      else Inr (sort_key (\<lambda>i. (- distances ! i, clip_ids ! i, fragment_ids ! i)) [0..<length clip_ids]))"

text \<open>\<open>unit_of\<close> normalises a row. \<open>gemm b u v\<close> is an entry of the product of a tile of \<open>b\<close> rows; \<open>None\<close> is minus
  infinity.\<close>

record 'v vector_ops =
  vo_unit :: "'v \<Rightarrow> 'v"
  vo_gemm :: "nat \<Rightarrow> 'v \<Rightarrow> 'v \<Rightarrow> rat"

definition tile_scores :: "'v vector_ops \<Rightarrow> 'v list \<Rightarrow> nat \<Rightarrow> nat \<Rightarrow> rat list" where
  "tile_scores ops unit_rows start stop =
     (let n = length unit_rows;
          sims = map (\<lambda>u. map (vo_gemm ops (stop - start) u) unit_rows) (take (stop - start) (drop start unit_rows));
          global_rows = [start..<stop];
          block_max = map2 (\<lambda>g row. foldl max None (map2 (\<lambda>c s. if c < g then Some s else None) [0..<n] row)) global_rows sims
      in map2 (\<lambda>g m. if g > 0 then the m else 0) global_rows block_max)"

fun tile_loop :: "'v vector_ops \<Rightarrow> 'v list \<Rightarrow> nat \<Rightarrow> nat list \<Rightarrow> rat list \<Rightarrow> rat list" where
  "tile_loop ops unit_rows tile [] max_sim = max_sim"
| "tile_loop ops unit_rows tile (start # later) max_sim =
     (let stop = min (start + tile) (length unit_rows)
      in tile_loop ops unit_rows tile later (take start max_sim @ tile_scores ops unit_rows start stop @ drop stop max_sim))"

definition tiled_max_similarity :: "'v vector_ops \<Rightarrow> 'v list \<Rightarrow> int \<Rightarrow> dedup_error + rat list" where
  "tiled_max_similarity ops unit_rows tile =
     (if tile < 1 then Inl DedupValueError
      else let n = length unit_rows; t = nat tile
           in Inr (tile_loop ops unit_rows t (map (\<lambda>k. k * t) [0..<(n + t - 1) div t]) (replicate n 0)))"

definition max_earlier_similarity ::
  "'v vector_ops \<Rightarrow> string list \<Rightarrow> int list \<Rightarrow> 'v list \<Rightarrow> rat list \<Rightarrow> int \<Rightarrow> dedup_error + rat list" where
  "max_earlier_similarity ops clip_ids fragment_ids embeddings distances tile =
     (if length embeddings \<noteq> length clip_ids then Inl DedupValueError
      else if clip_ids = [] then Inr []
      else rbind (retention_order clip_ids fragment_ids distances) (\<lambda>order.
        let unit_rows = map (\<lambda>i. vo_unit ops (embeddings ! i)) order
        in rbind (tiled_max_similarity ops unit_rows tile) (\<lambda>ordered_scores.
          Inr (foldl (\<lambda>scores (i, s). scores[i := s]) (replicate (length clip_ids) 0) (zip order ordered_scores)))))"

definition duplicate_mask :: "rat \<Rightarrow> rat list \<Rightarrow> bool list" where
  "duplicate_mask threshold scores = map (\<lambda>s. s > threshold) scores"

section \<open>One group\<close>

definition DUPLICATE :: string where "DUPLICATE = ''duplicate''"

record 'v dedup_row =
  dr_clip_id :: string
  dr_fragment :: int
  dr_dedup_key :: int
  dr_reason :: "string option"
  dr_distance :: rat
  dr_vector :: "'v option"

record 'v dedup_table =
  dt_columns :: "string list"
  dt_reason_is_string :: bool
  dt_vector_width :: "int option"
  dt_rows :: "'v dedup_row list"

record marked_row =
  mr_clip_id :: string
  mr_fragment :: int
  mr_dedup_key :: int
  mr_reason :: "string option"
  mr_distance :: rat
  mr_score :: "rat option"

definition REQUIRED_COLUMNS :: "string list" where
  "REQUIRED_COLUMNS = [''clip_id'', ''__frag'', ''__dedup_key'', ''curate_selection_reason'', ''distance_to_centroid'', ''__vector'']"

definition require_columns :: "'v dedup_table \<Rightarrow> dedup_error + unit" where
  "require_columns grp =
     (if list_ex (\<lambda>name. name \<notin> set (dt_columns grp)) REQUIRED_COLUMNS then Inl DedupValueError
      else if \<not> dt_reason_is_string grp then Inl DedupValueError else Inr ())"

definition one_dedup_key :: "'v dedup_row list \<Rightarrow> dedup_error + int" where
  "one_dedup_key rows = (case remdups (map dr_dedup_key rows) of [key] \<Rightarrow> Inr key | _ \<Rightarrow> Inl DedupValueError)"

text \<open>The matrix with its width, \<open>None\<close> when the column is not a list of a fixed size.\<close>

definition scored_vectors :: "'v dedup_table \<Rightarrow> dedup_error + 'v list \<times> int" where
  "scored_vectors grp =
     (if list_ex (\<lambda>row. dr_vector row = None) (dt_rows grp) then Inl DedupValueError
      else case dt_vector_width grp of None \<Rightarrow> Inl DedupTypeError | Some width \<Rightarrow> Inr (map (the \<circ> dr_vector) (dt_rows grp), width))"

definition with_scores :: "'v dedup_row list \<Rightarrow> string option list \<Rightarrow> rat list option \<Rightarrow> marked_row list" where
  "with_scores rows reasons scores =
     map2 (\<lambda>(row, reason) score. \<lparr>mr_clip_id = dr_clip_id row, mr_fragment = dr_fragment row, mr_dedup_key = dr_dedup_key row,
         mr_reason = reason, mr_distance = dr_distance row, mr_score = score\<rparr>)
       (zip rows reasons) (case scores of None \<Rightarrow> replicate (length rows) None | Some s \<Rightarrow> map Some s)"

definition mark_duplicates ::
  "'v vector_ops \<Rightarrow> rat \<Rightarrow> (int \<Rightarrow> int) \<Rightarrow> int option \<Rightarrow> 'v dedup_table \<Rightarrow> dedup_error + marked_row list" where
  "mark_duplicates ops threshold device_budget_bytes device_total_bytes grp =
     rbind (require_columns grp) (\<lambda>_.
       let rows = dt_rows grp; arrived = map dr_reason rows
       in if rows = [] then Inr (with_scores rows arrived None)
          else rbind (one_dedup_key rows) (\<lambda>dedup_key.
            if dedup_key < 0 then Inr (with_scores rows arrived None)
            else rbind (scored_vectors grp) (\<lambda>(matrix, width).
              rbind (group_tile_rows device_budget_bytes (int (length rows)) width device_total_bytes) (\<lambda>tile.
              rbind (max_earlier_similarity ops (map dr_clip_id rows) (map dr_fragment rows) matrix (map dr_distance rows) tile) (\<lambda>scores.
                let reasons = map2 (\<lambda>duplicate reason. if duplicate then Some DUPLICATE else reason) (duplicate_mask threshold scores) arrived
                in Inr (with_scores rows reasons (Some scores)))))))"

section \<open>A tile that fits\<close>

text \<open>The peak of the memory model: the vectors twice while they are normalised, or one copy and the blocks of a tile,
  and the index arrays.\<close>

definition peak_bytes :: "int \<Rightarrow> int \<Rightarrow> int \<Rightarrow> int" where
  "peak_bytes rows width tile = rows * (max (2 * (4 * width)) (9 * tile + 4 * width) + 12)"

lemma bit_length_bounds: "0 < n \<Longrightarrow> 0 < bit_length n \<and> 2 ^ (bit_length n - 1) \<le> n \<and> n < 2 ^ bit_length n"
proof (induction n rule: bit_length.induct)
  case (1 n)
  show ?case
  proof (cases "n div 2 = 0")
    case True
    then have "n = 1" using 1(2) by simp
    then show ?thesis by (simp add: bit_length.simps)
  next
    case False
    then have ih: "0 < bit_length (n div 2)" "2 ^ (bit_length (n div 2) - 1) \<le> n div 2" "n div 2 < 2 ^ bit_length (n div 2)"
      using 1 by auto
    have eq: "bit_length n = bit_length (n div 2) + 1" using 1(2) by (simp add: bit_length.simps [of n])
    have "(2::nat) ^ bit_length (n div 2) = 2 * 2 ^ (bit_length (n div 2) - 1)"
      using ih(1) by (cases "bit_length (n div 2)") simp_all
    then show ?thesis unfolding eq using ih by simp linarith
  qed
qed

lemma floor_to_power_of_two_bounds:
  assumes "1 \<le> v"
  shows "floor_to_power_of_two v \<le> v" and "v < 2 * floor_to_power_of_two v" and "1 \<le> floor_to_power_of_two v"
proof -
  have b: "0 < bit_length (nat v)" "2 ^ (bit_length (nat v) - 1) \<le> nat v" "nat v < 2 ^ bit_length (nat v)"
    using bit_length_bounds [of "nat v"] assms by auto
  have "int (2 ^ (bit_length (nat v) - 1)) \<le> v" "v < int (2 ^ bit_length (nat v))" using b(2,3) assms by linarith+
  moreover have "(2::int) ^ bit_length (nat v) = 2 * 2 ^ (bit_length (nat v) - 1)"
    using b(1) by (cases "bit_length (nat v)") simp_all
  ultimately show "floor_to_power_of_two v \<le> v" "v < 2 * floor_to_power_of_two v" by (simp_all add: floor_to_power_of_two_def)
  show "1 \<le> floor_to_power_of_two v" by (simp add: floor_to_power_of_two_def)
qed

lemma le_div_iff_mult_le: "0 < (b :: int) \<Longrightarrow> x \<le> a div b \<longleftrightarrow> x * b \<le> a"
proof -
  assume b: "0 < b"
  have split: "b * (a div b) + a mod b = a" "0 \<le> a mod b" "a mod b < b" using b by simp_all
  show ?thesis
  proof
    assume "x \<le> a div b"
    then have "b * x \<le> b * (a div b)" using b by (intro mult_left_mono) auto
    then show "x * b \<le> a" using split unfolding mult.commute [of x b] by linarith
  next
    assume le: "x * b \<le> a"
    show "x \<le> a div b"
    proof (rule ccontr)
      assume "\<not> x \<le> a div b"
      then have "b * (a div b + 1) \<le> b * x" using b by (intro mult_left_mono) auto
      then have "b * (a div b) + b \<le> x * b" by (simp add: algebra_simps)
      then show False using split le by linarith
    qed
  qed
qed

text \<open>C19: A group is refused exactly when no tile fits the device; otherwise the tile is a power of two between 1 and
  the cap, with it both peaks of the memory model fit the budget, and below the cap twice as many rows would not.\<close>
theorem tile_fits_device:
  assumes "0 < rows" and "0 \<le> width"
  shows "case group_tile_rows budget rows width (Some total_bytes) of
      Inl e \<Rightarrow> \<forall>tile \<ge> 1. budget total_bytes < peak_bytes rows width tile
    | Inr tile \<Rightarrow> 1 \<le> tile \<and> tile \<le> 4096 \<and> (\<exists>k. tile = 2 ^ k) \<and> peak_bytes rows width tile \<le> budget total_bytes \<and>
        (tile = 4096 \<or> budget total_bytes < peak_bytes rows width (2 * tile))"
proof -
  define per_row where "per_row = max (2 * (4 * width)) (9 + 4 * width) + 12"
  have pos: "0 < per_row" using assms(2) by (simp add: per_row_def)
  have feasible: "rows \<le> max_group_rows budget width total_bytes \<longleftrightarrow> rows * per_row \<le> budget total_bytes"
    using le_div_iff_mult_le [OF pos, of rows] by (simp add: max_group_rows_def Let_def per_row_def FLOAT32_BYTES_def
        NORMALIZE_LIVE_COPIES_def SIM_BLOCK_BYTES_PER_CELL_def GROUP_INDEX_BYTES_PER_ROW_def mult.commute)
  show ?thesis
  proof (cases "rows \<le> max_group_rows budget width total_bytes")
    case False
    have "budget total_bytes < peak_bytes rows width tile" if "1 \<le> tile" for tile
    proof -
      have "rows * per_row \<le> peak_bytes rows width tile"
        unfolding peak_bytes_def per_row_def using assms that by (intro mult_left_mono) auto
      then show ?thesis using False feasible by simp
    qed
    then show ?thesis using False by (simp add: group_tile_rows_def Let_def)
  next
    case True
    then have fits: "rows * per_row \<le> budget total_bytes" using feasible by simp
    define spare where "spare = budget total_bytes - (width * 4 + 12) * rows"
    define p where "p = floor_to_power_of_two (spare div (9 * rows))"
    have cell: "0 < 9 * rows" using assms(1) by simp
    have "rows * (9 + 4 * width + 12) \<le> rows * per_row" using assms by (intro mult_left_mono) (auto simp: per_row_def)
    then have "1 * (9 * rows) \<le> spare" using fits by (simp add: spare_def algebra_simps)
    then have one: "1 \<le> spare div (9 * rows)" using le_div_iff_mult_le [OF cell, of 1 spare] by simp
    have p: "1 \<le> p" "p * (9 * rows) \<le> spare" "spare < 2 * p * (9 * rows)"
      using floor_to_power_of_two_bounds [OF one] le_div_iff_mult_le [OF cell, of p spare] le_div_iff_mult_le [OF cell, of "2 * p" spare]
      by (auto simp: p_def)
    have tile: "group_tile_rows budget rows width (Some total_bytes) = Inr (min 4096 p)"
      using True by (simp add: group_tile_rows_def Let_def DEDUP_TILE_ROWS_CAP_def vector_bytes_per_row_def FLOAT32_BYTES_def
          GROUP_INDEX_BYTES_PER_ROW_def SIM_BLOCK_BYTES_PER_CELL_def spare_def p_def)
    have loop: "rows * (9 * t + 4 * width + 12) \<le> budget total_bytes" if "t \<le> p" for t
    proof -
      have "t * (9 * rows) \<le> spare" using mult_right_mono [OF that, of "9 * rows"] p(2) assms(1) by linarith
      then show ?thesis by (simp add: spare_def algebra_simps)
    qed
    have "rows * (2 * (4 * width) + 12) \<le> rows * per_row" using assms by (intro mult_left_mono) (auto simp: per_row_def)
    then have peak: "peak_bytes rows width (min 4096 p) \<le> budget total_bytes"
      using fits loop [of "min 4096 p"] by (simp add: peak_bytes_def max_def)
    have over: "budget total_bytes < peak_bytes rows width (2 * p)"
    proof -
      have "budget total_bytes < rows * (9 * (2 * p) + 4 * width + 12)" using p(3) by (simp add: spare_def algebra_simps)
      also have "\<dots> \<le> peak_bytes rows width (2 * p)" unfolding peak_bytes_def using assms by (intro mult_left_mono) auto
      finally show ?thesis .
    qed
    have power: "\<exists>k. min 4096 p = 2 ^ k"
      by (cases "4096 \<le> p") (auto simp: p_def floor_to_power_of_two_def min_def intro!: exI [of _ "12 :: nat"])
    show ?thesis unfolding tile using p(1) peak over power by (auto simp: min_def)
  qed
qed

lemma tile_fits_device_witness:
  "0 < (1000000 :: int) \<and>
   (case group_tile_rows (\<lambda>b. b * 9 div 10) 1000000 865 (Some (80 * 2 ^ 30)) of
      Inl e \<Rightarrow> False
    | Inr tile \<Rightarrow> 1 \<le> tile \<and> tile \<le> 4096 \<and> peak_bytes 1000000 865 tile \<le> 80 * 2 ^ 30 * 9 div 10)"
  using tile_fits_device [of 1000000 865 "\<lambda>b. b * 9 div 10" "80 * 2 ^ 30"]
  by (auto simp: group_tile_rows_def Let_def max_group_rows_def FLOAT32_BYTES_def
      NORMALIZE_LIVE_COPIES_def SIM_BLOCK_BYTES_PER_CELL_def GROUP_INDEX_BYTES_PER_ROW_def split: sum.splits)

section \<open>Scores\<close>

text \<open>The number of rows of the tile that holds row \<open>g\<close> of \<open>n\<close>, and the score of row \<open>g\<close>: its greatest similarity to a
  row before it.\<close>

definition tile_height :: "nat \<Rightarrow> nat \<Rightarrow> nat \<Rightarrow> nat" where
  "tile_height t n g = min ((g div t) * t + t) n - (g div t) * t"

definition row_score :: "'v vector_ops \<Rightarrow> 'v list \<Rightarrow> nat \<Rightarrow> nat \<Rightarrow> rat" where
  "row_score ops us t g =
     (if g = 0 then 0 else Max ((\<lambda>c. vo_gemm ops (tile_height t (length us) g) (us ! g) (us ! c)) ` {..<g}))"

lemma foldl_max_prefix:
  fixes f :: "nat \<Rightarrow> rat"
  shows "foldl max None (map (\<lambda>c. if c < g then Some (f c) else None) [0..<n]) = (if 0 < min g n then Some (Max (f ` {..<min g n})) else None)"
proof (induction n)
  case (Suc n)
  let ?h = "\<lambda>c. if c < g then Some (f c) else None"
  have step: "foldl max None (map ?h [0..<Suc n]) = max (foldl max None (map ?h [0..<n])) (?h n)" by simp
  show ?case
  proof (cases "n < g")
    case True
    have m: "min g (Suc n) = Suc n" "min g n = n" using True by auto
    have none: "max None (Some x) = Some x" for x :: rat by (simp add: max_def less_eq_option_def)
    have some: "max (Some x) (Some y) = Some (max x y)" for x y :: rat by (simp add: max_def)
    show ?thesis
    proof (cases "n = 0")
      case True
      then show ?thesis unfolding step Suc.IH m using \<open>n < g\<close> none by (simp add: lessThan_Suc)
    next
      case False
      then have "Max (f ` {..<Suc n}) = max (f n) (Max (f ` {..<n}))"
        by (simp add: lessThan_Suc) (subst Max_insert; auto)
      then show ?thesis unfolding step Suc.IH m using \<open>n < g\<close> False some by (simp add: max.commute)
    qed
  next
    case False
    then have m: "min g (Suc n) = min g n" by simp
    have "max o' None = o'" for o' :: "rat option" by (cases o') (simp_all add: max_def)
    then show ?thesis unfolding step Suc.IH m using False by simp
  qed
qed simp

lemma tile_scores_rows:
  assumes "start = k * t" "start < length us" "stop = min (start + t) (length us)" "0 < t"
  shows "tile_scores ops us start stop = map (row_score ops us t) [start..<stop]"
proof -
  have len: "min (length us - start) (stop - start) = stop - start" using assms(3) by simp
  have cell: "(\<lambda>g row. foldl max None (map2 (\<lambda>c s. if c < g then Some s else None) [0..<length us] row)) g
       (map (vo_gemm ops (stop - start) u) us) =
     (if 0 < g then Some (Max ((\<lambda>c. vo_gemm ops (stop - start) u (us ! c)) ` {..<g})) else None)" if "g < stop" for g u
  proof -
    have "map2 (\<lambda>c s. if c < g then Some s else None) [0..<length us] (map (vo_gemm ops (stop - start) u) us) =
        map (\<lambda>c. if c < g then Some (vo_gemm ops (stop - start) u (us ! c)) else None) [0..<length us]"
      by (rule nth_equalityI) simp_all
    moreover have "min g (length us) = g" using that assms(3) by simp
    ultimately show ?thesis using foldl_max_prefix [of g _ "length us"] by simp
  qed
  have height: "tile_height t (length us) g = stop - start" if "start \<le> g" "g < stop" for g
  proof -
    have "g div t = k" using that assms by (intro div_nat_eqI) (simp_all add: mult.commute)
    then show ?thesis using assms by (simp add: tile_height_def)
  qed
  show ?thesis
  proof (rule nth_equalityI)
    show "length (tile_scores ops us start stop) = length (map (row_score ops us t) [start..<stop])"
      by (simp add: tile_scores_def Let_def len)
  next
    fix i
    assume "i < length (tile_scores ops us start stop)"
    then have i: "i < stop - start" by (simp add: tile_scores_def Let_def len)
    then have nth: "take (stop - start) (drop start us) ! i = us ! (start + i)" "start + i < stop" using assms(3) by auto
    have "tile_scores ops us start stop ! i =
        (if start + i > 0 then the (if 0 < start + i then Some (Max ((\<lambda>c. vo_gemm ops (stop - start) (us ! (start + i)) (us ! c)) ` {..<start + i})) else None) else 0)"
      using i nth cell [OF nth(2)] by (simp add: tile_scores_def Let_def len)
    also have "\<dots> = row_score ops us t (start + i)"
      using height [of "start + i"] nth(2) by (simp add: row_score_def)
    finally show "tile_scores ops us start stop ! i = map (row_score ops us t) [start..<stop] ! i" using i by simp
  qed
qed

lemma tile_loop_scores:
  assumes "0 < t" "m * t < length us + t"
  shows "tile_loop ops us t (map (\<lambda>k. k * t) [0..<m]) (replicate (length us) 0) =
    map (row_score ops us t) [0..<min (m * t) (length us)] @ replicate (length us - m * t) 0"
proof -
  have split: "tile_loop ops us t (xs @ [s]) acc =
      (let acc' = tile_loop ops us t xs acc; stop = min (s + t) (length us)
       in take s acc' @ tile_scores ops us s stop @ drop stop acc')" for xs s acc
    by (induction xs arbitrary: acc) (simp_all add: Let_def)
  show ?thesis
    using assms(2)
  proof (induction m)
    case (Suc m)
    then have m: "m * t < length us" by simp
    then have ih: "tile_loop ops us t (map (\<lambda>k. k * t) [0..<m]) (replicate (length us) 0) =
        map (row_score ops us t) [0..<m * t] @ replicate (length us - m * t) 0"
      using Suc.IH by simp
    let ?stop = "min (m * t + t) (length us)"
    have "tile_loop ops us t (map (\<lambda>k. k * t) [0..<Suc m]) (replicate (length us) 0) =
        map (row_score ops us t) [0..<m * t] @ map (row_score ops us t) [m * t..<?stop] @ replicate (length us - ?stop) 0"
      using m by (simp add: split ih Let_def tile_scores_rows [OF refl m refl assms(1)])
    also have "\<dots> = map (row_score ops us t) ([0..<m * t] @ [m * t..<?stop]) @ replicate (length us - ?stop) 0" by simp
    also have "[0..<m * t] @ [m * t..<?stop] = [0..<?stop]" using upt_add_eq_append [of 0 "m * t" "?stop - m * t"] m by simp
    finally show ?case by (simp add: min_def add.commute)
  qed simp
qed

lemma tiled_max_similarity_rows:
  "1 \<le> tile \<Longrightarrow> tiled_max_similarity ops us tile = Inr (map (row_score ops us (nat tile)) [0..<length us])"
proof -
  assume tile: "1 \<le> tile"
  define t where "t = nat tile"
  have t: "0 < t" using tile by (simp add: t_def)
  define m where "m = (length us + t - 1) div t"
  have "length us \<le> m * t" "m * t < length us + t"
    using div_mult_mod_eq [of "length us + t - 1" t] mod_less_divisor [OF t, of "length us + t - 1"] t unfolding m_def by linarith+
  then show ?thesis
    using tile tile_loop_scores [OF t, of m us ops] unfolding tiled_max_similarity_def Let_def t_def [symmetric] m_def [symmetric] by simp
qed

section \<open>The retention rule\<close>

definition retention_key :: "'v dedup_row \<Rightarrow> rat \<times> string \<times> int" where
  "retention_key row = (- dr_distance row, dr_clip_id row, dr_fragment row)"

text \<open>Strictly earlier in retention order; rows that agree in everything keep the order they arrived in.\<close>

definition earlier :: "('a \<Rightarrow> 'b :: linorder) \<Rightarrow> 'a list \<Rightarrow> nat \<Rightarrow> nat \<Rightarrow> bool" where
  "earlier k xs i j \<longleftrightarrow> k (xs ! i) < k (xs ! j) \<or> k (xs ! i) = k (xs ! j) \<and> i < j"

lemma insort_key_stable:
  fixes k :: "nat \<Rightarrow> 'b :: linorder"
  defines "before \<equiv> \<lambda>i j. k i < k j \<or> k i = k j \<and> i < j"
  shows "sorted_wrt before ys \<Longrightarrow> \<forall>y \<in> set ys. x < y \<Longrightarrow> sorted_wrt before (insort_key k x ys)"
proof (induction ys)
  case (Cons y ys)
  show ?case
  proof (cases "k x \<le> k y")
    case True
    then have "before x y" using Cons.prems(2) by (auto simp: before_def)
    moreover have "\<forall>z \<in> set ys. before x z" using calculation Cons.prems by (force simp: before_def)
    ultimately show ?thesis using True Cons.prems(1) by simp
  next
    case False
    then have "before y x" by (simp add: before_def not_le)
    then show ?thesis using False Cons by (auto simp: set_insort_key)
  qed
qed simp

lemma sort_key_stable:
  fixes k :: "nat \<Rightarrow> 'b :: linorder"
  shows "sorted_wrt (\<lambda>i j. k i < k j \<or> k i = k j \<and> i < j) (sort_key k [m..<n])"
proof (induction "n - m" arbitrary: m)
  case (Suc d)
  then have "[m..<n] = m # [Suc m..<n]" by (simp add: upt_conv_Cons)
  then show ?case using insort_key_stable [OF Suc.hyps(1) [of "Suc m"]] Suc.hyps(2) by simp
qed simp

text \<open>The number of rows before a row, which is its place in retention order, and the score of a row: the maximum over
  the rows before it of the entry computed in the row's tile, whose height is a matter of the place.\<close>

definition rows_before :: "'v dedup_row list \<Rightarrow> nat \<Rightarrow> nat set" where
  "rows_before rows j = {i. i < length rows \<and> earlier retention_key rows i j}"

definition rule_score :: "'v vector_ops \<Rightarrow> nat \<Rightarrow> 'v dedup_row list \<Rightarrow> nat \<Rightarrow> rat" where
  "rule_score ops t rows j =
     (if rows_before rows j = {} then 0
      else Max ((\<lambda>i. vo_gemm ops (tile_height t (length rows) (card (rows_before rows j)))
        (vo_unit ops (the (dr_vector (rows ! j)))) (vo_unit ops (the (dr_vector (rows ! i))))) ` rows_before rows j))"

lemma finite_rows_before [simp]: "finite (rows_before rows j)"
  by (simp add: rows_before_def)

lemma rule_score_above:
  assumes "0 \<le> threshold"
  shows "threshold < rule_score ops t rows j \<longleftrightarrow> (\<exists>i \<in> rows_before rows j.
    threshold < vo_gemm ops (tile_height t (length rows) (card (rows_before rows j)))
      (vo_unit ops (the (dr_vector (rows ! j)))) (vo_unit ops (the (dr_vector (rows ! i)))))"
  using assms by (auto simp: rule_score_def Max_gr_iff)

lemma sort_key_agree: "\<forall>x \<in> set xs. f x = g x \<Longrightarrow> sort_key f xs = sort_key g xs"
proof (induction xs)
  case (Cons x xs)
  have "insort_key f x ys = insort_key g x ys" if "\<forall>y \<in> set ys. f y = g y" for ys
    using that Cons.prems by (induction ys) auto
  then show ?case using Cons by simp
qed simp

lemma max_earlier_similarity_scores:
  assumes "1 \<le> tile" "us = map (\<lambda>row. the (dr_vector row)) rows"
  shows "max_earlier_similarity ops (map dr_clip_id rows) (map dr_fragment rows) us (map dr_distance rows) tile =
    Inr (map (rule_score ops (nat tile) rows) [0..<length rows])"
proof (cases "rows = []")
  case False
  let ?n = "length rows"
  have len: "length us = ?n" by (simp add: assms(2))
  define order where "order = sort_key (\<lambda>i. retention_key (rows ! i)) [0..<?n]"
  have order: "set order = {..<?n}" "distinct order" "length order = ?n" by (auto simp: order_def)
  have stable: "sorted_wrt (earlier retention_key rows) order"
    using sort_key_stable [of "\<lambda>i. retention_key (rows ! i)" 0 ?n] by (simp add: order_def earlier_def [abs_def])
  define ordered where "ordered = map (\<lambda>i. vo_unit ops (us ! i)) order"
  define scored where "scored = map (row_score ops ordered (nat tile)) [0..<?n]"
  define scores where "scores = foldl (\<lambda>scores (i, s). scores[i := s]) (replicate ?n 0) (zip order scored)"
  have "retention_order (map dr_clip_id rows) (map dr_fragment rows) (map dr_distance rows) = Inr order"
    by (simp add: retention_order_def order_def retention_key_def) (rule sort_key_agree, simp)
  then have call: "max_earlier_similarity ops (map dr_clip_id rows) (map dr_fragment rows) us (map dr_distance rows) tile = Inr scores"
    using False tiled_max_similarity_rows [OF assms(1), of ops ordered] order(3) len
    by (simp add: max_earlier_similarity_def scores_def scored_def ordered_def Let_def)
  have "scores ! j = rule_score ops (nat tile) rows j" if j: "j < ?n" for j
  proof -
    obtain g where g: "g < ?n" "order ! g = j" using j order by (metis in_set_conv_nth lessThan_iff)
    have before: "rows_before rows j = (!) order ` {..<g}"
    proof (rule set_eqI)
      fix i
      have "i < ?n \<longleftrightarrow> (\<exists>c < ?n. order ! c = i)" using order(1,3) by (metis in_set_conv_nth lessThan_iff)
      then have "i \<in> rows_before rows j \<longleftrightarrow> (\<exists>c < ?n. order ! c = i \<and> earlier retention_key rows (order ! c) (order ! g))"
        unfolding rows_before_def g(2) by blast
      moreover have "earlier retention_key rows (order ! c) (order ! g) \<longleftrightarrow> c < g" if "c < ?n" for c
        using sorted_wrt_nth_less [OF stable, of c g] sorted_wrt_nth_less [OF stable, of g c] that g(1) order(3)
        by (cases c g rule: linorder_cases) (auto simp: earlier_def)
      ultimately show "i \<in> rows_before rows j \<longleftrightarrow> i \<in> (!) order ` {..<g}"
        using g(1) by (metis (no_types, lifting) imageE imageI lessThan_iff order.strict_trans)
    qed
    have "inj_on ((!) order) {..<g}" using g(1) order(2,3) by (intro inj_on_nth) auto
    then have place: "card (rows_before rows j) = g" by (simp add: before card_image)
    have "scores ! (order ! g) = scored ! g"
      unfolding scores_def by (rule scatter_nth [where g = "\<lambda>x. x"]) (use order g in \<open>simp_all add: scored_def\<close>)
    then have "scores ! j = row_score ops ordered (nat tile) g" using g by (simp add: scored_def)
    also have "(\<lambda>c. vo_gemm ops (tile_height (nat tile) (length ordered) g) (ordered ! g) (ordered ! c)) ` {..<g} =
        (\<lambda>i. vo_gemm ops (tile_height (nat tile) ?n g) (vo_unit ops (us ! j)) (vo_unit ops (us ! i))) ` ((!) order ` {..<g})"
      unfolding image_image using g order(3) by (intro image_cong) (auto simp: ordered_def)
    then have "row_score ops ordered (nat tile) g = (if g = 0 then 0 else
        Max ((\<lambda>i. vo_gemm ops (tile_height (nat tile) ?n g) (vo_unit ops (us ! j)) (vo_unit ops (us ! i))) ` rows_before rows j))"
      by (simp add: row_score_def before)
    also have "(\<lambda>i. vo_gemm ops (tile_height (nat tile) ?n g) (vo_unit ops (us ! j)) (vo_unit ops (us ! i))) ` rows_before rows j =
        (\<lambda>i. vo_gemm ops (tile_height (nat tile) ?n g) (vo_unit ops (the (dr_vector (rows ! j)))) (vo_unit ops (the (dr_vector (rows ! i))))) ` rows_before rows j"
      using j by (intro image_cong) (auto simp: assms(2) rows_before_def)
    finally show ?thesis using place by (auto simp: rule_score_def)
  qed
  then have "scores = map (rule_score ops (nat tile) rows) [0..<?n]"
    by (intro nth_equalityI) (simp_all add: scores_def)
  then show ?thesis using call by simp
qed (simp add: assms(2) max_earlier_similarity_def)

lemma group_tile_rows_bounds: "group_tile_rows budget rows width device = Inr tile \<Longrightarrow> 1 \<le> tile \<and> tile \<le> 4096"
  by (auto simp: group_tile_rows_def Let_def DEDUP_TILE_ROWS_CAP_def floor_to_power_of_two_def split: option.splits if_splits)

lemma one_dedup_key_all: "one_dedup_key rows = Inr key \<Longrightarrow> row \<in> set rows \<Longrightarrow> dr_dedup_key row = key"
proof -
  assume "one_dedup_key rows = Inr key" and row: "row \<in> set rows"
  then have "remdups (map dr_dedup_key rows) = [key]" by (auto simp: one_dedup_key_def split: list.splits)
  then have "set (map dr_dedup_key rows) = {key}" by (metis set_remdups list.set(1,2))
  then show ?thesis using row by auto
qed

definition marked_as :: "'v dedup_row \<Rightarrow> string option \<Rightarrow> rat option \<Rightarrow> marked_row" where
  "marked_as row reason score = \<lparr>mr_clip_id = dr_clip_id row, mr_fragment = dr_fragment row, mr_dedup_key = dr_dedup_key row,
     mr_reason = reason, mr_distance = dr_distance row, mr_score = score\<rparr>"

lemma with_scores_rows:
  assumes "length reasons = length rows" "\<forall>s. scores = Some s \<longrightarrow> length s = length rows"
  shows "length (with_scores rows reasons scores) = length rows"
    and "j < length rows \<Longrightarrow> with_scores rows reasons scores ! j = marked_as (rows ! j) (reasons ! j) (map_option (\<lambda>s. s ! j) scores)"
  using assms by (auto simp: with_scores_def marked_as_def split: option.splits)

text \<open>What a group that is not refused looks like.\<close>

lemma mark_duplicates_rows:
  assumes call: "mark_duplicates ops threshold budget device grp = Inr marked" and rows: "rows = dt_rows grp"
  shows "\<exists>t. 1 \<le> t \<and> t \<le> 4096 \<and> length marked = length rows \<and> (\<forall>j < length rows. marked ! j =
    (if dr_dedup_key (rows ! j) < 0 then marked_as (rows ! j) (dr_reason (rows ! j)) None
     else marked_as (rows ! j) (if threshold < rule_score ops t rows j then Some DUPLICATE else dr_reason (rows ! j))
       (Some (rule_score ops t rows j))))"
proof -
  consider (unscored) "marked = with_scores rows (map dr_reason rows) None" "\<forall>j < length rows. dr_dedup_key (rows ! j) < 0"
    | (scored) us tile scores where "\<forall>j < length rows. 0 \<le> dr_dedup_key (rows ! j)" "us = map (\<lambda>row. the (dr_vector row)) rows"
        "1 \<le> tile" "tile \<le> 4096"
        "max_earlier_similarity ops (map dr_clip_id rows) (map dr_fragment rows) us (map dr_distance rows) tile = Inr scores"
        "marked = with_scores rows (map2 (\<lambda>duplicate reason. if duplicate then Some DUPLICATE else reason) (duplicate_mask threshold scores) (map dr_reason rows)) (Some scores)"
  proof (cases "rows = []")
    case True
    then show thesis using unscored call by (auto simp: mark_duplicates_def rbind_eq_Inr with_scores_def simp flip: rows)
  next
    case False
    then obtain key where key: "one_dedup_key rows = Inr key" using call by (auto simp: mark_duplicates_def Let_def rbind_eq_Inr simp flip: rows)
    have keys: "dr_dedup_key (rows ! j) = key" if "j < length rows" for j using one_dedup_key_all [OF key] that by simp
    show thesis
    proof (cases "key < 0")
      case True
      then show thesis using unscored False call key keys by (auto simp: mark_duplicates_def Let_def rbind_eq_Inr simp flip: rows)
    next
      case neg: False
      then obtain us width tile scores where vectors: "scored_vectors grp = Inr (us, width)"
        and tile: "group_tile_rows budget (int (length rows)) width device = Inr tile"
        and call': "max_earlier_similarity ops (map dr_clip_id rows) (map dr_fragment rows) us (map dr_distance rows) tile = Inr scores"
          "marked = with_scores rows (map2 (\<lambda>duplicate reason. if duplicate then Some DUPLICATE else reason) (duplicate_mask threshold scores) (map dr_reason rows)) (Some scores)"
        using False call key by (auto simp: mark_duplicates_def Let_def rbind_eq_Inr simp flip: rows)
      have "us = map (\<lambda>row. the (dr_vector row)) rows"
        using vectors by (auto simp: scored_vectors_def rows comp_def split: if_splits option.splits)
      then show thesis using scored call' group_tile_rows_bounds [OF tile] keys neg by auto
    qed
  qed
  then show ?thesis
  proof cases
    case unscored
    then show ?thesis using with_scores_rows [of "map dr_reason rows" rows None] by (intro exI [of _ 1]) simp
  next
    case (scored us tile scores)
    have scores: "scores = map (rule_score ops (nat tile) rows) [0..<length rows]"
      using scored(5) max_earlier_similarity_scores [OF scored(3,2), of ops] by simp
    have "\<not> dr_dedup_key (rows ! j) < 0" if "j < length rows" for j using scored(1) that by fastforce
    moreover have "1 \<le> nat tile" "nat tile \<le> 4096" using scored(3,4) by linarith+
    ultimately show ?thesis
      using with_scores_rows [of "map2 (\<lambda>duplicate reason. if duplicate then Some DUPLICATE else reason) (duplicate_mask threshold scores) (map dr_reason rows)" rows "Some scores"]
        by (intro exI [of _ "nat tile"]) (simp add: scored(6) scores duplicate_mask_def)
  qed
qed

text \<open>C17: A group that is not refused comes back row for row. A row that bypasses scoring keeps its reason and has no
  score. The score of any other row is its maximum over all strictly earlier rows, duplicates included, in retention
  order, and zero for the first; each entry is the one the device computes in the tile of the row, a tile of the height
  that the place of the row and the tile size determine. The row is a duplicate exactly when its score is above the
  threshold, and keeps the reason it arrived with otherwise.\<close>
theorem duplicates_marked_by_rule:
  assumes "mark_duplicates ops threshold budget device grp = Inr marked" and "rows = dt_rows grp"
  shows "\<exists>t. 1 \<le> t \<and> t \<le> 4096 \<and> length marked = length rows \<and>
    (\<forall>j < length rows. mr_clip_id (marked ! j) = dr_clip_id (rows ! j) \<and> mr_fragment (marked ! j) = dr_fragment (rows ! j) \<and>
       (if dr_dedup_key (rows ! j) < 0 then mr_score (marked ! j) = None \<and> mr_reason (marked ! j) = dr_reason (rows ! j)
        else let before = {i. i < length rows \<and> earlier retention_key rows i j};
                 height = tile_height t (length rows) (card before);
                 score = (if before = {} then 0 else Max ((\<lambda>i. vo_gemm ops height
                   (vo_unit ops (the (dr_vector (rows ! j)))) (vo_unit ops (the (dr_vector (rows ! i))))) ` before))
             in mr_score (marked ! j) = Some score \<and>
                mr_reason (marked ! j) = (if threshold < score then Some DUPLICATE else dr_reason (rows ! j))))"
proof -
  from mark_duplicates_rows [OF assms] obtain t where t: "1 \<le> t" "t \<le> 4096" "length marked = length rows"
    and row: "\<And>j. j < length rows \<Longrightarrow> marked ! j = (if dr_dedup_key (rows ! j) < 0 then marked_as (rows ! j) (dr_reason (rows ! j)) None
     else marked_as (rows ! j) (if threshold < rule_score ops t rows j then Some DUPLICATE else dr_reason (rows ! j))
       (Some (rule_score ops t rows j)))" by blast
  show ?thesis
    by (rule exI [of _ t]) (use t row in \<open>auto simp: marked_as_def Let_def rule_score_def simp flip: rows_before_def\<close>)
qed

text \<open>C18: Two runs over the rows of a cluster, in any order, on any two devices and in any tiles, give the same verdicts
  when both compute similarities that are within \<open>\<delta>\<close> of an exact one, and no two rows of the cluster are as similar
  as the threshold up to \<open>\<delta>\<close>. Without the last, tiles of different heights may disagree.\<close>
theorem verdicts_independent_of_arrival:
  fixes ops ops' :: "'v vector_ops" and sim :: "'v \<Rightarrow> 'v \<Rightarrow> rat"
  assumes "0 \<le> threshold"
    and "mark_duplicates ops threshold budget device grp = Inr marked" and "mark_duplicates ops' threshold budget' device' grp' = Inr marked'"
    and "mset (dt_rows grp) = mset (dt_rows grp')" and "distinct (map (\<lambda>row. (dr_clip_id row, dr_fragment row)) (dt_rows grp))"
    and "vs = (\<lambda>row. the (dr_vector row)) ` set (dt_rows grp)"
    and "\<forall>u \<in> vs. \<forall>v \<in> vs. \<forall>b. \<bar>vo_gemm ops b (vo_unit ops u) (vo_unit ops v) - sim u v\<bar> \<le> \<delta>"
    and "\<forall>u \<in> vs. \<forall>v \<in> vs. \<forall>b. \<bar>vo_gemm ops' b (vo_unit ops' u) (vo_unit ops' v) - sim u v\<bar> \<le> \<delta>"
    and "\<forall>r \<in> set (dt_rows grp). \<forall>s \<in> set (dt_rows grp). r \<noteq> s \<longrightarrow> \<delta> < \<bar>sim (the (dr_vector r)) (the (dr_vector s)) - threshold\<bar>"
  shows "mset (map (\<lambda>m. m\<lparr>mr_score := None\<rparr>) marked) = mset (map (\<lambda>m. m\<lparr>mr_score := None\<rparr>) marked')"
proof -
  define rule where "rule = (\<lambda>R row. marked_as row
    (if 0 \<le> dr_dedup_key row \<and> (\<exists>r \<in> R. retention_key r < retention_key row \<and> threshold < sim (the (dr_vector row)) (the (dr_vector r)))
     then Some DUPLICATE else dr_reason row) None)"
  have verdicts: "map (\<lambda>m. m\<lparr>mr_score := None\<rparr>) out = map (rule (set (dt_rows g))) (dt_rows g)"
    if call: "mark_duplicates vo threshold b d g = Inr out" and dist: "distinct (map (\<lambda>row. (dr_clip_id row, dr_fragment row)) (dt_rows g))"
      and same: "set (dt_rows g) = set (dt_rows grp)"
      and close: "\<forall>u \<in> vs. \<forall>v \<in> vs. \<forall>b. \<bar>vo_gemm vo b (vo_unit vo u) (vo_unit vo v) - sim u v\<bar> \<le> \<delta>" for vo b d g out
  proof (rule nth_equalityI)
    from mark_duplicates_rows [OF call refl] obtain t where len: "length out = length (dt_rows g)"
      and row: "\<And>j. j < length (dt_rows g) \<Longrightarrow> out ! j = (if dr_dedup_key (dt_rows g ! j) < 0 then marked_as (dt_rows g ! j) (dr_reason (dt_rows g ! j)) None
        else marked_as (dt_rows g ! j) (if threshold < rule_score vo t (dt_rows g) j then Some DUPLICATE else dr_reason (dt_rows g ! j))
          (Some (rule_score vo t (dt_rows g) j)))" by blast
    then show "length (map (\<lambda>m. m\<lparr>mr_score := None\<rparr>) out) = length (map (rule (set (dt_rows g))) (dt_rows g))" by simp
    fix j
    assume "j < length (map (\<lambda>m. m\<lparr>mr_score := None\<rparr>) out)"
    then have j: "j < length (dt_rows g)" using len by simp
    have before: "i \<in> rows_before (dt_rows g) j \<longleftrightarrow> i < length (dt_rows g) \<and> retention_key (dt_rows g ! i) < retention_key (dt_rows g ! j)" for i
      using nth_eq_iff_index_eq [OF dist, of i j] j by (auto simp: rows_before_def earlier_def retention_key_def)
    have side: "threshold < vo_gemm vo h (vo_unit vo (the (dr_vector (dt_rows g ! j)))) (vo_unit vo (the (dr_vector (dt_rows g ! i)))) \<longleftrightarrow>
        threshold < sim (the (dr_vector (dt_rows g ! j))) (the (dr_vector (dt_rows g ! i)))" if "i \<in> rows_before (dt_rows g) j" for i h
    proof -
      have i: "i < length (dt_rows g)" "retention_key (dt_rows g ! i) < retention_key (dt_rows g ! j)" using that before by auto
      then have mem: "dt_rows g ! i \<in> set (dt_rows grp)" "dt_rows g ! j \<in> set (dt_rows grp)" "dt_rows g ! j \<noteq> dt_rows g ! i"
        using j same nth_mem by (metis, metis, auto)
      then have "\<delta> < \<bar>sim (the (dr_vector (dt_rows g ! j))) (the (dr_vector (dt_rows g ! i))) - threshold\<bar>" using assms(9) by blast
      moreover have "\<bar>vo_gemm vo h (vo_unit vo (the (dr_vector (dt_rows g ! j)))) (vo_unit vo (the (dr_vector (dt_rows g ! i)))) -
          sim (the (dr_vector (dt_rows g ! j))) (the (dr_vector (dt_rows g ! i)))\<bar> \<le> \<delta>" using close mem(1,2) assms(6) by blast
      ultimately show ?thesis by linarith
    qed
    have "threshold < rule_score vo t (dt_rows g) j \<longleftrightarrow> (\<exists>i \<in> rows_before (dt_rows g) j.
        threshold < sim (the (dr_vector (dt_rows g ! j))) (the (dr_vector (dt_rows g ! i))))"
      unfolding rule_score_above [OF assms(1)] using side by blast
    also have "\<dots> \<longleftrightarrow> (\<exists>r \<in> set (dt_rows g). retention_key r < retention_key (dt_rows g ! j) \<and> threshold < sim (the (dr_vector (dt_rows g ! j))) (the (dr_vector r)))"
      by (simp only: Bex_def before in_set_conv_nth) blast
    finally have "map (rule (set (dt_rows g))) (dt_rows g) ! j = marked_as (dt_rows g ! j)
        (if 0 \<le> dr_dedup_key (dt_rows g ! j) \<and> threshold < rule_score vo t (dt_rows g) j then Some DUPLICATE else dr_reason (dt_rows g ! j)) None"
      using j by (simp only: nth_map rule_def)
    then show "map (\<lambda>m. m\<lparr>mr_score := None\<rparr>) out ! j = map (rule (set (dt_rows g))) (dt_rows g) ! j"
      using j len row [OF j] by (simp add: marked_as_def not_less)
  qed
  have "distinct (map (\<lambda>row. (dr_clip_id row, dr_fragment row)) (dt_rows grp'))"
    using assms(4,5) by (metis mset_eq_imp_distinct_iff mset_map)
  then show ?thesis
    using verdicts [OF assms(2,5) refl assms(7)] verdicts [OF assms(3) _ _ assms(8)] assms(4) by (metis mset_eq_setD mset_map)
qed

text \<open>A cluster of three clips on a line: the first is a near copy of the second, the third points the other way. The
  second device is less exact, and differently so for tiles of different heights.\<close>

definition line_ops :: "rat vector_ops" where
  "line_ops = \<lparr>vo_unit = (\<lambda>u. u), vo_gemm = (\<lambda>_ u v. u * v)\<rparr>"

definition rough_ops :: "rat vector_ops" where
  "rough_ops = \<lparr>vo_unit = (\<lambda>u. u), vo_gemm = (\<lambda>b u v. u * v + (if b < 3 then 1 / 10 else - (1 / 10)))\<rparr>"

definition line_row :: "string \<Rightarrow> rat \<Rightarrow> rat \<Rightarrow> rat dedup_row" where
  "line_row clip_id distance v = \<lparr>dr_clip_id = clip_id, dr_fragment = 0, dr_dedup_key = 0, dr_reason = None, dr_distance = distance, dr_vector = Some v\<rparr>"

definition line_table :: "rat dedup_row list \<Rightarrow> rat dedup_table" where
  "line_table rows = \<lparr>dt_columns = REQUIRED_COLUMNS, dt_reason_is_string = True, dt_vector_width = Some 1, dt_rows = rows\<rparr>"

definition line_rows :: "rat dedup_row list" where
  "line_rows = [line_row ''a'' 2 1, line_row ''b'' 3 1, line_row ''c'' 1 (- 1)]"

definition line_marked :: "string \<Rightarrow> rat \<Rightarrow> string option \<Rightarrow> rat \<Rightarrow> marked_row" where
  "line_marked clip_id distance reason score = \<lparr>mr_clip_id = clip_id, mr_fragment = 0, mr_dedup_key = 0, mr_reason = reason, mr_distance = distance, mr_score = Some score\<rparr>"

lemma line_marks: "mark_duplicates line_ops (1 / 2) id None (line_table line_rows) =
    Inr [line_marked ''a'' 2 (Some DUPLICATE) 1, line_marked ''b'' 3 None 0, line_marked ''c'' 1 None (- 1)]"
  by code_simp

lemma line_marks_rough: "mark_duplicates rough_ops (1 / 2) (\<lambda>b. b div 2) (Some 160) (line_table (rev line_rows)) =
    Inr [line_marked ''c'' 1 None (- 9 / 10), line_marked ''b'' 3 None 0, line_marked ''a'' 2 (Some DUPLICATE) (11 / 10)]"
  by code_simp

lemma duplicates_marked_by_rule_witness:
  "\<exists>t. let before = {i. i < length line_rows \<and> earlier retention_key line_rows i 0}
     in (if before = {} then 0 else Max ((\<lambda>i. vo_gemm line_ops (tile_height t (length line_rows) (card before))
          (vo_unit line_ops (the (dr_vector (line_rows ! 0)))) (vo_unit line_ops (the (dr_vector (line_rows ! i))))) ` before)) = 1"
proof -
  have "line_rows = dt_rows (line_table line_rows)" by (simp add: line_table_def)
  note marked = duplicates_marked_by_rule [OF line_marks this]
  have facts: "0 < length line_rows" "(dr_dedup_key (line_rows ! 0) < 0) = False" "mr_score (line_marked ''a'' 2 (Some DUPLICATE) 1) = Some 1"
    by (simp_all add: line_rows_def line_row_def line_marked_def)
  show ?thesis
    using marked
    apply (elim exE conjE)
    apply (drule spec [of _ 0])
    apply (drule mp [OF _ facts(1)])
    apply (simp only: facts(2,3) if_False Let_def nth_Cons_0 option.inject)
    apply (elim conjE)
    apply (rule exI, rule sym, assumption)
    done
qed

lemma verdicts_independent_of_arrival_witness:
  "mset (map (\<lambda>m. m\<lparr>mr_score := None\<rparr>) [line_marked ''a'' 2 (Some DUPLICATE) 1, line_marked ''b'' 3 None 0, line_marked ''c'' 1 None (- 1)]) =
   mset (map (\<lambda>m. m\<lparr>mr_score := None\<rparr>) [line_marked ''c'' 1 None (- 9 / 10), line_marked ''b'' 3 None 0, line_marked ''a'' 2 (Some DUPLICATE) (11 / 10)])"
proof (rule verdicts_independent_of_arrival [where sim = "(*)" and \<delta> = "1 / 10", OF _ line_marks line_marks_rough _ _ refl])
  show "mset (dt_rows (line_table line_rows)) = mset (dt_rows (line_table (rev line_rows)))" by (simp add: line_table_def)
  show "distinct (map (\<lambda>row. (dr_clip_id row, dr_fragment row)) (dt_rows (line_table line_rows)))"
    by (simp add: line_table_def line_rows_def line_row_def)
qed (simp_all add: line_ops_def rough_ops_def line_table_def line_rows_def line_row_def)

end
