(* ===== verification/RunManifest.thy ===== *)
theory RunManifest
  imports Prelude Complex_Main "HOL-Library.List_Lexorder" "HOL-Library.Char_ord" "HOL-Library.Sublist"
begin

text \<open>
  \<^verbatim>\<open>client/slurm_cli/managed_ray/onnode/slurm_ray_state.py\<close>: the manifest of a managed run, its state
  machine and the mutations that may be applied to it under the run lock. A decoded JSON value is a
  \<open>json\<close>, a dictionary the association list of its entries in insertion order; the manifest file is
  a \<open>manifest option\<close>, \<open>None\<close> when it is missing or does not hold a JSON object. Timestamps are
  arguments. The lock makes one \<^verbatim>\<open>mutate_manifest\<close> one step, so concurrent clients are sequences of
  steps. Strings are ASCII, and the numbers of JSON that are not integers are finite.
\<close>

section \<open>JSON values\<close>

datatype json =
    JNull
  | JBool bool
  | JInt int
  | JFloat rat
  | JStr string
  | JArr "json list"
  | JObj "(string \<times> json) list"

type_synonym json_object = "(string \<times> json) list"

text \<open>\<^verbatim>\<open>d.get(k)\<close>, \<^verbatim>\<open>d.get(k, default)\<close> and \<^verbatim>\<open>d[k] = v\<close>.\<close>

definition obj_get :: "json_object \<Rightarrow> string \<Rightarrow> json" where
  "obj_get d k = (case map_of d k of None \<Rightarrow> JNull | Some v \<Rightarrow> v)"

fun obj_set :: "json_object \<Rightarrow> string \<Rightarrow> json \<Rightarrow> json_object" where
  "obj_set [] k v = [(k, v)]"
| "obj_set ((k', v') # d) k v = (if k' = k then (k, v) # d else (k', v') # obj_set d k v)"

text \<open>\<^verbatim>\<open>isinstance\<close>: a Boolean is an \<^verbatim>\<open>int\<close> in Python.\<close>

fun is_str :: "json \<Rightarrow> bool" where
  "is_str (JStr s) = True" | "is_str _ = False"

fun is_int :: "json \<Rightarrow> bool" where
  "is_int (JInt n) = True" | "is_int (JBool b) = True" | "is_int _ = False"

fun is_bool :: "json \<Rightarrow> bool" where
  "is_bool (JBool b) = True" | "is_bool _ = False"

fun is_dict :: "json \<Rightarrow> bool" where
  "is_dict (JObj d) = True" | "is_dict _ = False"

fun is_list :: "json \<Rightarrow> bool" where
  "is_list (JArr xs) = True" | "is_list _ = False"

definition or_none :: "(json \<Rightarrow> bool) \<Rightarrow> json \<Rightarrow> bool" where
  "or_none p v \<longleftrightarrow> p v \<or> v = JNull"

fun int_of_json :: "json \<Rightarrow> int" where
  "int_of_json (JInt n) = n"
| "int_of_json (JBool b) = (if b then 1 else 0)"
| "int_of_json _ = 0"

fun number_of_json :: "json \<Rightarrow> rat option" where
  "number_of_json (JInt n) = Some (of_int n)"
| "number_of_json (JBool b) = Some (if b then 1 else 0)"
| "number_of_json (JFloat q) = Some q"
| "number_of_json _ = None"

text \<open>Python's \<^verbatim>\<open>==\<close> on decoded values: numbers by value, lists element by element, dictionaries as
  maps.\<close>

lemma size_json_entry:
  "(k, v) \<in> set d \<Longrightarrow> size v < Suc (size_list (size_prod (\<lambda>_. 0) size) d)"
  by (induction d) auto

lemma size_json_item: "(x, y) \<in> set (zip xs ys) \<Longrightarrow> size x < Suc (size_list size xs)"
  by (drule set_zip_leftD) (induction xs, auto)

function py_eq :: "json \<Rightarrow> json \<Rightarrow> bool" where
  "py_eq v w =
     (case number_of_json v of
        Some a \<Rightarrow> number_of_json w = Some a
      | None \<Rightarrow>
          (case (v, w) of
             (JNull, JNull) \<Rightarrow> True
           | (JStr s, JStr t) \<Rightarrow> s = t
           | (JArr xs, JArr ys) \<Rightarrow> length xs = length ys \<and> list_all (\<lambda>(x, y). py_eq x y) (zip xs ys)
           | (JObj d, JObj e) \<Rightarrow> length d = length e \<and>
               list_all (\<lambda>(k, x). case map_of e k of None \<Rightarrow> False | Some y \<Rightarrow> py_eq x y) d
           | _ \<Rightarrow> False))"
  by pat_completeness auto
termination
  by (relation "measure (\<lambda>(v, w). size v)")
    (auto dest: size_json_item size_json_entry)

declare py_eq.simps [simp del]

text \<open>\<^verbatim>\<open>json.dumps(value, sort_keys=True)\<close>, up to the injective rendering of keys, strings and numbers:
  the value with the entries of every dictionary sorted by key.\<close>

fun dumps_sorted :: "json \<Rightarrow> json" where
  "dumps_sorted (JArr xs) = JArr (map dumps_sorted xs)"
| "dumps_sorted (JObj d) = JObj (sort_key fst (map (\<lambda>(k, v). (k, dumps_sorted v)) d))"
| "dumps_sorted v = v"

section \<open>States\<close>

datatype run_state = SUBMITTING | STARTING | ACTIVE | STOPPING | SUCCEEDED | FAILED | STOPPED

fun state_name :: "run_state \<Rightarrow> string" where
  "state_name SUBMITTING = ''SUBMITTING''"
| "state_name STARTING = ''STARTING''"
| "state_name ACTIVE = ''ACTIVE''"
| "state_name STOPPING = ''STOPPING''"
| "state_name SUCCEEDED = ''SUCCEEDED''"
| "state_name FAILED = ''FAILED''"
| "state_name STOPPED = ''STOPPED''"

definition TERMINAL_RUN_STATES :: "run_state list" where
  "TERMINAL_RUN_STATES = [SUCCEEDED, FAILED, STOPPED]"

fun ALLOWED_RUN_STATE_TRANSITIONS :: "run_state \<Rightarrow> run_state list" where
  "ALLOWED_RUN_STATE_TRANSITIONS SUBMITTING = [STARTING, STOPPING, FAILED]"
| "ALLOWED_RUN_STATE_TRANSITIONS STARTING = [ACTIVE, STOPPING, FAILED]"
| "ALLOWED_RUN_STATE_TRANSITIONS ACTIVE = [STOPPING, FAILED]"
| "ALLOWED_RUN_STATE_TRANSITIONS STOPPING = [SUCCEEDED, FAILED, STOPPED]"
| "ALLOWED_RUN_STATE_TRANSITIONS SUCCEEDED = []"
| "ALLOWED_RUN_STATE_TRANSITIONS FAILED = []"
| "ALLOWED_RUN_STATE_TRANSITIONS STOPPED = []"

definition state_named :: "string \<Rightarrow> run_state option" where
  "state_named s = find (\<lambda>st. state_name st = s)
     [SUBMITTING, STARTING, ACTIVE, STOPPING, SUCCEEDED, FAILED, STOPPED]"

text \<open>How far a run has come; every transition moves it forward.\<close>

fun progress :: "run_state \<Rightarrow> nat" where
  "progress SUBMITTING = 0"
| "progress STARTING = 1"
| "progress ACTIVE = 2"
| "progress STOPPING = 3"
| "progress SUCCEEDED = 4"
| "progress FAILED = 5"
| "progress STOPPED = 6"

instantiation run_state :: linorder
begin

definition less_eq_run_state :: "run_state \<Rightarrow> run_state \<Rightarrow> bool" where
  "less_eq_run_state s t \<longleftrightarrow> progress s \<le> progress t"

definition less_run_state :: "run_state \<Rightarrow> run_state \<Rightarrow> bool" where
  "less_run_state s t \<longleftrightarrow> progress s < progress t"

instance
proof
  fix s t u :: run_state
  show "s < t \<longleftrightarrow> s \<le> t \<and> \<not> t \<le> s" by (auto simp: less_eq_run_state_def less_run_state_def)
  show "s \<le> s" by (simp add: less_eq_run_state_def)
  show "s \<le> t \<Longrightarrow> t \<le> u \<Longrightarrow> s \<le> u" by (simp add: less_eq_run_state_def)
  show "s \<le> t \<Longrightarrow> t \<le> s \<Longrightarrow> s = t"
    by (cases s; cases t) (simp_all add: less_eq_run_state_def)
  show "s \<le> t \<or> t \<le> s" by (auto simp: less_eq_run_state_def)
qed

end

section \<open>Reading a manifest\<close>

datatype state_error =
    StateTypeError
  | StateRuntimeError
  | StateValueError
  | StateKeyError
  | StateOSError
  | ManifestRevisionConflictError int int

type_synonym 'a state_res = "state_error + 'a"

definition MANIFEST_SCHEMA_VERSION :: int where "MANIFEST_SCHEMA_VERSION = 1"
definition MANIFEST_REVISION_CONFLICT_EXIT_CODE :: int where "MANIFEST_REVISION_CONFLICT_EXIT_CODE = 74"

definition run_state_of :: "json_object \<Rightarrow> run_state state_res" where
  "run_state_of manifest =
     (case obj_get manifest ''state'' of
        JStr s \<Rightarrow> (case state_named s of None \<Rightarrow> Inl StateTypeError | Some st \<Rightarrow> Inr st)
      | _ \<Rightarrow> Inl StateTypeError)"

definition transition_run_state :: "json_object \<Rightarrow> run_state \<Rightarrow> (bool \<times> json_object) state_res" where
  "transition_run_state manifest target =
     rbind (run_state_of manifest) (\<lambda>current.
     if current = target \<or> current \<in> set TERMINAL_RUN_STATES then Inr (False, manifest)
     else if target \<notin> set (ALLOWED_RUN_STATE_TRANSITIONS current) then Inl StateRuntimeError
     else Inr (True, obj_set manifest ''state'' (JStr (state_name target))))"

definition expected_terminal_state :: "json_object \<Rightarrow> run_state option state_res" where
  "expected_terminal_state manifest =
     rbind (run_state_of manifest) (\<lambda>current.
     if current \<in> set TERMINAL_RUN_STATES then Inr (Some current)
     else if current \<noteq> STOPPING then Inr None
     else if obj_get manifest ''stop_requested'' = JBool True then Inr (Some STOPPED)
     else if is_str (obj_get manifest ''error'') then Inr (Some FAILED)
     else
       let pipeline_exit_status = obj_get manifest ''pipeline_exit_status'' in
       if \<not> is_int pipeline_exit_status \<or> is_bool pipeline_exit_status then Inr None
       else if int_of_json pipeline_exit_status = 0 then Inr (Some SUCCEEDED)
       else Inr (Some FAILED))"

definition required_types :: "(string \<times> (json \<Rightarrow> bool)) list" where
  "required_types =
     [(''run_id'', is_str), (''job_name'', is_str), (''slurm_cluster_name'', is_str), (''state'', is_str),
      (''revision'', is_int), (''lane_allocations'', is_int), (''runtime_paths'', is_dict),
      (''lanes'', is_list), (''head_job_id'', or_none is_str), (''pipeline_exit_status'', or_none is_int),
      (''error'', or_none is_str)]"

definition nonempty_str :: "json \<Rightarrow> bool" where
  "nonempty_str v \<longleftrightarrow> is_str v \<and> v \<noteq> JStr []"

fun dict_of :: "json \<Rightarrow> json_object" where
  "dict_of (JObj d) = d" | "dict_of _ = []"

fun list_of :: "json \<Rightarrow> json list" where
  "list_of (JArr xs) = xs" | "list_of _ = []"

fun string_of :: "json \<Rightarrow> string" where
  "string_of (JStr s) = s" | "string_of _ = []"

definition valid_lane :: "json \<Rightarrow> bool" where
  "valid_lane lane \<longleftrightarrow>
     is_dict lane \<and> is_int (obj_get (dict_of lane) ''lane'') \<and> nonempty_str (obj_get (dict_of lane) ''job_id'')"

text \<open>The checks in order; every one that fails raises \<^verbatim>\<open>TypeError\<close>.\<close>

definition validate_manifest :: "json_object \<Rightarrow> json_object state_res" where
  "validate_manifest m =
     (let schema_version = obj_get m ''schema_version'' in
      rbind (rguard (is_int schema_version \<and> \<not> is_bool schema_version \<and>
                     int_of_json schema_version = MANIFEST_SCHEMA_VERSION) StateTypeError) (\<lambda>_.
      rbind (rguard (list_all (\<lambda>(field, expected). expected (obj_get m field)) required_types)
               StateTypeError) (\<lambda>_.
      rbind (rguard (obj_get m ''slurm_cluster_name'' \<noteq> JStr []) StateTypeError) (\<lambda>_.
      rbind (run_state_of m) (\<lambda>_.
      rbind (rguard (nonempty_str (obj_get (dict_of (obj_get m ''runtime_paths'')) ''run_dir''))
               StateTypeError) (\<lambda>_.
      rbind (rguard (list_all valid_lane (list_of (obj_get m ''lanes''))) StateTypeError) (\<lambda>_.
      Inr m)))))))"

text \<open>The file: \<open>None\<close> where \<^verbatim>\<open>read_json\<close> raises.\<close>

definition read_manifest :: "json_object option \<Rightarrow> json_object state_res" where
  "read_manifest disk = (case disk of None \<Rightarrow> Inl StateOSError | Some m \<Rightarrow> validate_manifest m)"

definition manifest_lane_job_ids :: "json_object option \<Rightarrow> string list" where
  "manifest_lane_job_ids disk =
     (case disk of
        None \<Rightarrow> []
      | Some m \<Rightarrow>
          (let lanes = (case map_of m ''lanes'' of None \<Rightarrow> JArr [] | Some v \<Rightarrow> v) in
           map (\<lambda>lane. string_of (obj_get (dict_of lane) ''job_id''))
             (filter (\<lambda>lane. is_dict lane \<and> is_str (obj_get (dict_of lane) ''job_id'')) (list_of lanes))))"

section \<open>Mutations\<close>

definition required_string :: "json_object \<Rightarrow> string \<Rightarrow> json state_res" where
  "required_string d field =
     (if nonempty_str (obj_get d field) then Inr (obj_get d field) else Inl StateTypeError)"

definition required_int :: "json_object \<Rightarrow> string \<Rightarrow> json state_res" where
  "required_int d field =
     (if is_int (obj_get d field) \<and> \<not> is_bool (obj_get d field) then Inr (obj_get d field)
      else Inl StateTypeError)"

text \<open>Each mutator takes the decoded manifest, the mutation and the time \<^verbatim>\<open>utc_now()\<close> would return.\<close>

type_synonym mutator = "json_object \<Rightarrow> json_object \<Rightarrow> string \<Rightarrow> json_object state_res"

definition move_to :: "run_state \<Rightarrow> json_object \<Rightarrow> json_object state_res" where
  "move_to target manifest = rbind (transition_run_state manifest target) (\<lambda>(_, m). Inr m)"

definition record_head :: mutator where
  "record_head manifest mutation now =
     rbind (required_string mutation ''job_id'') (\<lambda>job_id.
     let current = obj_get manifest ''head_job_id'' in
     if current \<noteq> JNull \<and> \<not> py_eq current job_id then Inl StateRuntimeError
     else Inr (obj_set manifest ''head_job_id'' job_id))"

text \<open>The loop of \<^verbatim>\<open>_append_lane\<close> over the recorded lanes: whether the lane is already recorded.\<close>

fun lane_recorded :: "json_object \<Rightarrow> json list \<Rightarrow> bool state_res" where
  "lane_recorded lane [] = Inr False"
| "lane_recorded lane (current # lanes) =
     (if py_eq (obj_get (dict_of current) ''lane'') (obj_get lane ''lane'') \<or>
         py_eq (obj_get (dict_of current) ''job_id'') (obj_get lane ''job_id'')
      then if py_eq current (JObj lane) then Inr True else Inl StateRuntimeError
      else lane_recorded lane lanes)"

definition append_lane :: mutator where
  "append_lane manifest mutation now =
     rbind (run_state_of manifest) (\<lambda>state.
     if state = STOPPING \<or> state \<in> set TERMINAL_RUN_STATES then Inl StateRuntimeError
     else case obj_get mutation ''lane'' of
       JObj lane \<Rightarrow>
         (case map_of manifest ''lanes'' of
            None \<Rightarrow> Inl StateKeyError
          | Some lanes \<Rightarrow>
              rbind (lane_recorded lane (list_of lanes)) (\<lambda>found.
              if found then Inr manifest
              else Inr (obj_set manifest ''lanes'' (JArr (list_of lanes @ [JObj lane])))))
     | _ \<Rightarrow> Inl StateTypeError)"

definition finish_submission :: mutator where
  "finish_submission manifest mutation now =
     rbind (run_state_of manifest) (\<lambda>state.
     if state = SUBMITTING then move_to STARTING manifest else Inr manifest)"

definition request_stop :: mutator where
  "request_stop manifest mutation now =
     rbind (run_state_of manifest) (\<lambda>state.
     if state \<in> set TERMINAL_RUN_STATES then Inr manifest
     else rbind (move_to STOPPING manifest) (\<lambda>m. Inr (obj_set m ''stop_requested'' (JBool True))))"

definition activate :: mutator where
  "activate manifest mutation now =
     rbind (run_state_of manifest) (\<lambda>state.
     if state \<noteq> STARTING then Inr manifest
     else rbind (move_to ACTIVE manifest) (\<lambda>m. Inr (obj_set m ''started_at'' (JStr now))))"

definition record_driver_exit :: mutator where
  "record_driver_exit manifest mutation now =
     rbind (run_state_of manifest) (\<lambda>state.
     if state \<in> set TERMINAL_RUN_STATES then Inr manifest
     else rbind (required_int mutation ''exit_status'') (\<lambda>status.
          move_to STOPPING (obj_set manifest ''pipeline_exit_status'' status)))"

definition begin_teardown :: mutator where
  "begin_teardown manifest mutation now =
     rbind (run_state_of manifest) (\<lambda>state.
     if state \<in> set TERMINAL_RUN_STATES \<or> state = STOPPING then Inr manifest
     else rbind (required_string mutation ''error'') (\<lambda>err.
          move_to STOPPING (obj_set manifest ''error'' err)))"

definition record_failure :: mutator where
  "record_failure manifest mutation now =
     rbind (run_state_of manifest) (\<lambda>state.
     if state \<in> set TERMINAL_RUN_STATES then Inr manifest
     else
       rbind (if map_of mutation ''exit_status'' \<noteq> None
              then rbind (required_int mutation ''exit_status'') (\<lambda>status.
                   Inr (obj_set manifest ''pipeline_exit_status'' status))
              else Inr manifest) (\<lambda>m.
       rbind (required_string mutation ''error'') (\<lambda>err.
       move_to STOPPING (obj_set m ''error'' err))))"

definition finalize :: mutator where
  "finalize manifest mutation now =
     rbind (run_state_of manifest) (\<lambda>state.
     if state \<in> set TERMINAL_RUN_STATES then Inr manifest
     else
       rbind (expected_terminal_state manifest) (\<lambda>expected.
       rbind (case expected of
                Some target \<Rightarrow> Inr (target, manifest)
              | None \<Rightarrow>
                  let fallback_error = obj_get mutation ''fallback_error'' in
                  if \<not> nonempty_str fallback_error then Inl StateRuntimeError
                  else Inr (FAILED, obj_set manifest ''error'' fallback_error)) (\<lambda>(target, m).
       rbind (transition_run_state m target) (\<lambda>(moved, m').
       if moved \<and> target = STOPPED then Inr (obj_set m' ''stopped_at'' (JStr now)) else Inr m'))))"

definition MANIFEST_MUTATORS :: "(string \<times> mutator) list" where
  "MANIFEST_MUTATORS =
     [(''record-head'', record_head), (''append-lane'', append_lane),
      (''finish-submission'', finish_submission), (''request-stop'', request_stop),
      (''activate'', activate), (''record-driver-exit'', record_driver_exit),
      (''begin-teardown'', begin_teardown), (''record-failure'', record_failure),
      (''finalize'', finalize)]"

definition apply_manifest_mutation :: mutator where
  "apply_manifest_mutation manifest mutation now =
     (case obj_get mutation ''operation'' of
        JStr operation \<Rightarrow>
          (case map_of MANIFEST_MUTATORS operation of
             None \<Rightarrow> Inl StateValueError
           | Some f \<Rightarrow> f manifest mutation now)
      | _ \<Rightarrow> Inl StateValueError)"

text \<open>One call of \<^verbatim>\<open>mutate_manifest\<close> under the lock: the result and the file after it. \<open>now\<close> and \<open>now'\<close> are
  the two readings of the clock.\<close>

definition mutate_manifest ::
  "json_object \<Rightarrow> string \<Rightarrow> int option \<Rightarrow> string \<Rightarrow> string \<Rightarrow>
   (json_object option, state_error, json_object) stm" where
  "mutate_manifest mutation run_id expected_revision now now' disk =
     (case rbind (case disk of None \<Rightarrow> Inl StateOSError | Some m \<Rightarrow> Inr m) (\<lambda>manifest.
           rbind (validate_manifest manifest) (\<lambda>_.
           rbind (rguard (obj_get manifest ''run_id'' = JStr run_id) StateRuntimeError) (\<lambda>_.
           let revision = int_of_json (obj_get manifest ''revision'') in
           rbind (case expected_revision of
                    None \<Rightarrow> Inr ()
                  | Some expected \<Rightarrow>
                      rguard (revision = expected) (ManifestRevisionConflictError expected revision)) (\<lambda>_.
           rbind (apply_manifest_mutation manifest mutation now) (\<lambda>m.
           if dumps_sorted (JObj m) = dumps_sorted (JObj manifest)
           then rbind (validate_manifest m) (\<lambda>v. Inr (v, disk))
           else
             let m' = obj_set (obj_set m ''revision'' (JInt (int_of_json (obj_get m ''revision'') + 1)))
                        ''updated_at'' (JStr now')
             in rbind (validate_manifest m') (\<lambda>v. Inr (v, Some m'))))))) of
        Inl e \<Rightarrow> (Inl e, disk)
      | Inr (v, disk') \<Rightarrow> (Inr v, disk'))"

text \<open>\<^verbatim>\<open>main\<close>: the exit status, and what it prints on standard output.\<close>

datatype main_output = PrintedManifest json_object | PrintedRevision int | PrintedNothing

definition state_main :: "json_object \<Rightarrow> string \<Rightarrow> int option \<Rightarrow> string \<Rightarrow> string \<Rightarrow>
  json_object option \<Rightarrow> (int \<times> main_output) \<times> json_object option" where
  "state_main mutation run_id expected_revision now now' disk =
     (case mutate_manifest mutation run_id expected_revision now now' disk of
        (Inr m, disk') \<Rightarrow> ((0, PrintedManifest m), disk')
      | (Inl (ManifestRevisionConflictError expected actual), disk') \<Rightarrow>
          ((MANIFEST_REVISION_CONFLICT_EXIT_CODE, PrintedRevision actual), disk')
      | (Inl _, disk') \<Rightarrow> ((1, PrintedNothing), disk'))"

section \<open>Dictionaries and states\<close>

lemma map_of_obj_set: "map_of (obj_set d k v) = (map_of d)(k \<mapsto> v)"
  by (induction d k v rule: obj_set.induct) (auto simp: fun_eq_iff)

lemma obj_get_set [simp]: "obj_get (obj_set d k v) k' = (if k' = k then v else obj_get d k')"
  by (simp add: obj_get_def map_of_obj_set)

lemma state_named_name [simp]: "state_named (state_name s) = Some s"
  by (cases s) (simp_all add: state_named_def)

lemma state_named_eq_Some: "state_named t = Some s \<longleftrightarrow> t = state_name s"
proof
  show "state_named t = Some s \<Longrightarrow> t = state_name s"
    by (auto simp: state_named_def find_Some_iff simp del: find.simps)
qed simp

lemma run_state_of_set [simp]:
  "run_state_of (obj_set m k v) =
     (if k = ''state'' then (case v of JStr s \<Rightarrow> (case state_named s of None \<Rightarrow> Inl StateTypeError | Some st \<Rightarrow> Inr st)
        | _ \<Rightarrow> Inl StateTypeError) else run_state_of m)"
  by (simp add: run_state_of_def)

lemma terminal_states [simp]: "set TERMINAL_RUN_STATES = {SUCCEEDED, FAILED, STOPPED}"
  by (simp add: TERMINAL_RUN_STATES_def)

lemmas run_state_order = less_eq_run_state_def less_run_state_def

lemma terminal_iff_after_stopping: "s \<in> {SUCCEEDED, FAILED, STOPPED} \<longleftrightarrow> STOPPING < s"
  by (cases s) (simp_all add: run_state_order)

lemma not_terminal_iff: "s \<notin> {SUCCEEDED, FAILED, STOPPED} \<longleftrightarrow> s \<le> STOPPING"
  by (cases s) (simp_all add: run_state_order)

lemma move_to_eq:
  assumes "run_state_of m = Inr s"
  shows "move_to t m =
     (if s = t \<or> STOPPING < s then Inr m
      else if t \<in> set (ALLOWED_RUN_STATE_TRANSITIONS s) then Inr (obj_set m ''state'' (JStr (state_name t)))
      else Inl StateRuntimeError)"
  using assms terminal_iff_after_stopping [of s] by (simp add: move_to_def transition_run_state_def)

lemma stopping_allowed: "s < STOPPING \<Longrightarrow> STOPPING \<in> set (ALLOWED_RUN_STATE_TRANSITIONS s)"
  by (cases s) (simp_all add: run_state_order)

lemma move_to_stopping:
  "run_state_of m = Inr s \<Longrightarrow> s \<le> STOPPING \<Longrightarrow>
   move_to STOPPING m = Inr (if s = STOPPING then m else obj_set m ''state'' (JStr ''STOPPING''))"
  using stopping_allowed [of s] by (auto simp: move_to_eq not_less)

section \<open>The abstract run\<close>

text \<open>What the state machine is about: the state, whether a stop was requested, the driver's exit status
  and whether an error is recorded, the head job and the lanes.\<close>

record run_view =
  rv_state :: run_state
  rv_stop :: bool
  rv_exit :: "int option"
  rv_error :: bool
  rv_head :: "string option"
  rv_lanes :: "json list"

definition outcome :: "run_view \<Rightarrow> run_state option" where
  "outcome r =
     (if rv_stop r then Some STOPPED
      else if rv_error r then Some FAILED
      else case rv_exit r of None \<Rightarrow> None | Some n \<Rightarrow> Some (if n = 0 then SUCCEEDED else FAILED))"

text \<open>The life of a run: each rule is one thing that can happen to it.\<close>

inductive run_step :: "run_view \<Rightarrow> run_view \<Rightarrow> bool" where
  idle: "run_step r r"
| head: "rv_head r = None \<Longrightarrow> run_step r (r\<lparr>rv_head := Some job_id\<rparr>)"
| lane: "rv_state r < STOPPING \<Longrightarrow> lane_recorded lane (rv_lanes r) = Inr False \<Longrightarrow>
    run_step r (r\<lparr>rv_lanes := rv_lanes r @ [JObj lane]\<rparr>)"
| submitted: "rv_state r = SUBMITTING \<Longrightarrow> run_step r (r\<lparr>rv_state := STARTING\<rparr>)"
| activated: "rv_state r = STARTING \<Longrightarrow> run_step r (r\<lparr>rv_state := ACTIVE\<rparr>)"
| stop: "rv_state r \<le> STOPPING \<Longrightarrow> run_step r (r\<lparr>rv_state := STOPPING, rv_stop := True\<rparr>)"
| exited: "rv_state r \<le> STOPPING \<Longrightarrow> run_step r (r\<lparr>rv_state := STOPPING, rv_exit := Some n\<rparr>)"
| failed: "rv_state r \<le> STOPPING \<Longrightarrow> ex = rv_exit r \<or> ex = Some n \<Longrightarrow>
    run_step r (r\<lparr>rv_state := STOPPING, rv_exit := ex, rv_error := True\<rparr>)"
| finished: "rv_state r = STOPPING \<Longrightarrow> outcome r = Some t \<Longrightarrow> run_step r (r\<lparr>rv_state := t\<rparr>)"
| abandoned: "rv_state r < STOPPING \<or> rv_state r = STOPPING \<and> outcome r = None \<Longrightarrow>
    run_step r (r\<lparr>rv_state := FAILED, rv_error := True\<rparr>)"

inductive_cases run_stepE: "run_step r r'"

text \<open>The run a manifest stands for.\<close>

definition view_of :: "json_object \<Rightarrow> run_view" where
  "view_of m =
     \<lparr>rv_state = (case run_state_of m of Inl _ \<Rightarrow> FAILED | Inr s \<Rightarrow> s),
      rv_stop = (obj_get m ''stop_requested'' = JBool True),
      rv_exit = (case obj_get m ''pipeline_exit_status'' of JInt n \<Rightarrow> Some n | _ \<Rightarrow> None),
      rv_error = is_str (obj_get m ''error''),
      rv_head = (case obj_get m ''head_job_id'' of JStr s \<Rightarrow> Some s | _ \<Rightarrow> None),
      rv_lanes = list_of (obj_get m ''lanes'')\<rparr>"

lemma view_of_simps:
  "rv_state (view_of m) = (case run_state_of m of Inl _ \<Rightarrow> FAILED | Inr s \<Rightarrow> s)"
  "rv_stop (view_of m) \<longleftrightarrow> obj_get m ''stop_requested'' = JBool True"
  "rv_exit (view_of m) = (case obj_get m ''pipeline_exit_status'' of JInt n \<Rightarrow> Some n | _ \<Rightarrow> None)"
  "rv_error (view_of m) \<longleftrightarrow> is_str (obj_get m ''error'')"
  "rv_head (view_of m) = (case obj_get m ''head_job_id'' of JStr s \<Rightarrow> Some s | _ \<Rightarrow> None)"
  "rv_lanes (view_of m) = list_of (obj_get m ''lanes'')"
  by (simp_all add: view_of_def)

lemma valid_manifestD:
  assumes "validate_manifest m = Inr v"
  shows "v = m" "\<exists>s. run_state_of m = Inr s" "obj_get m ''head_job_id'' = JNull \<or> is_str (obj_get m ''head_job_id'')"
    "is_list (obj_get m ''lanes'')" "is_str (obj_get m ''run_id'')" "is_int (obj_get m ''revision'')"
    "\<forall>lane \<in> set (list_of (obj_get m ''lanes'')). valid_lane lane"
  using assms
  by (auto simp: validate_manifest_def Let_def result_simps required_types_def or_none_def list_all_iff)

lemma expected_terminal_eq:
  "run_state_of m = Inr s \<Longrightarrow> s \<le> STOPPING \<Longrightarrow>
   expected_terminal_state m = Inr (if s = STOPPING then outcome (view_of m) else None)"
  using not_terminal_iff [of s]
  by (cases "obj_get m ''pipeline_exit_status''")
    (auto simp: expected_terminal_state_def outcome_def view_of_simps Let_def)

lemmas mutator_defs =
  record_head_def append_lane_def finish_submission_def request_stop_def activate_def
  record_driver_exit_def begin_teardown_def record_failure_def finalize_def

lemma required_string_eq: "required_string d f = Inr v \<longleftrightarrow> v = obj_get d f \<and> (\<exists>s. v = JStr s \<and> s \<noteq> [])"
  by (cases "obj_get d f") (auto simp: required_string_def nonempty_str_def)

lemma required_int_eq: "required_int d f = Inr v \<longleftrightarrow> v = obj_get d f \<and> (\<exists>n. v = JInt n)"
  by (cases "obj_get d f") (auto simp: required_int_def)

lemma py_eq_str [simp]: "py_eq (JStr s) (JStr t) \<longleftrightarrow> s = t"
  by (simp add: py_eq.simps)

section \<open>Every mutation is a step of the run\<close>

lemma view_of_set:
  "view_of (obj_set m ''state'' (JStr (state_name s))) = (view_of m)\<lparr>rv_state := s\<rparr>"
  "view_of (obj_set m ''stop_requested'' (JBool True)) = (view_of m)\<lparr>rv_stop := True\<rparr>"
  "view_of (obj_set m ''pipeline_exit_status'' (JInt n)) = (view_of m)\<lparr>rv_exit := Some n\<rparr>"
  "view_of (obj_set m ''error'' (JStr e)) = (view_of m)\<lparr>rv_error := True\<rparr>"
  "view_of (obj_set m ''head_job_id'' (JStr j)) = (view_of m)\<lparr>rv_head := Some j\<rparr>"
  "view_of (obj_set m ''lanes'' (JArr xs)) = (view_of m)\<lparr>rv_lanes := xs\<rparr>"
  by (simp_all add: view_of_def)

lemma view_of_other:
  "k \<notin> {''state'', ''stop_requested'', ''pipeline_exit_status'', ''error'', ''head_job_id'', ''lanes''} \<Longrightarrow>
   view_of (obj_set m k v) = view_of m"
  by (auto simp: view_of_def)

lemma view_update_same:
  "rv_state r = s \<Longrightarrow> r\<lparr>rv_state := s\<rparr> = r"
  "rv_head r = h \<Longrightarrow> r\<lparr>rv_head := h\<rparr> = r"
  by simp_all

lemma view_move_to_stopping:
  assumes "run_state_of m = Inr s" "s \<le> STOPPING" "move_to STOPPING m = Inr m'"
  shows "view_of m' = (view_of m)\<lparr>rv_state := STOPPING\<rparr>"
  using assms view_of_set(1) [of m STOPPING] by (auto simp: move_to_stopping view_of_simps split: if_splits)

lemma mutator_step:
  assumes valid: "validate_manifest m = Inr v" and f: "f \<in> snd ` set MANIFEST_MUTATORS"
    and step: "f m mutation now = Inr m'"
  shows "run_step (view_of m) (view_of m')"
proof -
  obtain s where s: "run_state_of m = Inr s" using valid_manifestD(2) [OF valid] by blast
  then have st: "rv_state (view_of m) = s" by (simp add: view_of_simps)
  note head = valid_manifestD(3) [OF valid]
  from f consider "f = record_head" | "f = append_lane" | "f = finish_submission" | "f = request_stop"
    | "f = activate" | "f = record_driver_exit" | "f = begin_teardown" | "f = record_failure" | "f = finalize"
    by (auto simp: MANIFEST_MUTATORS_def)
  then show ?thesis
  proof cases
    case 1
    with step obtain j where j: "required_string mutation ''job_id'' = Inr (JStr j)"
      "obj_get m ''head_job_id'' = JNull \<or> py_eq (obj_get m ''head_job_id'') (JStr j)"
      "m' = obj_set m ''head_job_id'' (JStr j)"
      by (auto simp: record_head_def result_simps Let_def required_string_eq split: if_splits)
    show ?thesis
    proof (cases "obj_get m ''head_job_id''")
      case (JStr i)
      with j have "i = j" by simp
      with JStr have "rv_head (view_of m) = Some j" by (simp add: view_of_simps)
      then have "view_of m' = view_of m" using j(3) by (simp add: view_of_set)
      then show ?thesis by (simp add: run_step.idle)
    next
      case JNull
      then have "rv_head (view_of m) = None" by (simp add: view_of_simps)
      then show ?thesis using j(3) by (simp add: view_of_set run_step.head)
    qed (use head in auto)
  next
    case 2
    with step s have le: "s < STOPPING" using not_terminal_iff [of s]
      by (auto simp: append_lane_def split: if_splits)
    with 2 step s obtain lane lanes found where l: "obj_get mutation ''lane'' = JObj lane"
      "map_of m ''lanes'' = Some lanes" "lane_recorded lane (list_of lanes) = Inr found"
      "m' = (if found then m else obj_set m ''lanes'' (JArr (list_of lanes @ [JObj lane])))"
      by (auto simp: append_lane_def result_simps split: if_splits json.splits option.splits)
    have "rv_lanes (view_of m) = list_of lanes" using l(2) by (simp add: view_of_simps obj_get_def)
    with l le st run_step.lane [of "view_of m" lane] show ?thesis
      by (cases found) (simp_all add: run_step.idle view_of_set)
  next
    case 3
    with step s st show ?thesis
      by (auto simp: finish_submission_def move_to_eq view_of_set [unfolded state_name.simps]
          view_of_set(1) [of _ STARTING, simplified] run_state_order intro: run_step.idle run_step.submitted
          split: if_splits)
  next
    case 4
    show ?thesis
    proof (cases "s \<le> STOPPING")
      case True
      with 4 step s obtain m1 where m1: "move_to STOPPING m = Inr m1" "m' = obj_set m1 ''stop_requested'' (JBool True)"
        using not_terminal_iff [of s] by (auto simp: request_stop_def result_simps)
      then have "view_of m' = (view_of m)\<lparr>rv_state := STOPPING, rv_stop := True\<rparr>"
        using view_move_to_stopping [OF s True] by (simp add: view_of_set)
      with run_step.stop [of "view_of m"] True st show ?thesis by simp
    next
      case False
      with 4 step s have "m' = m" using not_terminal_iff [of s] by (auto simp: request_stop_def)
      then show ?thesis by (simp add: run_step.idle)
    qed
  next
    case 5
    show ?thesis
    proof (cases "s = STARTING")
      case True
      with 5 step s have "m' = obj_set (obj_set m ''state'' (JStr (state_name ACTIVE))) ''started_at'' (JStr now)"
        by (simp add: activate_def move_to_eq run_state_order)
      then have "view_of m' = (view_of m)\<lparr>rv_state := ACTIVE\<rparr>"
        using view_of_set(1) [of m ACTIVE] by (simp add: view_of_other)
      with run_step.activated [of "view_of m"] True st show ?thesis by simp
    next
      case False
      with 5 step s show ?thesis by (simp add: activate_def run_step.idle)
    qed
  next
    case 6
    show ?thesis
    proof (cases "s \<le> STOPPING")
      case True
      with 6 step s obtain n where n: "move_to STOPPING (obj_set m ''pipeline_exit_status'' (JInt n)) = Inr m'"
        using not_terminal_iff [of s] by (auto simp: record_driver_exit_def result_simps required_int_eq)
      have "view_of m' = (view_of m)\<lparr>rv_state := STOPPING, rv_exit := Some n\<rparr>"
        using view_move_to_stopping [OF _ True n] s by (simp add: view_of_set)
      with run_step.exited [of "view_of m" n] True st show ?thesis by simp
    next
      case False
      with 6 step s have "m' = m" using not_terminal_iff [of s] by (auto simp: record_driver_exit_def)
      then show ?thesis by (simp add: run_step.idle)
    qed
  next
    case 7
    show ?thesis
    proof (cases "s < STOPPING")
      case True
      with 7 step s obtain e where e: "move_to STOPPING (obj_set m ''error'' (JStr e)) = Inr m'"
        using not_terminal_iff [of s]
        by (auto simp: begin_teardown_def result_simps required_string_eq split: if_splits)
      have "view_of m' = (view_of m)\<lparr>rv_state := STOPPING, rv_exit := rv_exit (view_of m), rv_error := True\<rparr>"
        using view_move_to_stopping [OF _ _ e, of s] s True by (simp add: view_of_set)
      with run_step.failed [of "view_of m" "rv_exit (view_of m)"] True st show ?thesis by simp
    next
      case False
      with 7 step s have "m' = m" using not_terminal_iff [of s] by (auto simp: begin_teardown_def)
      then show ?thesis by (simp add: run_step.idle)
    qed
  next
    case 8
    show ?thesis
    proof (cases "s \<le> STOPPING")
      case True
      with 8 step s obtain m1 e where m1: "move_to STOPPING (obj_set m1 ''error'' (JStr e)) = Inr m'"
        "m1 = m \<or> (\<exists>n. m1 = obj_set m ''pipeline_exit_status'' (JInt n))"
        using not_terminal_iff [of s]
        by (auto simp: record_failure_def result_simps required_int_eq required_string_eq split: if_splits; blast)
      from m1(2) s have "run_state_of (obj_set m1 ''error'' (JStr e)) = Inr s" by auto
      from view_move_to_stopping [OF this True m1(1)]
      have v': "view_of m' = (view_of m1)\<lparr>rv_state := STOPPING, rv_error := True\<rparr>" by (simp add: view_of_set)
      have "view_of m1 = (view_of m)\<lparr>rv_exit := rv_exit (view_of m1)\<rparr> \<and>
          (rv_exit (view_of m1) = rv_exit (view_of m) \<or> (\<exists>n. rv_exit (view_of m1) = Some n))"
        using m1(2) by (auto simp: view_of_set)
      then obtain ex n where ex: "ex = rv_exit (view_of m) \<or> ex = Some n" "view_of m1 = (view_of m)\<lparr>rv_exit := ex\<rparr>"
        by blast
      with v' have "view_of m' = (view_of m)\<lparr>rv_state := STOPPING, rv_exit := ex, rv_error := True\<rparr>" by simp
      with run_step.failed [of "view_of m" ex n] True st ex(1) show ?thesis by simp
    next
      case False
      with 8 step s have "m' = m" using not_terminal_iff [of s] by (auto simp: record_failure_def)
      then show ?thesis by (simp add: run_step.idle)
    qed
  next
    case 9
    show ?thesis
    proof (cases "s \<le> STOPPING")
      case True
      let ?expected = "if s = STOPPING then outcome (view_of m) else None"
      from 9 step s True obtain target m1 where t: "(case ?expected of
                Some target \<Rightarrow> Inr (target, m)
              | None \<Rightarrow>
                  let fallback_error = obj_get mutation ''fallback_error'' in
                  if \<not> nonempty_str fallback_error then Inl StateRuntimeError
                  else Inr (FAILED, obj_set m ''error'' fallback_error)) = Inr (target, m1)"
          and m': "rbind (transition_run_state m1 target) (\<lambda>(moved, m').
             if moved \<and> target = STOPPED then Inr (obj_set m' ''stopped_at'' (JStr now)) else Inr m') = Inr m'"
        using not_terminal_iff [of s] expected_terminal_eq [OF s True]
        by (auto simp: finalize_def result_simps)
      have s1: "run_state_of m1 = Inr s"
        using t s by (auto simp: Let_def split: option.splits if_splits)
      have end_t: "target \<in> {SUCCEEDED, FAILED, STOPPED}"
        using t by (auto simp: Let_def outcome_def split: option.splits if_splits)
      have "transition_run_state m1 target = Inr (True, obj_set m1 ''state'' (JStr (state_name target)))"
      proof -
        have "\<exists>q. transition_run_state m1 target = Inr q" using m' by (auto simp: result_simps)
        then show ?thesis using s1 not_terminal_iff [of s] True end_t
          by (auto simp: transition_run_state_def split: if_splits)
      qed
      with m' have v': "view_of m' = (view_of m1)\<lparr>rv_state := target\<rparr>"
        by (auto simp: view_of_set view_of_other simp del: state_name.simps split: if_splits)
      show ?thesis
      proof (cases ?expected)
        case (Some t')
        with t have "target = t'" "m1 = m" by auto
        moreover have "s = STOPPING" "outcome (view_of m) = Some t'" using Some by (auto split: if_splits)
        ultimately show ?thesis using v' st run_step.finished [of "view_of m" t'] by simp
      next
        case None
        with t obtain e where "target = FAILED" "m1 = obj_set m ''error'' (JStr e)"
          by (cases "obj_get mutation ''fallback_error''") (auto simp: Let_def nonempty_str_def split: if_splits)
        moreover have "rv_state (view_of m) < STOPPING \<or> rv_state (view_of m) = STOPPING \<and> outcome (view_of m) = None"
          using None True st by (auto split: if_splits)
        moreover from calculation(1,2) v' have "view_of m' = (view_of m)\<lparr>rv_state := FAILED, rv_error := True\<rparr>"
          by (simp add: view_of_set)
        ultimately show ?thesis using run_step.abandoned [of "view_of m"] by simp
      qed
    next
      case False
      with 9 step s have "m' = m" using not_terminal_iff [of s] by (auto simp: finalize_def)
      then show ?thesis by (simp add: run_step.idle)
    qed
  qed
qed

section \<open>One call of mutate_manifest\<close>

lemma mutator_frame:
  assumes "f \<in> snd ` set MANIFEST_MUTATORS" "f m mutation now = Inr m'"
    and "k \<in> {''run_id'', ''revision'', ''schema_version'', ''lane_allocations''}"
  shows "obj_get m' k = obj_get m k"
proof -
  have move: "obj_get m2 k = obj_get m1 k" if "move_to t m1 = Inr m2" for t m1 m2
    using that assms(3) by (auto simp: move_to_def transition_run_state_def result_simps split: if_splits)
  have trans: "obj_get m2 k = obj_get m1 k" if "transition_run_state m1 t = Inr (b, m2)" for t b m1 m2
    using that assms(3) by (auto simp: transition_run_state_def result_simps split: if_splits)
  from assms(1) consider "f = record_head" | "f = append_lane" | "f = finish_submission" | "f = request_stop"
    | "f = activate" | "f = record_driver_exit" | "f = begin_teardown" | "f = record_failure" | "f = finalize"
    by (auto simp: MANIFEST_MUTATORS_def)
  then show ?thesis
    using assms(2,3)
    by cases (auto simp: mutator_defs result_simps Let_def dest!: move trans
        split: if_splits json.splits option.splits)
qed

lemma mutate_manifest_Inr:
  assumes "mutate_manifest mutation run_id expected now now' (Some m) = (Inr v, disk')"
  obtains m1 where "validate_manifest m = Inr m" "obj_get m ''run_id'' = JStr run_id"
    "expected = None \<or> expected = Some (int_of_json (obj_get m ''revision''))"
    "apply_manifest_mutation m mutation now = Inr m1"
    "dumps_sorted (JObj m1) = dumps_sorted (JObj m) \<and> disk' = Some m \<or>
     dumps_sorted (JObj m1) \<noteq> dumps_sorted (JObj m) \<and> disk' = Some v \<and> validate_manifest v = Inr v \<and>
     v = obj_set (obj_set m1 ''revision'' (JInt (int_of_json (obj_get m1 ''revision'') + 1)))
           ''updated_at'' (JStr now')"
  using assms valid_manifestD(1) [of m]
  by (auto simp: mutate_manifest_def Let_def result_simps dest: valid_manifestD(1)
      split: sum.splits if_splits option.splits)

lemma apply_mutation_step:
  assumes "validate_manifest m = Inr v" "apply_manifest_mutation m mutation now = Inr m1"
  shows "run_step (view_of m) (view_of m1) \<and> obj_get m1 ''revision'' = obj_get m ''revision'' \<and>
    obj_get m1 ''run_id'' = obj_get m ''run_id''"
proof -
  from assms(2) obtain operation f where "map_of MANIFEST_MUTATORS operation = Some f" "f m mutation now = Inr m1"
    by (auto simp: apply_manifest_mutation_def split: json.splits option.splits)
  then have "f \<in> snd ` set MANIFEST_MUTATORS" "f m mutation now = Inr m1"
    by (auto dest: map_of_SomeD intro: rev_image_eqI)
  with mutator_step [OF assms(1)] mutator_frame show ?thesis by blast
qed

lemma mutate_manifest_step:
  assumes "mutate_manifest mutation run_id expected now now' (Some m) = (r, disk')"
  shows "\<exists>m'. disk' = Some m' \<and> run_step (view_of m) (view_of m')"
proof (cases r)
  case (Inl e)
  with assms have "disk' = Some m" by (auto simp: mutate_manifest_def split: sum.splits)
  then show ?thesis by (simp add: run_step.idle)
next
  case (Inr v)
  from mutate_manifest_Inr [OF assms [unfolded Inr]] obtain m1 where m1: "validate_manifest m = Inr m"
    "apply_manifest_mutation m mutation now = Inr m1"
    "disk' = Some m \<or> disk' = Some (obj_set (obj_set m1 ''revision'' (JInt (int_of_json (obj_get m1 ''revision'') + 1)))
           ''updated_at'' (JStr now'))"
    by metis
  from apply_mutation_step [OF m1(1, 2)] m1(3) show ?thesis
    by (auto simp: view_of_other intro: run_step.idle)
qed

text \<open>Any calls by any clients, one after the other, each with its own view of the clock; a call that
  raises is one of them.\<close>

type_synonym manifest_call = "json_object \<times> string \<times> int option \<times> string \<times> string"

definition run_mutation :: "manifest_call \<Rightarrow> json_object option \<Rightarrow> json_object option" where
  "run_mutation call disk =
     (case call of (mutation, run_id, expected, now, now') \<Rightarrow>
        snd (mutate_manifest mutation run_id expected now now' disk))"

lemma run_mutations_steps:
  "\<exists>m'. fold run_mutation calls (Some m) = Some m' \<and> run_step\<^sup>*\<^sup>* (view_of m) (view_of m')"
proof (induction calls arbitrary: m)
  case Nil
  then show ?case by simp
next
  case (Cons call calls)
  obtain mutation run_id expected now now' where call: "call = (mutation, run_id, expected, now, now')"
    by (cases call)
  obtain r disk' where r: "mutate_manifest mutation run_id expected now now' (Some m) = (r, disk')" by fastforce
  from mutate_manifest_step [OF this] obtain m1 where "disk' = Some m1" "run_step (view_of m) (view_of m1)" by blast
  moreover from Cons.IH [of m1] obtain m' where "fold run_mutation calls (Some m1) = Some m'"
    "run_step\<^sup>*\<^sup>* (view_of m1) (view_of m')" by blast
  moreover have "run_mutation call (Some m) = disk'" by (simp add: run_mutation_def call r)
  ultimately show ?case by (auto intro: converse_rtranclp_into_rtranclp)
qed

lemma run_mutations_valid:
  "validate_manifest m = Inr m \<Longrightarrow>
   \<exists>m'. fold run_mutation calls (Some m) = Some m' \<and> validate_manifest m' = Inr m'"
proof (induction calls arbitrary: m)
  case Nil
  then show ?case by simp
next
  case (Cons call calls)
  obtain mutation run_id expected now now' where call: "call = (mutation, run_id, expected, now, now')"
    by (cases call)
  obtain r disk' where r: "mutate_manifest mutation run_id expected now now' (Some m) = (r, disk')" by fastforce
  have "\<exists>m1. disk' = Some m1 \<and> validate_manifest m1 = Inr m1"
  proof (cases r)
    case (Inl e)
    with r have "disk' = Some m" by (auto simp: mutate_manifest_def split: sum.splits)
    with Cons.prems show ?thesis by simp
  next
    case (Inr v)
    from mutate_manifest_Inr [OF r [unfolded Inr]] Cons.prems show ?thesis by metis
  qed
  then obtain m1 where "disk' = Some m1" "validate_manifest m1 = Inr m1" by blast
  moreover have "run_mutation call (Some m) = disk'" by (simp add: run_mutation_def call r)
  ultimately show ?case using Cons.IH [of m1] by simp
qed

section \<open>Invariants of the run\<close>

lemma run_step_order: "run_step r r' \<Longrightarrow> rv_state r \<le> rv_state r'"
  by (induction rule: run_step.induct)
    (auto simp: run_state_order outcome_def split: option.splits if_splits)

text \<open>A terminal run keeps its outcome, and a run that has begun to stop keeps its lanes.\<close>

lemma run_step_terminal:
  "run_step r r' \<Longrightarrow> STOPPING < rv_state r \<Longrightarrow>
   rv_state r' = rv_state r \<and> rv_stop r' = rv_stop r \<and> rv_exit r' = rv_exit r \<and> rv_error r' = rv_error r"
  by (induction rule: run_step.induct) (auto simp: run_state_order)

lemma run_step_fence: "run_step r r' \<Longrightarrow> STOPPING \<le> rv_state r \<Longrightarrow> rv_lanes r' = rv_lanes r"
  by (induction rule: run_step.induct) (auto simp: run_state_order)

lemma run_steps_terminal:
  "run_step\<^sup>*\<^sup>* r r' \<Longrightarrow> STOPPING < rv_state r \<Longrightarrow>
   rv_state r' = rv_state r \<and> rv_stop r' = rv_stop r \<and> rv_exit r' = rv_exit r \<and> rv_error r' = rv_error r \<and>
   rv_lanes r' = rv_lanes r"
  by (induction rule: rtranclp_induct)
    (auto dest: run_step_terminal run_step_fence simp: less_imp_le)

lemma run_steps_fence:
  "run_step\<^sup>*\<^sup>* r r' \<Longrightarrow> STOPPING \<le> rv_state r \<Longrightarrow> rv_lanes r' = rv_lanes r \<and> STOPPING \<le> rv_state r'"
proof (induction rule: rtranclp_induct)
  case (step r1 r2)
  with run_step_order [OF step(2)] run_step_fence [OF step(2)] show ?case by auto
qed simp

text \<open>A requested stop decides how the run ends.\<close>

definition stopping_for_good :: "run_view \<Rightarrow> bool" where
  "stopping_for_good r \<longleftrightarrow> rv_stop r \<and> rv_state r \<in> {STOPPING, STOPPED}"

lemma run_step_stop: "run_step r r' \<Longrightarrow> stopping_for_good r \<Longrightarrow> stopping_for_good r'"
  by (induction rule: run_step.induct) (auto simp: stopping_for_good_def outcome_def run_state_order)

lemma run_steps_stop: "run_step\<^sup>*\<^sup>* r r' \<Longrightarrow> stopping_for_good r \<Longrightarrow> stopping_for_good r'"
  by (induction rule: rtranclp_induct) (auto dest: run_step_stop)

text \<open>The recorded outcome says why a run ended the way it did.\<close>

definition honest :: "run_view \<Rightarrow> bool" where
  "honest r \<longleftrightarrow>
     (rv_state r < STOPPING \<longrightarrow> \<not> rv_stop r \<and> \<not> rv_error r \<and> rv_exit r = None) \<and>
     (rv_state r = STOPPED \<longrightarrow> rv_stop r) \<and> (rv_stop r \<longrightarrow> rv_state r \<in> {STOPPING, STOPPED}) \<and>
     (rv_state r = SUCCEEDED \<longrightarrow> rv_exit r = Some 0 \<and> \<not> rv_error r) \<and>
     (rv_state r = FAILED \<longrightarrow> rv_error r \<or> (\<exists>n. rv_exit r = Some n \<and> n \<noteq> 0))"

lemma run_step_honest: "run_step r r' \<Longrightarrow> honest r \<Longrightarrow> honest r'"
  by (induction rule: run_step.induct)
    (auto simp: honest_def outcome_def run_state_order split: option.splits if_splits)

lemma run_steps_honest: "run_step\<^sup>*\<^sup>* r r' \<Longrightarrow> honest r \<Longrightarrow> honest r'"
  by (induction rule: rtranclp_induct) (auto dest: run_step_honest)

text \<open>Lanes are appended, never removed, and no two of them share a number or a job.\<close>

definition lane_clash :: "json \<Rightarrow> json \<Rightarrow> bool" where
  "lane_clash a b \<longleftrightarrow>
     py_eq (obj_get (dict_of a) ''lane'') (obj_get (dict_of b) ''lane'') \<or>
     py_eq (obj_get (dict_of a) ''job_id'') (obj_get (dict_of b) ''job_id'')"

lemma lane_recorded_False:
  "lane_recorded lane lanes = Inr False \<Longrightarrow> \<forall>current \<in> set lanes. \<not> lane_clash current (JObj lane)"
proof (induction lanes)
  case (Cons current lanes)
  have "\<not> lane_clash current (JObj lane)"
  proof
    assume "lane_clash current (JObj lane)"
    then have "lane_recorded lane (current # lanes) = (if py_eq current (JObj lane) then Inr True else Inl StateRuntimeError)"
      by (simp add: lane_clash_def)
    with Cons.prems show False by (simp split: if_splits)
  qed
  moreover from this have "lane_recorded lane lanes = Inr False"
    using Cons.prems by (simp add: lane_clash_def)
  ultimately show ?case using Cons.IH by simp
qed simp

definition lanes_apart :: "json list \<Rightarrow> bool" where
  "lanes_apart = sorted_wrt (\<lambda>a b. \<not> lane_clash a b)"

lemma run_step_lanes:
  "run_step r r' \<Longrightarrow> prefix (rv_lanes r) (rv_lanes r') \<and> (lanes_apart (rv_lanes r) \<longrightarrow> lanes_apart (rv_lanes r'))"
proof (induction rule: run_step.induct)
  case (lane r lane)
  from lane_recorded_False [OF lane(2)] show ?case by (simp add: lanes_apart_def sorted_wrt_append)
qed simp_all

lemma run_steps_lanes:
  "run_step\<^sup>*\<^sup>* r r' \<Longrightarrow> prefix (rv_lanes r) (rv_lanes r') \<and> (lanes_apart (rv_lanes r) \<longrightarrow> lanes_apart (rv_lanes r'))"
proof (induction rule: rtranclp_induct)
  case (step r1 r2)
  with run_step_lanes [OF step(2)] show ?case by (blast intro: prefix_order.trans)
qed simp

section \<open>A new run\<close>

text \<open>\<^verbatim>\<open>_new_manifest\<close> of \<^verbatim>\<open>lifecycle.py\<close>; the configuration is the record's dump and its number of
  allocations per lane.\<close>

definition new_manifest ::
  "string \<Rightarrow> json \<Rightarrow> int \<Rightarrow> string \<Rightarrow> string list \<Rightarrow> json_object \<Rightarrow> string \<Rightarrow> string \<Rightarrow> json_object" where
  "new_manifest job_name config allocations run_id command runtime_paths cluster_name timestamp =
     [(''schema_version'', JInt MANIFEST_SCHEMA_VERSION),
      (''run_id'', JStr run_id),
      (''job_name'', JStr job_name),
      (''slurm_cluster_name'', JStr cluster_name),
      (''state'', JStr ''SUBMITTING''),
      (''revision'', JInt 0),
      (''created_at'', JStr timestamp),
      (''updated_at'', JStr timestamp),
      (''started_at'', JNull),
      (''stop_requested'', JBool False),
      (''pipeline_exit_status'', JNull),
      (''error'', JNull),
      (''command'', JArr (map JStr command)),
      (''config'', config),
      (''runtime_paths'', JObj runtime_paths),
      (''head_job_id'', JNull),
      (''lane_allocations'', JInt allocations),
      (''lanes'', JArr [])]"

lemma view_of_new:
  "view_of (new_manifest job_name config allocations run_id command paths cluster timestamp) =
     \<lparr>rv_state = SUBMITTING, rv_stop = False, rv_exit = None, rv_error = False, rv_head = None, rv_lanes = []\<rparr>"
  by (simp add: view_of_def new_manifest_def obj_get_def run_state_of_def state_named_def)

lemma new_manifest_valid:
  assumes "cluster \<noteq> []" "nonempty_str (obj_get paths ''run_dir'')"
  shows "validate_manifest (new_manifest job_name config allocations run_id command paths cluster timestamp) =
    Inr (new_manifest job_name config allocations run_id command paths cluster timestamp)"
  using assms
  by (simp add: validate_manifest_def new_manifest_def Let_def required_types_def or_none_def rguard_def
      run_state_of_def state_named_def MANIFEST_SCHEMA_VERSION_def obj_get_def)

text \<open>Stable sorting keeps the entries of each key in order, so canonical renderings that agree hold the
  same values.\<close>

lemma map_of_sort_key: "map_of (sort_key fst xs) = map_of xs"
proof -
  have "map_of ys k = (case filter (\<lambda>e. fst e = k) ys of [] \<Rightarrow> None | e # _ \<Rightarrow> Some (snd e))" for ys :: "('a \<times> 'b) list" and k
    by (induction ys) auto
  then show ?thesis by (simp add: fun_eq_iff sort_key_stable)
qed

lemma dumps_sorted_get:
  assumes "dumps_sorted (JObj m) = dumps_sorted (JObj m')"
  shows "dumps_sorted (obj_get m k) = dumps_sorted (obj_get m' k)"
proof -
  let ?f = "\<lambda>(k :: string, v). (k, dumps_sorted v)"
  have "map_of (map ?f m) = map_of (map ?f m')"
    using assms map_of_sort_key [of "map ?f m"] map_of_sort_key [of "map ?f m'"] by simp
  moreover have "map_of (map ?f d) k = map_option dumps_sorted (map_of d k)" for d :: json_object
    by (induction d) auto
  ultimately have "map_option dumps_sorted (map_of m k) = map_option dumps_sorted (map_of m' k)" by metis
  then show ?thesis by (cases "map_of m k"; cases "map_of m' k") (simp_all add: obj_get_def)
qed

section \<open>Properties\<close>

text \<open>C23: \<^verbatim>\<open>mutate_manifest\<close> refines the abstract run: whatever the file holds and whatever mutation is
  asked for, by whom and when, the file afterwards stands for the same run or for one that one of the
  rules of \<open>run_step\<close> allows; a call that raises leaves the file as it was.\<close>

theorem mutation_refines_run_step:
  fixes m :: json_object
  shows "case mutate_manifest mutation run_id expected now now' (Some m) of
     (Inl e, disk') \<Rightarrow> disk' = Some m
   | (Inr v, disk') \<Rightarrow> \<exists>m'. disk' = Some m' \<and> run_step (view_of m) (view_of m')"
proof (cases "mutate_manifest mutation run_id expected now now' (Some m)")
  case (Pair r disk')
  from mutate_manifest_step [OF Pair] Pair show ?thesis
    by (cases r) (auto simp: mutate_manifest_def split: sum.splits)
qed

text \<open>Compare and swap: a mutation conditional on a revision succeeds only on that revision. One that
  succeeds either leaves the file alone, or publishes a valid manifest of the same run whose revision is
  one higher and returns exactly that; in particular, of two clients that decided on the same revision
  only the first to change the file succeeds.\<close>

theorem conditional_mutation_is_compare_and_swap:
  assumes "mutate_manifest mutation run_id (Some expected) now now' (Some m) = (Inr v, disk')"
  shows "int_of_json (obj_get m ''revision'') = expected \<and> obj_get m ''run_id'' = JStr run_id \<and>
     (disk' = Some m \<or>
      disk' = Some v \<and> validate_manifest v = Inr v \<and> obj_get v ''revision'' = JInt (expected + 1) \<and>
      obj_get v ''run_id'' = JStr run_id \<and>
      mutate_manifest mutation' run_id (Some expected) now'' now''' disk' =
        (Inl (ManifestRevisionConflictError expected (expected + 1)), disk'))"
proof -
  from mutate_manifest_Inr [OF assms] obtain m1 where valid: "validate_manifest m = Inr m"
    and rid: "obj_get m ''run_id'' = JStr run_id" and rev: "int_of_json (obj_get m ''revision'') = expected"
    and m1: "apply_manifest_mutation m mutation now = Inr m1"
    and out: "disk' = Some m \<or> disk' = Some v \<and> validate_manifest v = Inr v \<and>
       v = obj_set (obj_set m1 ''revision'' (JInt (int_of_json (obj_get m1 ''revision'') + 1))) ''updated_at'' (JStr now')"
    by fastforce
  note frame = apply_mutation_step [OF valid m1]
  show ?thesis
  proof (cases "disk' = Some m")
    case False
    with out have v: "disk' = Some v" "validate_manifest v = Inr v"
      and "v = obj_set (obj_set m1 ''revision'' (JInt (int_of_json (obj_get m1 ''revision'') + 1))) ''updated_at'' (JStr now')"
      by blast+
    then have "obj_get v ''revision'' = JInt (expected + 1)" "obj_get v ''run_id'' = JStr run_id"
      using frame rev rid by simp_all
    moreover from this v(2) have "mutate_manifest mutation' run_id (Some expected) now'' now''' (Some v) =
        (Inl (ManifestRevisionConflictError expected (expected + 1)), Some v)"
      by (simp add: mutate_manifest_def rguard_def)
    ultimately show ?thesis using v rev rid by simp
  qed (use rev rid in simp)
qed

text \<open>C24: A run never misreports its end: from the manifest of a new run, whatever calls are made on the
  file, by any clients in any order, with arguments good or bad, the file stays valid; a run that
  SUCCEEDED has driver exit status 0 and no error, one that FAILED has an error or a nonzero status, and
  one that is STOPPED was asked to stop.\<close>

theorem run_outcome_is_honest:
  assumes "cluster \<noteq> []" "nonempty_str (obj_get paths ''run_dir'')"
    and "fold run_mutation calls (Some (new_manifest job_name config allocations run_id command paths cluster timestamp)) = disk"
  shows "\<exists>m. disk = Some m \<and> validate_manifest m = Inr m \<and>
     (run_state_of m = Inr SUCCEEDED \<longrightarrow>
        obj_get m ''pipeline_exit_status'' = JInt 0 \<and> \<not> is_str (obj_get m ''error'')) \<and>
     (run_state_of m = Inr FAILED \<longrightarrow>
        is_str (obj_get m ''error'') \<or> (\<exists>n. obj_get m ''pipeline_exit_status'' = JInt n \<and> n \<noteq> 0)) \<and>
     (run_state_of m = Inr STOPPED \<longrightarrow> obj_get m ''stop_requested'' = JBool True)"
proof -
  let ?m0 = "new_manifest job_name config allocations run_id command paths cluster timestamp"
  from run_mutations_steps [of calls ?m0] run_mutations_valid [OF new_manifest_valid [OF assms(1,2)]] assms(3)
  obtain m where m: "disk = Some m" "run_step\<^sup>*\<^sup>* (view_of ?m0) (view_of m)" "validate_manifest m = Inr m"
    by (metis option.inject)
  have "honest (view_of ?m0)" by (simp add: honest_def view_of_new)
  with m(2) have "honest (view_of m)" by (rule run_steps_honest)
  moreover have "obj_get m ''pipeline_exit_status'' = JInt n" if "rv_exit (view_of m) = Some n" for n
    using that by (auto simp: view_of_simps split: json.splits)
  ultimately show ?thesis using m(1,3) by (auto simp: honest_def view_of_simps(1,2,4))
qed

lemma mutate_manifest_cases:
  assumes "mutate_manifest mutation run_id expected now now' (Some m) = (r, disk')"
  shows "disk' = Some m \<or> (\<exists>m'. disk' = Some m' \<and> validate_manifest m' = Inr m' \<and>
    validate_manifest m = Inr m \<and> obj_get m' ''run_id'' = obj_get m ''run_id'')"
proof (cases r)
  case (Inl e)
  with assms show ?thesis by (auto simp: mutate_manifest_def split: sum.splits)
next
  case (Inr v)
  from mutate_manifest_Inr [OF assms [unfolded Inr]] obtain m1 where m1: "validate_manifest m = Inr m"
    "apply_manifest_mutation m mutation now = Inr m1"
    "disk' = Some m \<or> disk' = Some v \<and> validate_manifest v = Inr v \<and>
     v = obj_set (obj_set m1 ''revision'' (JInt (int_of_json (obj_get m1 ''revision'') + 1))) ''updated_at'' (JStr now')"
    by metis
  from apply_mutation_step [OF m1(1,2)] m1 show ?thesis by auto
qed

lemma run_mutations_cases:
  "fold run_mutation calls (Some m) = Some m' \<Longrightarrow>
   m' = m \<or> (validate_manifest m = Inr m \<and> validate_manifest m' = Inr m' \<and>
     obj_get m' ''run_id'' = obj_get m ''run_id'')"
proof (induction calls arbitrary: m)
  case (Cons call calls)
  obtain mutation run_id expected now now' where call: "call = (mutation, run_id, expected, now, now')"
    by (cases call)
  obtain r disk' where r: "mutate_manifest mutation run_id expected now now' (Some m) = (r, disk')" by fastforce
  have d: "run_mutation call (Some m) = disk'" by (simp add: run_mutation_def call r)
  from mutate_manifest_cases [OF r] obtain m1 where m1: "disk' = Some m1"
    "m1 = m \<or> validate_manifest m1 = Inr m1 \<and> validate_manifest m = Inr m \<and>
       obj_get m1 ''run_id'' = obj_get m ''run_id''" by auto
  with Cons.prems d have "fold run_mutation calls (Some m1) = Some m'" by simp
  from Cons.IH [OF this] m1(2) show ?case by auto
qed simp

text \<open>The state of the file is read back from the view as long as it is legible at the start.\<close>

lemma run_mutations_state:
  assumes "fold run_mutation calls (Some m) = Some m'" "run_state_of m = Inr s"
  shows "run_state_of m' = Inr (rv_state (view_of m'))"
  using run_mutations_cases [OF assms(1)] assms(2) valid_manifestD(2) [of m' m']
  by (auto simp: view_of_simps)

lemma validate_manifest_transfer:
  assumes "validate_manifest m = Inr m" "run_state_of m' = Inr s" "is_int (obj_get m' ''revision'')"
    and "\<And>k. k \<in> {''schema_version'', ''run_id'', ''job_name'', ''slurm_cluster_name'',
      ''lane_allocations'', ''runtime_paths'', ''lanes'', ''head_job_id'', ''pipeline_exit_status'', ''error''} \<Longrightarrow>
      obj_get m' k = obj_get m k"
  shows "validate_manifest m' = Inr m'"
proof -
  have "is_str (obj_get m' ''state'')"
    using assms(2) by (cases "obj_get m' ''state''") (simp_all add: run_state_of_def)
  with assms show ?thesis
    by (auto simp: validate_manifest_def Let_def required_types_def result_simps)
qed

text \<open>A stopping run that was asked to stop can always be finalized, and is then STOPPED.\<close>

lemma finalize_stopped:
  assumes valid: "validate_manifest m = Inr m" and rid: "obj_get m ''run_id'' = JStr run_id"
    and stop: "stopping_for_good (view_of m)"
  shows "\<exists>v m'. mutate_manifest [(''operation'', JStr ''finalize'')] run_id None now now' (Some m) = (Inr v, Some m') \<and>
    run_state_of m' = Inr STOPPED"
proof -
  obtain s where s: "run_state_of m = Inr s" using valid_manifestD(2) [OF valid] by blast
  with stop consider "s = STOPPING" | "s = STOPPED" by (auto simp: stopping_for_good_def view_of_simps)
  then show ?thesis
  proof cases
    case 1
    let ?m1 = "obj_set (obj_set m ''state'' (JStr ''STOPPED'')) ''stopped_at'' (JStr now)"
    let ?m2 = "obj_set (obj_set ?m1 ''revision'' (JInt (int_of_json (obj_get m ''revision'') + 1))) ''updated_at'' (JStr now')"
    have "obj_get m ''stop_requested'' = JBool True" using stop by (simp add: stopping_for_good_def view_of_simps)
    then have applied: "apply_manifest_mutation m [(''operation'', JStr ''finalize'')] now = Inr ?m1"
      using s 1 by (simp add: apply_manifest_mutation_def MANIFEST_MUTATORS_def finalize_def
          expected_terminal_state_def transition_run_state_def obj_get_def [of "[_]"])
    have old: "obj_get m ''state'' = JStr ''STOPPING''"
      using s 1 by (auto simp: run_state_of_def state_named_eq_Some split: json.splits option.splits)
    have "dumps_sorted (JObj ?m1) \<noteq> dumps_sorted (JObj m)"
    proof
      assume "dumps_sorted (JObj ?m1) = dumps_sorted (JObj m)"
      from dumps_sorted_get [OF this, of "''state''"] old show False by simp
    qed
    moreover have st2: "run_state_of ?m2 = Inr STOPPED"
      using state_named_name [of STOPPED] by simp
    moreover have "validate_manifest ?m2 = Inr ?m2"
      by (rule validate_manifest_transfer [OF valid st2]) auto
    ultimately have "mutate_manifest [(''operation'', JStr ''finalize'')] run_id None now now' (Some m) = (Inr ?m2, Some ?m2)"
      using valid rid applied by (simp add: mutate_manifest_def rguard_def Let_def)
    with st2 show ?thesis by blast
  next
    case 2
    then have "apply_manifest_mutation m [(''operation'', JStr ''finalize'')] now = Inr m"
      using s by (simp add: apply_manifest_mutation_def MANIFEST_MUTATORS_def finalize_def obj_get_def [of "[_]"])
    then have "mutate_manifest [(''operation'', JStr ''finalize'')] run_id None now now' (Some m) = (Inr m, Some m)"
      using valid rid by (simp add: mutate_manifest_def rguard_def)
    with s 2 show ?thesis by blast
  qed
qed

text \<open>A stop request that returns has taken effect on the file.\<close>

lemma request_stop_file:
  assumes s: "run_state_of m = Inr s" "s \<le> STOPPING"
    and call: "mutate_manifest [(''operation'', JStr ''request-stop'')] run_id expected now now' (Some m) = (Inr v, disk)"
  shows "\<exists>m0. disk = Some m0 \<and> validate_manifest m0 = Inr m0 \<and> obj_get m0 ''run_id'' = JStr run_id \<and>
    stopping_for_good (view_of m0) \<and> rv_lanes (view_of m0) = rv_lanes (view_of m)"
proof -
  from mutate_manifest_Inr [OF call] obtain m1 where valid: "validate_manifest m = Inr m"
    and rid: "obj_get m ''run_id'' = JStr run_id"
    and m1: "apply_manifest_mutation m [(''operation'', JStr ''request-stop'')] now = Inr m1"
    and out: "dumps_sorted (JObj m1) = dumps_sorted (JObj m) \<and> disk = Some m \<or>
      disk = Some v \<and> validate_manifest v = Inr v \<and>
      v = obj_set (obj_set m1 ''revision'' (JInt (int_of_json (obj_get m1 ''revision'') + 1))) ''updated_at'' (JStr now')"
    by metis
  have eq: "m1 = obj_set (if s = STOPPING then m else obj_set m ''state'' (JStr ''STOPPING'')) ''stop_requested'' (JBool True)"
    using m1 s not_terminal_iff [of s]
    by (simp add: apply_manifest_mutation_def MANIFEST_MUTATORS_def request_stop_def move_to_stopping obj_get_def [of "[_]"])
  have st: "run_state_of m1 = Inr STOPPING" "obj_get m1 ''stop_requested'' = JBool True"
    "obj_get m1 ''lanes'' = obj_get m ''lanes''"
    using s state_named_name [of STOPPING] by (simp_all add: eq)
  from out show ?thesis
  proof
    assume same: "dumps_sorted (JObj m1) = dumps_sorted (JObj m) \<and> disk = Some m"
    from dumps_sorted_get [of m1 m "''state''"] dumps_sorted_get [of m1 m "''stop_requested''"] same
    have "dumps_sorted (obj_get m ''state'') = JStr ''STOPPING''" "dumps_sorted (obj_get m ''stop_requested'') = JBool True"
      using st(1,2) by (auto simp: run_state_of_def state_named_eq_Some split: json.splits option.splits)
    then have "obj_get m ''state'' = JStr ''STOPPING''" "obj_get m ''stop_requested'' = JBool True"
      by (cases "obj_get m ''state''"; cases "obj_get m ''stop_requested''"; simp)+
    then show ?thesis
      using same valid rid state_named_name [of STOPPING]
      by (simp add: stopping_for_good_def view_of_simps run_state_of_def)
  next
    assume new: "disk = Some v \<and> validate_manifest v = Inr v \<and>
      v = obj_set (obj_set m1 ''revision'' (JInt (int_of_json (obj_get m1 ''revision'') + 1))) ''updated_at'' (JStr now')"
    with apply_mutation_step [OF valid m1] rid st show ?thesis
      by (auto simp: stopping_for_good_def view_of_simps)
  qed
qed

text \<open>The end of a run is final: once its state is terminal, no sequence of calls changes the state,
  the outcome it is derived from, or the lanes.\<close>

theorem terminal_run_is_frozen:
  assumes "run_state_of m = Inr s" "s \<in> {SUCCEEDED, FAILED, STOPPED}"
  shows "\<exists>m'. fold run_mutation calls (Some m) = Some m' \<and> run_state_of m' = Inr s \<and>
     is_str (obj_get m' ''error'') = is_str (obj_get m ''error'') \<and>
     rv_exit (view_of m') = rv_exit (view_of m) \<and>
     list_of (obj_get m' ''lanes'') = list_of (obj_get m ''lanes'')"
proof -
  obtain m' where m': "fold run_mutation calls (Some m) = Some m'" "run_step\<^sup>*\<^sup>* (view_of m) (view_of m')"
    using run_mutations_steps by blast
  have st: "rv_state (view_of m) = s" and past: "STOPPING < rv_state (view_of m)"
    using assms terminal_iff_after_stopping [of s] by (simp_all add: view_of_simps)
  note frozen = run_steps_terminal [OF m'(2) past]
  have "run_state_of m' = Inr s"
    using run_mutations_state [OF m'(1) assms(1)] frozen st by simp
  with m'(1) frozen show ?thesis by (auto simp: view_of_simps(4,6))
qed

text \<open>C25: A stop request always wins: after one has succeeded on a run that had not ended, whatever calls
  follow (drivers exiting, failures recorded, lanes submitted, other finalizers), the run is STOPPING or
  STOPPED, its lanes are those it had, and the next finalize leaves it STOPPED.\<close>

theorem requested_stop_wins:
  assumes "run_state_of m = Inr s" "s \<le> STOPPING"
    and "mutate_manifest [(''operation'', JStr ''request-stop'')] run_id expected now now' (Some m) = (Inr v, disk)"
    and "fold run_mutation calls disk = Some m'"
  shows "run_state_of m' \<in> {Inr STOPPING, Inr STOPPED} \<and>
     list_of (obj_get m' ''lanes'') = list_of (obj_get m ''lanes'') \<and>
     (\<exists>v m''. mutate_manifest [(''operation'', JStr ''finalize'')] run_id None t1 t2 (Some m') = (Inr v, Some m'') \<and>
        run_state_of m'' = Inr STOPPED)"
proof -
  from request_stop_file [OF assms(1-3)] obtain m0 where m0: "disk = Some m0" "validate_manifest m0 = Inr m0"
    "obj_get m0 ''run_id'' = JStr run_id" "stopping_for_good (view_of m0)"
    "rv_lanes (view_of m0) = rv_lanes (view_of m)" by blast
  with assms(4) have run: "fold run_mutation calls (Some m0) = Some m'" by simp
  then have steps: "run_step\<^sup>*\<^sup>* (view_of m0) (view_of m')" using run_mutations_steps [of calls m0] by auto
  have good: "stopping_for_good (view_of m')" by (rule run_steps_stop [OF steps m0(4)])
  have lanes: "rv_lanes (view_of m') = rv_lanes (view_of m0)"
    using run_steps_fence [OF steps] m0(4) by (auto simp: stopping_for_good_def run_state_order)
  obtain s0 where "run_state_of m0 = Inr s0" using valid_manifestD(2) [OF m0(2)] by blast
  from run_mutations_state [OF run this] good have "run_state_of m' \<in> {Inr STOPPING, Inr STOPPED}"
    by (auto simp: stopping_for_good_def)
  moreover have "validate_manifest m' = Inr m'" "obj_get m' ''run_id'' = JStr run_id"
    using run_mutations_cases [OF run] m0(2,3) by auto
  from finalize_stopped [OF this good] have "\<exists>v m''. mutate_manifest [(''operation'', JStr ''finalize'')] run_id None t1 t2 (Some m') =
      (Inr v, Some m'') \<and> run_state_of m'' = Inr STOPPED" .
  ultimately show ?thesis using lanes m0(5) by (simp add: view_of_simps)
qed

text \<open>The record of lanes only grows: from the manifest of a new run, the lanes recorded after some calls
  are a prefix of those recorded after more calls, and at every moment no two recorded lanes share a lane
  number or a job.\<close>

theorem lanes_only_grow:
  assumes "fold run_mutation calls (Some (new_manifest job_name config allocations run_id command paths cluster timestamp)) = Some m"
    and "fold run_mutation calls' (Some m) = Some m'"
  shows "prefix (list_of (obj_get m ''lanes'')) (list_of (obj_get m' ''lanes'')) \<and>
     sorted_wrt (\<lambda>a b. \<not> lane_clash a b) (list_of (obj_get m' ''lanes''))"
proof -
  let ?m0 = "new_manifest job_name config allocations run_id command paths cluster timestamp"
  have "run_step\<^sup>*\<^sup>* (view_of ?m0) (view_of m)" "run_step\<^sup>*\<^sup>* (view_of m) (view_of m')"
    using run_mutations_steps [of calls ?m0] run_mutations_steps [of calls' m] assms by auto
  from run_steps_lanes [OF this(1)] run_steps_lanes [OF this(2)] show ?thesis
    by (simp add: view_of_simps view_of_new lanes_apart_def)
qed
section \<open>A run on concrete data\<close>

text \<open>A run from its submission to its end, with one call for another run among the others.\<close>

definition sample_manifest :: json_object where
  "sample_manifest = new_manifest ''job'' (JObj []) 1 ''r1'' [''run''] [(''run_dir'', JStr ''/runs/r1'')] ''cluster'' ''t0''"

definition sample_calls :: "manifest_call list" where
  "sample_calls =
     [([(''operation'', JStr ''append-lane''), (''lane'', JObj [(''lane'', JInt 1), (''job_id'', JStr ''7'')])], ''r1'', Some 0, ''t1'', ''t1''),
      ([(''operation'', JStr ''finish-submission'')], ''r1'', None, ''t2'', ''t2''),
      ([(''operation'', JStr ''activate'')], ''r2'', None, ''t3'', ''t3''),
      ([(''operation'', JStr ''activate'')], ''r1'', None, ''t3'', ''t3''),
      ([(''operation'', JStr ''record-driver-exit''), (''exit_status'', JInt 0)], ''r1'', None, ''t4'', ''t4''),
      ([(''operation'', JStr ''finalize'')], ''r1'', None, ''t5'', ''t5'')]"

lemma sample_run:
  "map_option (\<lambda>m. (obj_get m ''state'', obj_get m ''revision'', obj_get m ''lanes''))
     (fold run_mutation sample_calls (Some sample_manifest)) =
   Some (JStr ''SUCCEEDED'', JInt 5, JArr [JObj [(''lane'', JInt 1), (''job_id'', JStr ''7'')]])"
  by code_simp

definition stop_call :: manifest_call where
  "stop_call = ([(''operation'', JStr ''request-stop'')], ''r1'', Some 0, ''t1'', ''t2'')"

lemma run_outcome_is_honest_witness:
  "\<exists>m. fold run_mutation sample_calls (Some sample_manifest) = Some m \<and>
     run_state_of m = Inr SUCCEEDED \<and> obj_get m ''pipeline_exit_status'' = JInt 0 \<and> \<not> is_str (obj_get m ''error'')"
proof -
  have "\<exists>m. fold run_mutation sample_calls (Some sample_manifest) = Some m \<and>
     (run_state_of m = Inr SUCCEEDED \<longrightarrow>
        obj_get m ''pipeline_exit_status'' = JInt 0 \<and> \<not> is_str (obj_get m ''error''))"
    using run_outcome_is_honest [of "''cluster''" "[(''run_dir'', JStr ''/runs/r1'')]" sample_calls "''job''" "JObj []" 1
        "''r1''" "[''run'']" "''t0''" "fold run_mutation sample_calls (Some sample_manifest)"]
    by (auto simp: sample_manifest_def nonempty_str_def obj_get_def [of "[_]"])
  moreover have "map_option run_state_of (fold run_mutation sample_calls (Some sample_manifest)) = Some (Inr SUCCEEDED)"
    by code_simp
  ultimately show ?thesis by auto
qed

lemma conditional_mutation_is_compare_and_swap_witness:
  "\<exists>v. mutate_manifest [(''operation'', JStr ''request-stop'')] ''r1'' (Some 0) ''t1'' ''t2'' (Some sample_manifest) =
       (Inr v, Some v) \<and> obj_get v ''revision'' = JInt 1 \<and>
     mutate_manifest [(''operation'', JStr ''activate'')] ''r1'' (Some 0) ''t3'' ''t4'' (Some v) =
       (Inl (ManifestRevisionConflictError 0 1), Some v)"
proof -
  obtain r disk where call: "mutate_manifest [(''operation'', JStr ''request-stop'')] ''r1'' (Some 0) ''t1'' ''t2'' (Some sample_manifest) = (r, disk)"
    by fastforce
  have "case mutate_manifest [(''operation'', JStr ''request-stop'')] ''r1'' (Some 0) ''t1'' ''t2'' (Some sample_manifest) of
     (Inr v, disk) \<Rightarrow> disk \<noteq> Some sample_manifest | _ \<Rightarrow> False"
    by code_simp
  then obtain v where "r = Inr v" "disk \<noteq> Some sample_manifest" unfolding call by (cases r) auto
  with conditional_mutation_is_compare_and_swap [OF call [unfolded this(1)],
      where mutation' = "[(''operation'', JStr ''activate'')]" and now'' = "''t3''" and now''' = "''t4''"] call
  show ?thesis by auto
qed

lemma terminal_run_is_frozen_witness:
  "\<exists>m. fold run_mutation sample_calls (Some (obj_set sample_manifest ''state'' (JStr ''FAILED''))) = Some m \<and>
     run_state_of m = Inr FAILED"
proof -
  have "run_state_of (obj_set sample_manifest ''state'' (JStr ''FAILED'')) = Inr FAILED" by code_simp
  from terminal_run_is_frozen [OF this, of sample_calls] show ?thesis by auto
qed

lemma requested_stop_wins_witness:
  "\<exists>m v m'. fold run_mutation (stop_call # sample_calls) (Some sample_manifest) = Some m \<and>
     mutate_manifest [(''operation'', JStr ''finalize'')] ''r1'' None ''t8'' ''t9'' (Some m) = (Inr v, Some m') \<and>
     run_state_of m' = Inr STOPPED"
proof -
  let ?stop = "mutate_manifest [(''operation'', JStr ''request-stop'')] ''r1'' (Some 0) ''t1'' ''t2'' (Some sample_manifest)"
  have "case ?stop of (Inr v, disk) \<Rightarrow> True | _ \<Rightarrow> False" by code_simp
  then obtain v disk where call: "?stop = (Inr v, disk)" by (auto split: prod.splits sum.splits)
  have state: "run_state_of sample_manifest = Inr SUBMITTING" by code_simp
  have "disk \<noteq> None" using mutate_manifest_step [OF call] by auto
  then obtain m where m: "fold run_mutation sample_calls disk = Some m"
    using run_mutations_steps [of sample_calls] by blast
  have "run_mutation stop_call (Some sample_manifest) = disk" by (simp add: run_mutation_def stop_call_def call)
  with m requested_stop_wins [OF state _ call m, where ?t1.0 = "''t8''" and ?t2.0 = "''t9''"] show ?thesis
    by (simp add: run_state_order)
qed

lemma lanes_only_grow_witness:
  "\<exists>m. fold run_mutation sample_calls (Some sample_manifest) = Some m \<and>
     prefix [] (list_of (obj_get m ''lanes'')) \<and> sorted_wrt (\<lambda>a b. \<not> lane_clash a b) (list_of (obj_get m ''lanes''))"
proof -
  obtain m where m: "fold run_mutation sample_calls (Some sample_manifest) = Some m"
    using run_mutations_steps by blast
  from lanes_only_grow [of "[]" "''job''" "JObj []" 1 "''r1''" "[''run'']" "[(''run_dir'', JStr ''/runs/r1'')]" "''cluster''"
      "''t0''" sample_manifest sample_calls m] m
  show ?thesis by (simp add: sample_manifest_def)
qed

end
