(* ===== verification/PyText.thy ===== *)
theory PyText
  imports Prelude "HOL-Library.Char_ord"
begin

text \<open>
  The methods of Python's \<^verbatim>\<open>str\<close> that the Slurm client reads command output with, on ASCII strings:
  \<^verbatim>\<open>strip\<close>, \<^verbatim>\<open>partition\<close>, \<^verbatim>\<open>split\<close>, \<^verbatim>\<open>splitlines\<close>, \<^verbatim>\<open>upper\<close>, \<^verbatim>\<open>isdigit\<close>, \<^verbatim>\<open>int\<close> and \<^verbatim>\<open>str\<close> of an integer.
\<close>

abbreviation ascii :: "char \<Rightarrow> nat" where
  "ascii \<equiv> of_char"

definition is_space :: "char \<Rightarrow> bool" where
  "is_space c \<longleftrightarrow> 9 \<le> ascii c \<and> ascii c \<le> 13 \<or> 28 \<le> ascii c \<and> ascii c \<le> 32"

definition is_line_break :: "char \<Rightarrow> bool" where
  "is_line_break c \<longleftrightarrow> 10 \<le> ascii c \<and> ascii c \<le> 13 \<or> 28 \<le> ascii c \<and> ascii c \<le> 30"

definition is_digit :: "char \<Rightarrow> bool" where
  "is_digit c \<longleftrightarrow> 48 \<le> ascii c \<and> ascii c \<le> 57"

definition is_upper :: "char \<Rightarrow> bool" where
  "is_upper c \<longleftrightarrow> 65 \<le> ascii c \<and> ascii c \<le> 90"

definition is_lower :: "char \<Rightarrow> bool" where
  "is_lower c \<longleftrightarrow> 97 \<le> ascii c \<and> ascii c \<le> 122"

definition py_strip :: "string \<Rightarrow> string" where
  "py_strip s = rev (dropWhile is_space (rev (dropWhile is_space s)))"

text \<open>\<^verbatim>\<open>s.partition(c)\<close>: what is before the separator, whether there is one, and what is after it.\<close>

definition py_partition :: "char \<Rightarrow> string \<Rightarrow> string \<times> bool \<times> string" where
  "py_partition c s = (takeWhile (\<lambda>d. d \<noteq> c) s, c \<in> set s, drop 1 (dropWhile (\<lambda>d. d \<noteq> c) s))"

abbreviation before :: "char \<Rightarrow> string \<Rightarrow> string" where
  "before c s \<equiv> fst (py_partition c s)"

fun py_split :: "char \<Rightarrow> string \<Rightarrow> string list" where
  "py_split c [] = [[]]"
| "py_split c (d # s) =
     (if d = c then [] # py_split c s
      else case py_split c s of [] \<Rightarrow> [[d]] | field # fields \<Rightarrow> (d # field) # fields)"

text \<open>Line ends are carriage return, line feed, both in this order, and the ASCII separators.\<close>

fun splitlines_from :: "string \<Rightarrow> string \<Rightarrow> string list" where
  "splitlines_from line [] = (if line = [] then [] else [rev line])"
| "splitlines_from line (c # s) =
     (if c = CHR 0x0D \<and> s \<noteq> [] \<and> hd s = CHR 0x0A then splitlines_from (c # line) s
      else if is_line_break c
      then rev (if c = CHR 0x0A \<and> line \<noteq> [] \<and> hd line = CHR 0x0D then tl line else line) # splitlines_from [] s
      else splitlines_from (c # line) s)"

definition py_splitlines :: "string \<Rightarrow> string list" where
  "py_splitlines s = splitlines_from [] s"

definition py_upper :: "string \<Rightarrow> string" where
  "py_upper s = map (\<lambda>c. if is_lower c then char_of (ascii c - 32) else c) s"

definition py_isdigit :: "string \<Rightarrow> bool" where
  "py_isdigit s \<longleftrightarrow> s \<noteq> [] \<and> list_all is_digit s"

definition digits_value :: "string \<Rightarrow> int" where
  "digits_value s = foldl (\<lambda>n c. 10 * n + (int (ascii c) - 48)) 0 s"

text \<open>\<^verbatim>\<open>int(s)\<close>: surrounding white space, a sign, and digits with single underscores between them; \<open>None\<close>
  where it raises \<^verbatim>\<open>ValueError\<close>.\<close>

definition py_int_digits :: "string \<Rightarrow> int option" where
  "py_int_digits s =
     (if list_all py_isdigit (py_split (CHR ''_'') s) then Some (digits_value (concat (py_split (CHR ''_'') s)))
      else None)"

definition py_int :: "string \<Rightarrow> int option" where
  "py_int s =
     (case py_strip s of
        [] \<Rightarrow> None
      | c # t \<Rightarrow>
          if c = CHR ''-'' then map_option uminus (py_int_digits t)
          else if c = CHR ''+'' then py_int_digits t
          else py_int_digits (c # t))"

text \<open>\<^verbatim>\<open>str(n)\<close> for an integer.\<close>

fun digits_of :: "nat \<Rightarrow> string" where
  "digits_of n = (if n < 10 then [char_of (48 + n)] else digits_of (n div 10) @ [char_of (48 + n mod 10)])"

declare digits_of.simps [simp del]

definition py_str_int :: "int \<Rightarrow> string" where
  "py_str_int n = (if n < 0 then CHR ''-'' # digits_of (nat (- n)) else digits_of (nat n))"

text \<open>\<^verbatim>\<open>x or None\<close> for a string.\<close>

definition none_if_empty :: "string \<Rightarrow> string option" where
  "none_if_empty s = (if s = [] then None else Some s)"

section \<open>Facts\<close>

lemma ascii_char_of [simp]: "n < 256 \<Longrightarrow> ascii (char_of n) = n"
  by simp

lemma is_digit_char_of [simp]: "(d :: nat) < 10 \<Longrightarrow> is_digit (char_of (48 + d))"
  by (simp add: is_digit_def)

lemma digits_of_is_digit: "py_isdigit (digits_of n)"
proof (induction n rule: digits_of.induct)
  case (1 n)
  show ?case
    by (subst digits_of.simps) (use 1 in \<open>auto simp: py_isdigit_def\<close>)
qed

lemma digits_value_append:
  "digits_value (s @ [c]) = 10 * digits_value s + (int (ascii c) - 48)"
  by (simp add: digits_value_def)

lemma digits_value_of: "digits_value (digits_of n) = int n"
proof (induction n rule: digits_of.induct)
  case (1 n)
  show ?case
  proof (cases "n < 10")
    case True
    then show ?thesis by (subst digits_of.simps) (simp add: digits_value_def)
  next
    case False
    have "n mod 10 < 10" by simp
    then have "ascii (char_of (48 + n mod 10)) = 48 + n mod 10" by (intro ascii_char_of) simp
    then have "digits_value (digits_of n) = 10 * int (n div 10) + int (n mod 10)"
      using 1 [OF False] False by (subst digits_of.simps) (simp add: digits_value_append del: of_char_of)
    then show ?thesis by (simp add: zdiv_int zmod_int)
  qed
qed

lemma py_split_no_sep: "c \<notin> set s \<Longrightarrow> py_split c s = [s]"
  by (induction s) auto

lemma digit_not_other:
  "is_digit c \<Longrightarrow> c \<noteq> CHR ''_'' \<and> c \<noteq> CHR ''-'' \<and> c \<noteq> CHR ''+'' \<and> \<not> is_space c"
  by (auto simp: is_digit_def is_space_def)

lemma py_strip_id: "list_all (\<lambda>c. \<not> is_space c) s \<Longrightarrow> py_strip s = s"
proof -
  assume s: "list_all (\<lambda>c. \<not> is_space c) s"
  then have "dropWhile is_space s = s" by (cases s) auto
  moreover have "list_all (\<lambda>c. \<not> is_space c) (rev s)" using s by (simp add: list_all_iff)
  then have "dropWhile is_space (rev s) = rev s" by (cases "rev s") auto
  ultimately show ?thesis by (simp add: py_strip_def)
qed

text \<open>\<^verbatim>\<open>int(str(n))\<close> is \<open>n\<close>.\<close>

lemma py_int_digits_of: "py_int_digits (digits_of n) = Some (int n)"
proof -
  have "CHR ''_'' \<notin> set (digits_of n)"
    using digits_of_is_digit [of n] digit_not_other by (auto simp: py_isdigit_def list_all_iff)
  then show ?thesis using digits_of_is_digit [of n]
    by (simp add: py_int_digits_def py_split_no_sep digits_value_of)
qed

lemma py_int_str: "py_int (py_str_int n) = Some n"
proof -
  have digits: "list_all is_digit (digits_of k)" "digits_of k \<noteq> []" for k
    using digits_of_is_digit [of k] by (simp_all add: py_isdigit_def)
  have strip: "py_strip (digits_of k) = digits_of k" "py_strip (CHR ''-'' # digits_of k) = CHR ''-'' # digits_of k" for k
    using digits(1) [of k] digit_not_other
    by (intro py_strip_id; auto simp: list_all_iff is_space_def)+
  show ?thesis
  proof (cases "n < 0")
    case True
    then show ?thesis by (simp add: py_int_def py_str_int_def strip py_int_digits_of)
  next
    case False
    obtain c t where c: "digits_of (nat n) = c # t" using digits(2) by (metis list.exhaust)
    then have "c \<noteq> CHR ''-''" "c \<noteq> CHR ''+''"
      using digits(1) [of "nat n"] digit_not_other by auto
    with False c show ?thesis
      using py_int_digits_of [of "nat n"] strip(1) [of "nat n"] by (simp add: py_int_def py_str_int_def)
  qed
qed

end
