(* ===== verification/LanceAppend.thy ===== *)
theory LanceAppend
  imports RunManifest PyText "HOL-Library.Multiset" "HOL-Library.AList"
begin

text \<open>
  \<^verbatim>\<open>next/utils/lance_fragment_recovery.py\<close>: the canonical Lance table of a recipe, its bootstrap, the staging of a
  fragment by a worker and the idempotent append of a staged fragment by the driver, whose commit may succeed although
  its response is an error. Lance itself is a parameter, \<open>lance_store\<close>: what is read of a dataset is the record
  \<open>lance_dataset\<close>, everything else is a call that may fail and may see what other writers did.
\<close>

section \<open>Exceptions, tables and the store\<close>

datatype error_class = OSError | ValueError | RuntimeError | TypeError | AssertionError | OtherException | KeyboardInterrupt

text \<open>An exception with its message, of which only the library's own are read.\<close>

type_synonym lance_error = "error_class \<times> string"

abbreviation raised :: "error_class \<Rightarrow> lance_error" where
  "raised c \<equiv> (c, '''')"

definition is_exception :: "lance_error \<Rightarrow> bool" where
  "is_exception e \<longleftrightarrow> fst e \<noteq> KeyboardInterrupt"

record pa_field =
  pf_name :: string
  pf_type :: string
  pf_nullable :: bool
  pf_metadata :: "(string \<times> string) list"

record arrow_table =
  at_schema :: "pa_field list"
  at_rows :: "json_object list"

record fragment =
  fr_files :: "string list"
  fr_num_rows :: nat

record lance_dataset =
  ds_version :: int
  ds_storage_version :: "string option"
  ds_schema :: "pa_field list"

record 'w lance_store =
  ls_dataset :: "('w, lance_error, lance_dataset) stm"
  ls_create :: "pa_field list \<Rightarrow> string \<Rightarrow> ('w, lance_error, lance_dataset) stm"
  ls_column :: "lance_dataset \<Rightarrow> string \<Rightarrow> string \<Rightarrow> ('w, lance_error, json list) stm"
  ls_count_rows :: "lance_dataset \<Rightarrow> string \<Rightarrow> ('w, lance_error, int) stm"
  ls_scan :: "lance_dataset \<Rightarrow> string list \<Rightarrow> ('w, lance_error, json_object list list) stm"
  ls_from_pylist :: "json_object list \<Rightarrow> pa_field list \<Rightarrow> lance_error + arrow_table"
  ls_write_fragments :: "arrow_table \<Rightarrow> pa_field list \<Rightarrow> string \<Rightarrow> ('w, lance_error, fragment list) stm"
  ls_commit :: "int \<Rightarrow> fragment \<Rightarrow> ('w, lance_error, int) stm"
  ls_sleep :: "int \<Rightarrow> 'w \<Rightarrow> 'w"
  ls_to_json :: "fragment \<Rightarrow> json"
  ls_from_json :: "json \<Rightarrow> lance_error + fragment"

text \<open>\<^verbatim>\<open>str(value)\<close> of a cell of an identifier column, which holds text, integers, Booleans or nulls.\<close>

fun str_of_cell :: "json \<Rightarrow> string" where
  "str_of_cell (JStr s) = s"
| "str_of_cell (JInt n) = py_str_int n"
| "str_of_cell (JBool b) = (if b then ''True'' else ''False'')"
| "str_of_cell _ = ''None''"

definition py_lower :: "string \<Rightarrow> string" where
  "py_lower s = map (\<lambda>c. if is_upper c then char_of (ascii c + 32) else c) s"

fun py_join :: "string \<Rightarrow> string list \<Rightarrow> string" where
  "py_join sep [] = []"
| "py_join sep [s] = s"
| "py_join sep (s # ss) = s @ sep @ py_join sep ss"

section \<open>Opening and checking the table\<close>

definition open_dataset :: "'w lance_store \<Rightarrow> ('w, lance_error, lance_dataset option) stm" where
  "open_dataset store w =
     (case ls_dataset store w of
        (Inr dataset, w1) \<Rightarrow> (Inr (Some dataset), w1)
      | (Inl (c, message), w1) \<Rightarrow>
          if (c = OSError \<or> c = ValueError) \<and>
             (sublist ''not found'' (py_lower message) \<or> sublist ''does not exist'' (py_lower message))
          then (Inr None, w1) else (Inl (c, message), w1))"

text \<open>\<^verbatim>\<open>{field.name: field for field in schema}\<close>\<close>

definition by_name :: "pa_field list \<Rightarrow> (string \<times> pa_field) list" where
  "by_name schema = foldl (\<lambda>d f. AList.update (pf_name f) f d) [] schema"

definition validate_table :: "lance_dataset \<Rightarrow> pa_field list \<Rightarrow> string \<Rightarrow> lance_error + unit" where
  "validate_table dataset schema data_storage_version =
     (let expected = by_name schema;
          actual = by_name (ds_schema dataset);
          expected_names = map fst expected
      in rbind (rguard (ds_storage_version dataset = Some data_storage_version) (raised ValueError)) (\<lambda>_.
         rbind (rguard (list_all (\<lambda>n. n \<in> set (map fst actual)) expected_names) (raised ValueError)) (\<lambda>_.
         rbind (rguard (expected_names = filter (\<lambda>n. n \<in> set expected_names) (map fst actual)) (raised ValueError)) (\<lambda>_.
         rbind (rguard (list_all (\<lambda>(n, f). map_of actual n = Some f) expected) (raised ValueError)) (\<lambda>_.
         rguard (list_all (\<lambda>f. pf_name f \<in> set expected_names \<or> pf_nullable f) (ds_schema dataset)) (raised ValueError))))))"

definition open_or_create_table :: "'w lance_store \<Rightarrow> pa_field list \<Rightarrow> string \<Rightarrow> ('w, lance_error, lance_dataset) stm" where
  "open_or_create_table store schema data_storage_version =
     sbind (open_dataset store) (\<lambda>found.
     sbind (case found of
              Some dataset \<Rightarrow> sreturn dataset
            | None \<Rightarrow>
                scatch (ls_create store schema data_storage_version) (\<lambda>e.
                  if fst e = OSError then
                    sbind (open_dataset store) (\<lambda>again. case again of None \<Rightarrow> sraise e | Some dataset \<Rightarrow> sreturn dataset)
                  else sraise e)) (\<lambda>dataset.
     sbind (slift (validate_table dataset schema data_storage_version)) (\<lambda>_. sreturn dataset)))"

section \<open>Staging a fragment\<close>

text \<open>\<^verbatim>\<open>schema.equals\<close> without metadata.\<close>

definition schema_equals :: "pa_field list \<Rightarrow> pa_field list \<Rightarrow> bool" where
  "schema_equals s t \<longleftrightarrow> map (\<lambda>f. (pf_name f, pf_type f, pf_nullable f)) s = map (\<lambda>f. (pf_name f, pf_type f, pf_nullable f)) t"

text \<open>The candidate is the decoded value of the text that a worker hands to the driver.\<close>

definition write_row_fragment ::
  "'w lance_store \<Rightarrow> arrow_table \<Rightarrow> pa_field list \<Rightarrow> string \<Rightarrow> string \<Rightarrow> ('w, lance_error, json option) stm" where
  "write_row_fragment store rows schema id_column data_storage_version =
     (if \<not> schema_equals (at_schema rows) schema then sraise (raised ValueError)
      else if at_rows rows = [] then sreturn None
      else
        let row_ids = map (\<lambda>r. str_of_cell (obj_get r id_column)) (at_rows rows) in
        if \<not> distinct row_ids then sraise (raised ValueError)
        else sbind (ls_write_fragments store rows schema data_storage_version) (\<lambda>fragments.
          if length fragments \<noteq> 1 then sraise (raised RuntimeError)
          else if fr_num_rows (hd fragments) \<noteq> length row_ids then sraise (raised RuntimeError)
          else sreturn (Some (dumps_sorted (JObj [(''fragment'', ls_to_json store (hd fragments)), (''row_ids'', JArr (map JStr row_ids))])))))"

definition parse_candidate :: "'w lance_store \<Rightarrow> json \<Rightarrow> lance_error + fragment \<times> string list" where
  "parse_candidate store candidate =
     (case candidate of
        JObj d \<Rightarrow>
          if \<not> is_dict (obj_get d ''fragment'') then Inl (raised TypeError)
          else (case obj_get d ''row_ids'' of
                  JArr raw \<Rightarrow>
                    if raw = [] \<or> \<not> list_all is_str raw then Inl (raised ValueError)
                    else
                      let row_ids = map str_of_cell raw in
                      if \<not> distinct row_ids then Inl (raised ValueError)
                      else rbind (ls_from_json store (obj_get d ''fragment'')) (\<lambda>fragment.
                        if fr_num_rows fragment \<noteq> length row_ids then Inl (raised ValueError) else Inr (fragment, row_ids))
                | _ \<Rightarrow> Inl (raised ValueError))
      | _ \<Rightarrow> Inl (raised TypeError))"

section \<open>Appending a fragment\<close>

definition sql_string_literal :: "string \<Rightarrow> string" where
  "sql_string_literal v = CHR 0x27 # concat (map (\<lambda>c. if c = CHR 0x27 then [c, c] else [c]) v) @ [CHR 0x27]"

definition in_filter :: "string \<Rightarrow> string list \<Rightarrow> string" where
  "in_filter id_column row_ids = id_column @ '' IN ('' @ py_join '','' (map sql_string_literal row_ids) @ '')''"

definition candidate_presence ::
  "'w lance_store \<Rightarrow> pa_field list \<Rightarrow> string \<Rightarrow> string \<Rightarrow> string list \<Rightarrow> ('w, lance_error, lance_dataset \<times> string list) stm" where
  "candidate_presence store schema id_column data_storage_version row_ids =
     sbind (open_dataset store) (\<lambda>found.
       case found of
         None \<Rightarrow> sraise (raised RuntimeError)
       | Some dataset \<Rightarrow>
           sbind (slift (validate_table dataset schema data_storage_version)) (\<lambda>_.
           sbind (ls_column store dataset id_column (in_filter id_column row_ids)) (\<lambda>committed.
             let committed_ids = map str_of_cell committed in
             if \<not> distinct committed_ids then sraise (raised RuntimeError) else sreturn (dataset, committed_ids))))"

definition COMMIT_RETRY_BACKOFF_FACTOR :: int where "COMMIT_RETRY_BACKOFF_FACTOR = 2"

definition COMMIT_RETRY_MAX_WAIT_S :: int where "COMMIT_RETRY_MAX_WAIT_S = 16"

fun append_loop ::
  "'w lance_store \<Rightarrow> ('w, lance_error, lance_dataset \<times> string list) stm \<Rightarrow> fragment \<Rightarrow> nat \<Rightarrow> nat \<Rightarrow> nat list \<Rightarrow> ('w, lance_error, int) stm" where
  "append_loop store presence fragment rows attempts [] = sraise (raised AssertionError)"
| "append_loop store presence fragment rows attempts (attempt # later) =
     sbind presence (\<lambda>(dataset, present).
       if length present = rows then sreturn (ds_version dataset)
       else if present \<noteq> [] then sraise (raised RuntimeError)
       else (\<lambda>w.
         case ls_commit store (ds_version dataset) fragment w of
           (Inr committed, w1) \<Rightarrow> (Inr committed, w1)
         | (Inl exc, w1) \<Rightarrow>
             if \<not> is_exception exc then (Inl exc, w1)
             else sbind presence (\<lambda>(latest, present).
               if length present = rows then sreturn (ds_version latest)
               else if present \<noteq> [] then sraise (raised RuntimeError)
               else if attempt = attempts then sraise exc
               else (\<lambda>w. append_loop store presence fragment rows attempts later
                 (ls_sleep store (min (COMMIT_RETRY_BACKOFF_FACTOR ^ attempt) COMMIT_RETRY_MAX_WAIT_S) w))) w1))"

definition append_row_fragment ::
  "'w lance_store \<Rightarrow> json \<Rightarrow> pa_field list \<Rightarrow> string \<Rightarrow> string \<Rightarrow> int \<Rightarrow> ('w, lance_error, int) stm" where
  "append_row_fragment store candidate schema id_column data_storage_version attempts =
     (if attempts < 1 then sraise (raised ValueError)
      else sbind (slift (parse_candidate store candidate)) (\<lambda>(fragment, row_ids).
        append_loop store (candidate_presence store schema id_column data_storage_version row_ids) fragment (length row_ids)
          (nat attempts) [1..<nat attempts + 1]))"

section \<open>What the append relies on\<close>

text \<open>A view of the store: the newest version of the table, the identifiers that a version holds, and those of the rows
  in a fragment's files.\<close>

record 'w table_view =
  tv_latest :: "'w \<Rightarrow> int"
  tv_ids :: "'w \<Rightarrow> int \<Rightarrow> string list"
  tv_rows :: "fragment \<Rightarrow> string list"

definition in_scope :: "string set \<Rightarrow> string list \<Rightarrow> string list" where
  "in_scope S xs = filter (\<lambda>x. x \<in> S) xs"

definition current :: "'w table_view \<Rightarrow> 'w \<Rightarrow> string list" where
  "current V w = tv_ids V w (tv_latest V w)"

text \<open>Versions are never rewritten.\<close>

definition history_kept :: "'w table_view \<Rightarrow> 'w \<Rightarrow> 'w \<Rightarrow> bool" where
  "history_kept V w w' \<longleftrightarrow> tv_latest V w \<le> tv_latest V w' \<and> (\<forall>v \<le> tv_latest V w. tv_ids V w' v = tv_ids V w v)"

text \<open>Other writers may change the table, but add and remove no identifier of \<open>S\<close>.\<close>

definition undisturbed :: "'w table_view \<Rightarrow> string set \<Rightarrow> 'w \<Rightarrow> 'w \<Rightarrow> bool" where
  "undisturbed V S w w' \<longleftrightarrow> history_kept V w w' \<and> in_scope S (current V w') = in_scope S (current V w)"

text \<open>What Lance documents: a dataset is a snapshot of the newest version, a filter selects the rows it names, and a
  commit appends all rows of the fragment or none, a commit that raises too. Within \<open>S\<close> nobody else writes.\<close>

definition append_store :: "'w table_view \<Rightarrow> string set \<Rightarrow> 'w lance_store \<Rightarrow> string \<Rightarrow> bool" where
  "append_store V S store id_column \<longleftrightarrow>
     (\<forall>w. undisturbed V S w (snd (ls_dataset store w))) \<and>
     (\<forall>w d. fst (ls_dataset store w) = Inr d \<longrightarrow>
        ds_version d \<le> tv_latest V (snd (ls_dataset store w)) \<and>
        in_scope S (tv_ids V (snd (ls_dataset store w)) (ds_version d)) = in_scope S (current V (snd (ls_dataset store w)))) \<and>
     (\<forall>d c f w. undisturbed V S w (snd (ls_column store d c f w))) \<and>
     (\<forall>d ids w cells. set ids \<subseteq> S \<longrightarrow> ds_version d \<le> tv_latest V w \<longrightarrow>
        fst (ls_column store d id_column (in_filter id_column ids) w) = Inr cells \<longrightarrow>
        mset (map str_of_cell cells) = mset (in_scope (set ids) (tv_ids V w (ds_version d)))) \<and>
     (\<forall>rows s v w. undisturbed V S w (snd (ls_write_fragments store rows s v w))) \<and>
     (\<forall>rows s v w f. fst (ls_write_fragments store rows s v w) = Inr [f] \<longrightarrow>
        tv_rows V f = map (\<lambda>r. str_of_cell (obj_get r id_column)) (at_rows rows)) \<and>
     (\<forall>n w. undisturbed V S w (ls_sleep store n w)) \<and>
     (\<forall>v f w. set (tv_rows V f) \<subseteq> S \<longrightarrow> history_kept V w (snd (ls_commit store v f w)) \<and>
        (case fst (ls_commit store v f w) of
           Inr v' \<Rightarrow> v' \<le> tv_latest V (snd (ls_commit store v f w)) \<and>
             in_scope S (tv_ids V (snd (ls_commit store v f w)) v') = in_scope S (current V (snd (ls_commit store v f w))) \<and>
             in_scope S (current V (snd (ls_commit store v f w))) = in_scope S (current V w) @ tv_rows V f
         | Inl e \<Rightarrow> in_scope S (current V (snd (ls_commit store v f w))) \<in>
             {in_scope S (current V w), in_scope S (current V w) @ tv_rows V f})) \<and>
     (\<forall>f. ls_from_json store (dumps_sorted (ls_to_json store f)) = Inr f \<and> is_dict (ls_to_json store f))"

lemma append_storeD:
  assumes "append_store V S store id_column"
  shows "ls_dataset store w = (r, w') \<Longrightarrow> undisturbed V S w w'"
    and "ls_dataset store w = (Inr d, w') \<Longrightarrow> ds_version d \<le> tv_latest V w' \<and> in_scope S (tv_ids V w' (ds_version d)) = in_scope S (current V w')"
    and "ls_column store d c f w = (rc, w') \<Longrightarrow> undisturbed V S w w'"
    and "ls_column store d id_column (in_filter id_column ids) w = (Inr cells, w') \<Longrightarrow> set ids \<subseteq> S \<Longrightarrow> ds_version d \<le> tv_latest V w \<Longrightarrow>
      mset (map str_of_cell cells) = mset (in_scope (set ids) (tv_ids V w (ds_version d)))"
    and "ls_write_fragments store rows s v w = (rf, w') \<Longrightarrow> undisturbed V S w w'"
    and "ls_write_fragments store rows s v w = (Inr [f'], w') \<Longrightarrow> tv_rows V f' = map (\<lambda>r. str_of_cell (obj_get r id_column)) (at_rows rows)"
    and "undisturbed V S w (ls_sleep store n w)"
    and "ls_commit store k f' w = (rv, w') \<Longrightarrow> set (tv_rows V f') \<subseteq> S \<Longrightarrow> history_kept V w w'"
    and "ls_commit store k f' w = (Inr v', w') \<Longrightarrow> set (tv_rows V f') \<subseteq> S \<Longrightarrow> v' \<le> tv_latest V w' \<and>
      in_scope S (tv_ids V w' v') = in_scope S (current V w') \<and> in_scope S (current V w') = in_scope S (current V w) @ tv_rows V f'"
    and "ls_commit store k f' w = (Inl e, w') \<Longrightarrow> set (tv_rows V f') \<subseteq> S \<Longrightarrow>
      in_scope S (current V w') \<in> {in_scope S (current V w), in_scope S (current V w) @ tv_rows V f'}"
    and "ls_from_json store (dumps_sorted (ls_to_json store f')) = Inr f'" and "is_dict (ls_to_json store f')"
proof -
  note laws = assms [unfolded append_store_def]
  note rest = laws [THEN conjunct2] note rest2 = rest [THEN conjunct2] note rest3 = rest2 [THEN conjunct2]
  note rest4 = rest3 [THEN conjunct2] note rest5 = rest4 [THEN conjunct2] note rest6 = rest5 [THEN conjunct2]
  note rest7 = rest6 [THEN conjunct2] note rest8 = rest7 [THEN conjunct2]
  show "ls_dataset store w = (r, w') \<Longrightarrow> undisturbed V S w w'"
    using laws [THEN conjunct1, rule_format, of w] by simp
  show "ls_dataset store w = (Inr d, w') \<Longrightarrow> ds_version d \<le> tv_latest V w' \<and> in_scope S (tv_ids V w' (ds_version d)) = in_scope S (current V w')"
    using rest [THEN conjunct1, rule_format, of w d] by simp
  show "ls_column store d c f w = (rc, w') \<Longrightarrow> undisturbed V S w w'"
    using rest2 [THEN conjunct1, rule_format, where d = d and w = w and c = c and f = f] by simp
  show "ls_column store d id_column (in_filter id_column ids) w = (Inr cells, w') \<Longrightarrow> set ids \<subseteq> S \<Longrightarrow> ds_version d \<le> tv_latest V w \<Longrightarrow>
      mset (map str_of_cell cells) = mset (in_scope (set ids) (tv_ids V w (ds_version d)))"
    using rest3 [THEN conjunct1, rule_format, of ids d w cells] by simp
  show "ls_write_fragments store rows s v w = (rf, w') \<Longrightarrow> undisturbed V S w w'"
    using rest4 [THEN conjunct1, rule_format, where rows = rows and s = s and v = v and w = w] by simp
  show "ls_write_fragments store rows s v w = (Inr [f'], w') \<Longrightarrow> tv_rows V f' = map (\<lambda>r. str_of_cell (obj_get r id_column)) (at_rows rows)"
    using rest5 [THEN conjunct1, rule_format, where rows = rows and s = s and v = v and w = w and f = f'] by simp
  show "undisturbed V S w (ls_sleep store n w)" using rest6 [THEN conjunct1] by simp
  note commit = rest7 [THEN conjunct1, rule_format, where v = k and f = f' and w = w]
  show "ls_commit store k f' w = (rv, w') \<Longrightarrow> set (tv_rows V f') \<subseteq> S \<Longrightarrow> history_kept V w w'" using commit by simp
  show "ls_commit store k f' w = (Inr v', w') \<Longrightarrow> set (tv_rows V f') \<subseteq> S \<Longrightarrow> v' \<le> tv_latest V w' \<and>
      in_scope S (tv_ids V w' v') = in_scope S (current V w') \<and> in_scope S (current V w') = in_scope S (current V w) @ tv_rows V f'"
    using commit by simp
  show "ls_commit store k f' w = (Inl e, w') \<Longrightarrow> set (tv_rows V f') \<subseteq> S \<Longrightarrow>
      in_scope S (current V w') \<in> {in_scope S (current V w), in_scope S (current V w) @ tv_rows V f'}"
    using commit by simp
  show "ls_from_json store (dumps_sorted (ls_to_json store f')) = Inr f'" "is_dict (ls_to_json store f')" using rest8 by simp_all
qed

section \<open>Facts\<close>

lemma undisturbed_trans: "undisturbed V S w w1 \<Longrightarrow> undisturbed V S w1 w2 \<Longrightarrow> undisturbed V S w w2"
  by (force simp: undisturbed_def history_kept_def)

lemma undisturbed_refl [simp]: "undisturbed V S w w"
  by (simp add: undisturbed_def history_kept_def)

lemma history_kept_trans: "history_kept V w w1 \<Longrightarrow> history_kept V w1 w2 \<Longrightarrow> history_kept V w w2"
  by (force simp: history_kept_def)

lemma in_scope_within: "T \<subseteq> S \<Longrightarrow> in_scope T (in_scope S xs) = in_scope T xs"
  by (induction xs) (auto simp: in_scope_def)

lemma in_scope_append [simp]: "in_scope S (xs @ ys) = in_scope S xs @ in_scope S ys"
  by (simp add: in_scope_def)

lemma in_scope_all: "set xs \<subseteq> S \<Longrightarrow> in_scope S xs = xs"
  by (auto simp: in_scope_def intro!: filter_True)

text \<open>The dataset a presence check has seen holds, within \<open>S\<close>, what the newest version holds.\<close>

lemma open_dataset_result:
  assumes "append_store V S store id_column" and "open_dataset store w = (r, w')"
  shows "undisturbed V S w w'"
    and "r = Inr (Some d) \<Longrightarrow> ds_version d \<le> tv_latest V w' \<and> in_scope S (tv_ids V w' (ds_version d)) = in_scope S (current V w')"
proof -
  obtain r0 w0 where call: "ls_dataset store w = (r0, w0)" by (cases "ls_dataset store w")
  then have w0: "w0 = w'" and r: "r = Inr (Some d) \<Longrightarrow> r0 = Inr d"
    using assms(2) by (auto simp: open_dataset_def split: sum.splits if_splits prod.splits)
  from append_storeD(1) [OF assms(1) call] show "undisturbed V S w w'" by (simp only: w0)
  assume "r = Inr (Some d)"
  then show "ds_version d \<le> tv_latest V w' \<and> in_scope S (tv_ids V w' (ds_version d)) = in_scope S (current V w')"
    using append_storeD(2) [OF assms(1), of w d w0] call r w0 by simp
qed

lemma candidate_presence_result:
  assumes store: "append_store V S store id_column" and "set ids \<subseteq> S"
    and call: "candidate_presence store schema id_column dsv ids w = (r, w')"
  shows "undisturbed V S w w'"
    and "r = Inr (d, present) \<Longrightarrow> ds_version d \<le> tv_latest V w' \<and> in_scope S (tv_ids V w' (ds_version d)) = in_scope S (current V w') \<and>
      mset present = mset (in_scope (set ids) (current V w'))"
proof -
  obtain r1 w1 where o: "open_dataset store w = (r1, w1)" by (cases "open_dataset store w")
  note opened = open_dataset_result [OF store o]
  obtain r2 w2 where c2: "ls_column store (the (projr r1)) id_column (in_filter id_column ids) w1 = (r2, w2)"
    by (meson surj_pair)
  then have c: "ls_column store d1 id_column (in_filter id_column ids) w1 = (r2, w2)" if "r1 = Inr (Some d1)" for d1
    using that by simp
  have w': "w' = w1 \<or> (\<exists>d1. r1 = Inr (Some d1) \<and> w' = w2)"
    using call by (auto simp: candidate_presence_def sbind_def sraise_def sreturn_def slift_def o c Let_def
        split: sum.splits prod.splits option.splits if_splits)
  then show "undisturbed V S w w'"
    using opened(1) undisturbed_trans [OF opened(1) append_storeD(3) [OF store c]] by auto
  assume r: "r = Inr (d, present)"
  then obtain cells where cells: "r1 = Inr (Some d)" "r2 = Inr cells" "present = map str_of_cell cells" "w' = w2"
    using call by (auto simp: candidate_presence_def o c Let_def result_simps split: option.splits if_splits)
  note read = c [OF cells(1), unfolded cells(2)]
  have seen: "ds_version d \<le> tv_latest V w1" "in_scope S (tv_ids V w1 (ds_version d)) = in_scope S (current V w1)"
    using opened(2) cells(1) by auto
  have after: "undisturbed V S w1 w'" using append_storeD(3) [OF store read] cells(4) by simp
  then have same: "tv_ids V w' (ds_version d) = tv_ids V w1 (ds_version d)" "ds_version d \<le> tv_latest V w'"
    using seen(1) by (auto simp: undisturbed_def history_kept_def)
  have "mset present = mset (in_scope (set ids) (tv_ids V w1 (ds_version d)))"
    using append_storeD(4) [OF store read assms(2) seen(1)] cells(3) by simp
  also have "in_scope (set ids) (tv_ids V w1 (ds_version d)) = in_scope (set ids) (current V w')"
    using after seen(2) in_scope_within [OF assms(2)] by (metis undisturbed_def)
  finally show "ds_version d \<le> tv_latest V w' \<and> in_scope S (tv_ids V w' (ds_version d)) = in_scope S (current V w') \<and>
      mset present = mset (in_scope (set ids) (current V w'))"
    using same seen(2) after by (simp add: undisturbed_def)
qed

text \<open>The effect of an append: the identifiers are added once, or were there, or nothing happened.\<close>

definition added_once :: "'w table_view \<Rightarrow> string set \<Rightarrow> string list \<Rightarrow> 'w \<Rightarrow> 'w \<Rightarrow> bool" where
  "added_once V S ids w w' \<longleftrightarrow> history_kept V w w' \<and>
     (in_scope S (current V w') = in_scope S (current V w) \<or>
      in_scope (set ids) (current V w) = [] \<and> in_scope S (current V w') = in_scope S (current V w) @ ids)"

definition holds_at :: "'w table_view \<Rightarrow> string set \<Rightarrow> string list \<Rightarrow> 'w \<Rightarrow> int \<Rightarrow> bool" where
  "holds_at V S ids w v \<longleftrightarrow> v \<le> tv_latest V w \<and> in_scope (set ids) (current V w) = ids \<and>
     in_scope S (tv_ids V w v) = in_scope S (current V w)"

lemma undisturbed_added: "undisturbed V S w w' \<Longrightarrow> added_once V S ids w w'"
  by (simp add: undisturbed_def added_once_def)

lemma undisturbed_scope: "undisturbed V S w w' \<Longrightarrow> T \<subseteq> S \<Longrightarrow> in_scope T (current V w') = in_scope T (current V w)"
  using in_scope_within [of T S "current V w"] in_scope_within [of T S "current V w'"] by (simp add: undisturbed_def)

lemma added_once_trans:
  assumes "added_once V S ids w w1" "added_once V S ids w1 w2" "set ids \<subseteq> S"
  shows "added_once V S ids w w2"
proof -
  have kept: "history_kept V w w2" using assms(1,2) history_kept_trans [of V w w1 w2] by (simp add: added_once_def)
  have scope: "in_scope (set ids) (current V x) = in_scope (set ids) (in_scope S (current V x))" for x
    by (simp add: in_scope_within [OF assms(3)])
  from assms(1) consider "in_scope S (current V w1) = in_scope S (current V w)"
    | "in_scope (set ids) (current V w) = []" "in_scope S (current V w1) = in_scope S (current V w) @ ids"
    unfolding added_once_def by blast
  then show ?thesis
  proof cases
    case 1
    then show ?thesis using assms(2) kept unfolding added_once_def scope [of w] scope [of w1] by (auto simp: 1)
  next
    case 2
    then have "in_scope (set ids) (current V w1) = ids" unfolding scope [of w] scope [of w1] by (simp add: in_scope_all)
    then show ?thesis using 2 assms(2) kept unfolding added_once_def by auto
  qed
qed

text \<open>All of a fragment's rows are in the table, or none is.\<close>

definition all_or_none :: "'w table_view \<Rightarrow> string list \<Rightarrow> 'w \<Rightarrow> bool" where
  "all_or_none V ids w \<longleftrightarrow> in_scope (set ids) (current V w) = [] \<or> in_scope (set ids) (current V w) = ids"

lemma added_scope:
  assumes "added_once V S ids w w'" "set ids \<subseteq> S"
  shows "in_scope (set ids) (current V w') = in_scope (set ids) (current V w) \<or>
    in_scope (set ids) (current V w) = [] \<and> in_scope (set ids) (current V w') = ids"
proof -
  have "in_scope (set ids) (current V x) = in_scope (set ids) (in_scope S (current V x))" for x
    by (simp add: in_scope_within [OF assms(2)])
  then show ?thesis using assms(1) unfolding added_once_def by (metis append_Nil in_scope_all in_scope_append order_refl)
qed

lemma all_or_none_added: "added_once V S ids w w' \<Longrightarrow> set ids \<subseteq> S \<Longrightarrow> all_or_none V ids w \<Longrightarrow> all_or_none V ids w'"
  using added_scope [of V S ids w w'] by (auto simp: all_or_none_def)

lemma presence_sees:
  assumes "append_store V S store id_column" "set ids \<subseteq> S" "ids \<noteq> []" "all_or_none V ids w"
    and call: "candidate_presence store schema id_column dsv ids w = (Inr (d, present), w1)"
  shows "if length present = length ids then holds_at V S ids w1 (ds_version d)
    else present = [] \<and> in_scope (set ids) (current V w1) = []"
proof -
  note seen = candidate_presence_result [OF assms(1,2) call]
  have "all_or_none V ids w1" using all_or_none_added [OF undisturbed_added [OF seen(1)] assms(2,4)] .
  moreover have "length present = length (in_scope (set ids) (current V w1))" using seen(2) by (metis size_mset)
  ultimately show ?thesis using seen(2) assms(3) by (auto simp: all_or_none_def holds_at_def)
qed

lemma commit_adds:
  assumes store: "append_store V S store id_column" and "set ids \<subseteq> S" "tv_rows V f = ids"
    and "in_scope (set ids) (current V w) = []" and call: "ls_commit store k f w = (r, w')"
  shows "added_once V S ids w w'" and "r = Inr v \<Longrightarrow> holds_at V S ids w' v"
proof -
  have rows: "set (tv_rows V f) \<subseteq> S" by (simp add: assms(2,3))
  note kept = append_storeD(8) [OF store call rows]
  show "added_once V S ids w w'"
  proof (cases r)
    case (Inl e)
    show ?thesis using append_storeD(10) [OF store call [unfolded Inl] rows] kept assms(3,4) by (auto simp: added_once_def)
  next
    case (Inr v)
    show ?thesis using append_storeD(9) [OF store call [unfolded Inr] rows] kept assms(3,4) by (simp add: added_once_def)
  qed
  assume "r = Inr v"
  then have post: "v \<le> tv_latest V w'" "in_scope S (tv_ids V w' v) = in_scope S (current V w')"
    "in_scope S (current V w') = in_scope S (current V w) @ ids"
    using append_storeD(9) [OF store _ rows] call assms(3) by auto
  have "in_scope (set ids) (current V w') = in_scope (set ids) (in_scope S (current V w) @ ids)"
    by (simp add: in_scope_within [OF assms(2)] flip: post(3))
  then show "holds_at V S ids w' v"
    using post(1,2) assms(4) by (simp add: holds_at_def in_scope_within [OF assms(2)] in_scope_all)
qed

lemma append_loop_once:
  assumes store: "append_store V S store id_column" and ids: "set ids \<subseteq> S" "ids \<noteq> []" and rows: "tv_rows V f = ids"
    and "all_or_none V ids w"
    and "append_loop store (candidate_presence store schema id_column dsv ids) f (length ids) attempts later w = (r, w')"
  shows "added_once V S ids w w' \<and> (\<forall>v. r = Inr v \<longrightarrow> holds_at V S ids w' v)"
  using assms(5,6)
proof (induction later arbitrary: w)
  case Nil
  then show ?case by (auto simp: sraise_def undisturbed_added)
next
  case (Cons attempt later)
  let ?presence = "candidate_presence store schema id_column dsv ids"
  note trans = added_once_trans [OF _ _ ids(1)]
  obtain r1 w1 where p1: "?presence w = (r1, w1)" by (cases "?presence w")
  have a1: "added_once V S ids w w1" using undisturbed_added [OF candidate_presence_result(1) [OF store ids(1) p1]] .
  show ?case
  proof (cases "\<exists>d. r1 = Inr (d, [])")
    case False
    then have "w' = w1 \<and> (\<forall>v. r = Inr v \<longrightarrow> holds_at V S ids w' v)"
      using Cons.prems(2) p1 ids(2) presence_sees [OF store ids Cons.prems(1)]
      by (cases r1) (auto simp: sbind_def sreturn_def sraise_def split: if_splits)
    then show ?thesis using a1 by auto
  next
    case True
    then obtain d where d: "r1 = Inr (d, [])" by blast
    have none: "in_scope (set ids) (current V w1) = []"
      using presence_sees [OF store ids Cons.prems(1) p1 [unfolded d]] ids(2) by simp
    obtain r2 w2 where c: "ls_commit store (ds_version d) f w1 = (r2, w2)" by (cases "ls_commit store (ds_version d) f w1")
    note added = commit_adds [OF store ids(1) rows none c]
    have a2: "added_once V S ids w w2" using trans [OF a1 added(1)] .
    show ?thesis
    proof (cases "\<exists>e. r2 = Inl e \<and> is_exception e")
      case False
      then have "w' = w2 \<and> r = r2"
        using Cons.prems(2) p1 d c ids(2) by (auto simp: sbind_def split: sum.splits)
      then show ?thesis using a2 added(2) by auto
    next
      case True
      then obtain e where e: "r2 = Inl e" "is_exception e" by blast
      have state2: "all_or_none V ids w2" using all_or_none_added [OF a2 ids(1) Cons.prems(1)] .
      obtain r3 w3 where p3: "?presence w2 = (r3, w3)" by (cases "?presence w2")
      have a3: "added_once V S ids w w3"
        using trans [OF a2 undisturbed_added [OF candidate_presence_result(1) [OF store ids(1) p3]]] .
      show ?thesis
      proof (cases "(\<exists>d. r3 = Inr (d, [])) \<and> attempt \<noteq> attempts")
        case False
        then have "w' = w3 \<and> (\<forall>v. r = Inr v \<longrightarrow> holds_at V S ids w' v)"
          using Cons.prems(2) p1 d c e p3 ids(2) presence_sees [OF store ids state2]
          by (cases r3) (auto simp: sbind_def sreturn_def sraise_def split: if_splits)
        then show ?thesis using a3 by auto
      next
        case True
        let ?slept = "ls_sleep store (min (COMMIT_RETRY_BACKOFF_FACTOR ^ attempt) COMMIT_RETRY_MAX_WAIT_S) w3"
        have a4: "added_once V S ids w ?slept" using trans [OF a3 undisturbed_added [OF append_storeD(7) [OF store]]] .
        have "append_loop store ?presence f (length ids) attempts later ?slept = (r, w')"
          using True Cons.prems(2) p1 d c e p3 ids(2) by (auto simp: sbind_def)
        from Cons.IH [OF all_or_none_added [OF a4 ids(1) Cons.prems(1)] this]
        show ?thesis using trans [OF a4] by blast
      qed
    qed
  qed
qed

lemma all_or_none_history: "holds_at V S ids w v \<Longrightarrow> set ids \<subseteq> S \<Longrightarrow> history_kept V w w' \<Longrightarrow>
    v \<le> tv_latest V w' \<and> in_scope (set ids) (tv_ids V w' v) = ids"
proof -
  assume h: "holds_at V S ids w v" "set ids \<subseteq> S" "history_kept V w w'"
  have "in_scope (set ids) (tv_ids V w v) = in_scope (set ids) (in_scope S (tv_ids V w v))"
    by (simp add: in_scope_within [OF h(2)])
  also have "\<dots> = in_scope (set ids) (current V w)" using h(1) by (simp add: holds_at_def in_scope_within [OF h(2)])
  finally show ?thesis using h(1,3) by (auto simp: holds_at_def history_kept_def)
qed

text \<open>What a worker stages, the driver reads back.\<close>

lemma parse_staged:
  assumes "append_store V S store id_column" "ids \<noteq> []" "distinct ids" "fr_num_rows f = length ids"
  shows "parse_candidate store (dumps_sorted (JObj [(''fragment'', ls_to_json store f), (''row_ids'', JArr (map JStr ids))])) = Inr (f, ids)"
proof -
  obtain d where d: "ls_to_json store f = JObj d" using append_storeD(12) [OF assms(1), of f] by (cases "ls_to_json store f") auto
  have sorted: "sort_key fst [(''fragment'', x), (''row_ids'', y)] = [(''fragment'', x), (''row_ids'', y)]" for x y :: json
    by (simp add: insort_key_def)
  have "dumps_sorted (JObj [(''fragment'', ls_to_json store f), (''row_ids'', JArr (map JStr ids))]) =
      JObj [(''fragment'', dumps_sorted (ls_to_json store f)), (''row_ids'', JArr (map JStr ids))]"
    by (simp add: sorted comp_def)
  moreover have "list_all is_str (map JStr ids)" "map str_of_cell (map JStr ids) = ids"
    by (simp_all add: list_all_iff comp_def)
  ultimately show ?thesis
    using assms(2-4) append_storeD(11) [OF assms(1), of f] by (simp add: parse_candidate_def obj_get_def d comp_def)
qed

abbreviation ids_of :: "string \<Rightarrow> arrow_table \<Rightarrow> string list" where
  "ids_of id_column rows \<equiv> map (\<lambda>r. str_of_cell (obj_get r id_column)) (at_rows rows)"

lemma write_row_fragment_result:
  assumes store: "append_store V S store id_column" and call: "write_row_fragment store rows schema id_column dsv w = (r, w')"
  shows "undisturbed V S w w'"
    and "r = Inr (Some candidate) \<Longrightarrow> ids_of id_column rows \<noteq> [] \<and> distinct (ids_of id_column rows) \<and>
      (\<exists>f. parse_candidate store candidate = Inr (f, ids_of id_column rows) \<and> tv_rows V f = ids_of id_column rows)"
    and "r = Inr None \<Longrightarrow> at_rows rows = []"
proof -
  obtain r1 w1 where wf: "ls_write_fragments store rows schema dsv w = (r1, w1)" by (cases "ls_write_fragments store rows schema dsv w")
  have "w' = w \<or> w' = w1"
    using call wf by (auto simp: write_row_fragment_def Let_def sbind_def sraise_def sreturn_def split: if_splits sum.splits)
  then show "undisturbed V S w w'" using append_storeD(5) [OF store wf] by auto
  show "r = Inr None \<Longrightarrow> at_rows rows = []"
    using call by (auto simp: write_row_fragment_def Let_def result_simps split: if_splits)
  assume r: "r = Inr (Some candidate)"
  then obtain f where f: "r1 = Inr [f]" "fr_num_rows f = length (ids_of id_column rows)" "at_rows rows \<noteq> []" "distinct (ids_of id_column rows)"
    "candidate = dumps_sorted (JObj [(''fragment'', ls_to_json store f), (''row_ids'', JArr (map JStr (ids_of id_column rows)))])"
    using call wf by (auto simp: write_row_fragment_def Let_def result_simps length_Suc_conv split: if_splits)
  then show "ids_of id_column rows \<noteq> [] \<and> distinct (ids_of id_column rows) \<and>
      (\<exists>f. parse_candidate store candidate = Inr (f, ids_of id_column rows) \<and> tv_rows V f = ids_of id_column rows)"
    using parse_staged [OF store _ f(4,2)] append_storeD(6) [OF store wf [unfolded f(1)]] by simp
qed

lemma append_row_fragment_once:
  assumes "append_store V S store id_column" "set ids \<subseteq> S" "ids \<noteq> []" "parse_candidate store candidate = Inr (f, ids)" "tv_rows V f = ids"
    and "all_or_none V ids w" "append_row_fragment store candidate schema id_column dsv attempts w = (r, w')"
  shows "added_once V S ids w w' \<and> (\<forall>v. r = Inr v \<longrightarrow> holds_at V S ids w' v)"
proof (cases "attempts < 1")
  case True
  then show ?thesis using assms(7) by (auto simp: append_row_fragment_def sraise_def undisturbed_added)
next
  case False
  then have "append_loop store (candidate_presence store schema id_column dsv ids) f (length ids) (nat attempts) [1..<nat attempts + 1] w = (r, w')"
    using assms(4,7) by (simp add: append_row_fragment_def sbind_def slift_def)
  then show ?thesis by (rule append_loop_once [OF assms(1-3,5,6)])
qed

text \<open>A candidate appended again and again, whatever became of the calls before.\<close>

fun append_calls ::
  "'w lance_store \<Rightarrow> json \<Rightarrow> pa_field list \<Rightarrow> string \<Rightarrow> string \<Rightarrow> int list \<Rightarrow> 'w \<Rightarrow> (lance_error + int) list \<times> 'w" where
  "append_calls store candidate schema id_column dsv [] w = ([], w)"
| "append_calls store candidate schema id_column dsv (attempts # calls) w =
     (let (r, w1) = append_row_fragment store candidate schema id_column dsv attempts w;
          (rs, w2) = append_calls store candidate schema id_column dsv calls w1
      in (r # rs, w2))"

lemma append_calls_once:
  assumes "append_store V S store id_column" "set ids \<subseteq> S" "ids \<noteq> []" "parse_candidate store candidate = Inr (f, ids)" "tv_rows V f = ids"
    and "all_or_none V ids w" "append_calls store candidate schema id_column dsv calls w = (rs, w')"
  shows "added_once V S ids w w' \<and>
    (\<forall>v. Inr v \<in> set rs \<longrightarrow> in_scope (set ids) (current V w') = ids \<and> v \<le> tv_latest V w' \<and> in_scope (set ids) (tv_ids V w' v) = ids)"
  using assms(6,7)
proof (induction calls arbitrary: w rs)
  case Nil
  then show ?case by (simp add: undisturbed_added)
next
  case (Cons attempts calls)
  obtain r w1 where r: "append_row_fragment store candidate schema id_column dsv attempts w = (r, w1)"
    by (cases "append_row_fragment store candidate schema id_column dsv attempts w")
  obtain rs1 where rs: "append_calls store candidate schema id_column dsv calls w1 = (rs1, w')" "rs = r # rs1"
    using Cons.prems(2) r by (auto split: prod.splits)
  note first = append_row_fragment_once [OF assms(1-5) Cons.prems(1) r]
  note later = Cons.IH [OF all_or_none_added [OF _ assms(2) Cons.prems(1)] rs(1)]
  have later: "added_once V S ids w1 w'"
    "\<And>v. Inr v \<in> set rs1 \<Longrightarrow> in_scope (set ids) (current V w') = ids \<and> v \<le> tv_latest V w' \<and> in_scope (set ids) (tv_ids V w' v) = ids"
    using later first by blast+
  have "in_scope (set ids) (current V w') = ids \<and> v \<le> tv_latest V w' \<and> in_scope (set ids) (tv_ids V w' v) = ids" if "r = Inr v" for v
  proof -
    have h: "holds_at V S ids w1 v" using first that by blast
    moreover have "history_kept V w1 w'" using later(1) by (simp add: added_once_def)
    moreover have "in_scope (set ids) (current V w') = ids"
      using added_scope [OF later(1) assms(2)] h by (auto simp: holds_at_def)
    ultimately show ?thesis using all_or_none_history [OF h assms(2)] by blast
  qed
  then show ?case using later first added_once_trans [OF _ later(1) assms(2)] rs(2) by auto
qed

text \<open>C4: Rows staged by a worker enter the table at most once and all together, however often their append is repeated
  and whichever commits report an error although they took place; a version that an append returns holds all of
  them.\<close>
theorem staged_rows_appended_once:
  assumes "append_store V S store id_column"
    and "write_row_fragment store rows schema id_column dsv w = (Inr (Some candidate), w0)"
    and "ids = map (\<lambda>r. str_of_cell (obj_get r id_column)) (at_rows rows)" and "set ids \<subseteq> S" and "in_scope (set ids) (current V w) = []"
    and "append_calls store candidate schema id_column dsv calls w0 = (rs, w')"
  shows "(in_scope S (current V w') = in_scope S (current V w) \<or> in_scope S (current V w') = in_scope S (current V w) @ ids) \<and>
    (\<forall>v. Inr v \<in> set rs \<longrightarrow> in_scope (set ids) (current V w') = ids \<and> v \<le> tv_latest V w' \<and> in_scope (set ids) (tv_ids V w' v) = ids)"
proof -
  note staged = write_row_fragment_result [OF assms(1,2)]
  obtain f where f: "ids \<noteq> []" "parse_candidate store candidate = Inr (f, ids)" "tv_rows V f = ids"
    using staged(2) assms(3) by auto
  have "all_or_none V ids w0"
    using undisturbed_scope [OF staged(1) assms(4)] assms(5) by (simp add: all_or_none_def)
  from append_calls_once [OF assms(1,4) f this assms(6)] show ?thesis
    using staged(1) by (auto simp: added_once_def undisturbed_def)
qed

section \<open>The filter text\<close>

text \<open>How SQL reads the list of literals: a doubled quote is a quote of the value, a single one ends it.\<close>

fun sql_items :: "string option \<Rightarrow> string \<Rightarrow> string list option" where
  "sql_items None (c # cs) = (if c = CHR 0x27 then sql_items (Some []) cs else None)"
| "sql_items (Some acc) (c # d # cs) =
     (if c \<noteq> CHR 0x27 then sql_items (Some (c # acc)) (d # cs)
      else if d = CHR 0x27 then sql_items (Some (d # acc)) cs
      else if d = CHR '','' then map_option (Cons (rev acc)) (sql_items None cs)
      else if d = CHR '')'' \<and> cs = [] then Some [rev acc] else None)"
| "sql_items _ _ = None"

definition sql_in_filter :: "string \<Rightarrow> string \<Rightarrow> string list option" where
  "sql_in_filter id_column text =
     (let opening = id_column @ '' IN ('' in if prefix opening text then sql_items None (drop (length opening) text) else None)"

lemma sql_items_literal:
  assumes "c = CHR '','' \<or> c = CHR '')'' \<and> cs = []"
  shows "sql_items (Some acc) (concat (map (\<lambda>c. if c = CHR 0x27 then [c, c] else [c]) v) @ [CHR 0x27] @ c # cs) =
    (if c = CHR '','' then map_option (Cons (rev acc @ v)) (sql_items None cs) else Some [rev acc @ v])"
proof (induction v arbitrary: acc)
  case Nil
  then show ?case using assms by auto
next
  case (Cons x v)
  show ?case
  proof (cases "x = CHR 0x27")
    case True
    then show ?thesis using Cons [of "x # acc"] by simp
  next
    case False
    obtain y ys where "concat (map (\<lambda>c. if c = CHR 0x27 then [c, c] else [c]) v) @ [CHR 0x27] @ c # cs = y # ys"
      by (cases "concat (map (\<lambda>c. if c = CHR 0x27 then [c, c] else [c]) v)") auto
    then show ?thesis using False Cons [of "x # acc"] by simp
  qed
qed

lemma sql_items_join: "ids \<noteq> [] \<Longrightarrow> sql_items None (py_join '','' (map sql_string_literal ids) @ '')'') = Some ids"
proof (induction ids rule: induct_list012)
  case (2 v)
  show ?case using sql_items_literal [of "CHR '')''" "[]" "[]" v] by (simp add: sql_string_literal_def)
next
  case (3 v v' ids)
  then show ?case
    using sql_items_literal [of "CHR '',''" "py_join '','' (map sql_string_literal (v' # ids)) @ '')''" "[]" v]
    by (simp add: sql_string_literal_def [of v])
qed simp

text \<open>The filter names exactly the candidates, whatever characters they are made of.\<close>

lemma in_filter_names_candidates: "ids \<noteq> [] \<Longrightarrow> sql_in_filter id_column (in_filter id_column ids) = Some ids"
  using sql_items_join [of ids] by (simp add: sql_in_filter_def in_filter_def Let_def)

lemma sql_in_filter_none: "sql_in_filter id_column (in_filter id_column []) = None"
  by (simp add: sql_in_filter_def in_filter_def Let_def)

section \<open>A table in memory\<close>

text \<open>The versions of a table, and what becomes of the commits to come: each takes place or not, and is answered or
  not.\<close>

record table_world =
  tw_versions :: "string list list"
  tw_commits :: "(bool \<times> bool) list"

definition newest :: "table_world \<Rightarrow> string list" where
  "newest w = (if tw_versions w = [] then [] else last (tw_versions w))"

definition memory_view :: "table_world table_view" where
  "memory_view = \<lparr>tv_latest = \<lambda>w. int (length (tw_versions w)),
     tv_ids = \<lambda>w v. if 0 < v \<and> v \<le> int (length (tw_versions w)) then tw_versions w ! (nat v - 1) else [], tv_rows = fr_files\<rparr>"

definition memory_commit :: "fragment \<Rightarrow> (table_world, lance_error, int) stm" where
  "memory_commit f w =
     (let (happens, answered, later) = (case tw_commits w of [] \<Rightarrow> (True, True, []) | (h, a) # later \<Rightarrow> (h, a, later));
          versions = (if happens then tw_versions w @ [newest w @ fr_files f] else tw_versions w)
      in (if happens \<and> answered then Inr (int (length versions)) else Inl (raised OSError),
          \<lparr>tw_versions = versions, tw_commits = later\<rparr>))"

definition memory_store :: "string \<Rightarrow> string \<Rightarrow> pa_field list \<Rightarrow> table_world lance_store" where
  "memory_store id_column storage_version schema =
     (let opened = (\<lambda>w. (Inr \<lparr>ds_version = int (length (tw_versions w)), ds_storage_version = Some storage_version, ds_schema = schema\<rparr>, w))
      in \<lparr>ls_dataset = opened, ls_create = (\<lambda>_ _. opened),
          ls_column = (\<lambda>d c text w. (Inr (map JStr (case sql_in_filter c text of None \<Rightarrow> []
            | Some ids \<Rightarrow> filter (\<lambda>x. x \<in> set ids) (tv_ids memory_view w (ds_version d)))), w)),
          ls_count_rows = (\<lambda>_ _. sreturn 0),
          ls_scan = (\<lambda>d _ w. (Inr [map (\<lambda>x. [(id_column, JStr x)]) (tv_ids memory_view w (ds_version d))], w)),
          ls_from_pylist = (\<lambda>rows s. Inr \<lparr>at_schema = s, at_rows = rows\<rparr>),
          ls_write_fragments = (\<lambda>rows _ _. sreturn [\<lparr>fr_files = ids_of id_column rows, fr_num_rows = length (at_rows rows)\<rparr>]),
          ls_commit = (\<lambda>_. memory_commit), ls_sleep = (\<lambda>_ w. w),
          ls_to_json = (\<lambda>f. JObj [(''files'', JArr (map JStr (fr_files f))), (''rows'', JInt (int (fr_num_rows f)))]),
          ls_from_json = (\<lambda>j. case j of JObj d \<Rightarrow>
              (case obj_get d ''files'' of JArr files \<Rightarrow> Inr \<lparr>fr_files = map str_of_cell files, fr_num_rows = nat (int_of_json (obj_get d ''rows''))\<rparr>
               | _ \<Rightarrow> Inl (raised TypeError))
            | _ \<Rightarrow> Inl (raised TypeError))\<rparr>)"

lemma current_memory: "current memory_view w = newest w"
  by (auto simp: current_def memory_view_def newest_def last_conv_nth nat_diff_distrib)

lemma in_scope_Nil: "in_scope S [] = []"
  by (simp add: in_scope_def)

lemma tv_rows_memory: "tv_rows memory_view = fr_files"
  by (simp add: memory_view_def)

lemma memory_commit_law:
  "history_kept memory_view w (snd (memory_commit f w)) \<and>
   (case fst (memory_commit f w) of
      Inr v' \<Rightarrow> v' \<le> tv_latest memory_view (snd (memory_commit f w)) \<and>
        in_scope S (tv_ids memory_view (snd (memory_commit f w)) v') = in_scope S (newest (snd (memory_commit f w))) \<and>
        in_scope S (newest (snd (memory_commit f w))) = in_scope S (newest w) @ in_scope S (fr_files f)
    | Inl e \<Rightarrow> in_scope S (newest (snd (memory_commit f w))) \<in> {in_scope S (newest w), in_scope S (newest w) @ in_scope S (fr_files f)})"
  by (auto simp: memory_commit_def Let_def history_kept_def memory_view_def newest_def nth_append nat_less_iff Suc_le_eq in_scope_Nil
      split: list.splits prod.splits)

lemma memory_store_appends: "append_store memory_view S (memory_store id_column storage_version schema) id_column"
proof -
  have sorted: "sort_key fst [(''files'', x), (''rows'', y)] = [(''files'', x), (''rows'', y)]" for x y :: json
    by (simp add: insort_key_def)
  have column: "mset (map str_of_cell (map JStr (case sql_in_filter id_column (in_filter id_column ids) of None \<Rightarrow> []
      | Some ids \<Rightarrow> filter (\<lambda>x. x \<in> set ids) xs))) = mset (in_scope (set ids) xs)" for ids xs
    by (cases "ids = []") (simp_all add: in_filter_names_candidates sql_in_filter_none in_scope_def comp_def)
  have still: "undisturbed memory_view S w w" for w by simp
  show ?thesis
    unfolding append_store_def
  proof (intro conjI allI impI)
    fix v w and f :: fragment
    assume "set (tv_rows memory_view f) \<subseteq> S"
    then have "in_scope S (fr_files f) = fr_files f" by (simp add: tv_rows_memory in_scope_all)
    then show "history_kept memory_view w (snd (ls_commit (memory_store id_column storage_version schema) v f w))"
      "case fst (ls_commit (memory_store id_column storage_version schema) v f w) of
         Inr v' \<Rightarrow> v' \<le> tv_latest memory_view (snd (ls_commit (memory_store id_column storage_version schema) v f w)) \<and>
           in_scope S (tv_ids memory_view (snd (ls_commit (memory_store id_column storage_version schema) v f w)) v') =
             in_scope S (current memory_view (snd (ls_commit (memory_store id_column storage_version schema) v f w))) \<and>
           in_scope S (current memory_view (snd (ls_commit (memory_store id_column storage_version schema) v f w))) =
             in_scope S (current memory_view w) @ tv_rows memory_view f
       | Inl e \<Rightarrow> in_scope S (current memory_view (snd (ls_commit (memory_store id_column storage_version schema) v f w))) \<in>
           {in_scope S (current memory_view w), in_scope S (current memory_view w) @ tv_rows memory_view f}"
      using memory_commit_law [of w f S]
      by (auto simp: memory_store_def Let_def current_memory tv_rows_memory split: sum.splits)
  next
    fix d ids w cells
    assume "fst (ls_column (memory_store id_column storage_version schema) d id_column (in_filter id_column ids) w) = Inr cells"
    then have "cells = map JStr (case sql_in_filter id_column (in_filter id_column ids) of None \<Rightarrow> []
        | Some ids \<Rightarrow> filter (\<lambda>x. x \<in> set ids) (tv_ids memory_view w (ds_version d)))"
      by (simp add: memory_store_def Let_def)
    then show "mset (map str_of_cell cells) = mset (in_scope (set ids) (tv_ids memory_view w (ds_version d)))"
      by (simp only: column)
  qed (auto simp: memory_store_def Let_def sreturn_def sorted comp_def obj_get_def current_def memory_view_def)
qed

section \<open>An append whose commit takes place unanswered\<close>

definition sample_schema :: "pa_field list" where
  "sample_schema = [\<lparr>pf_name = ''clip_id'', pf_type = ''string'', pf_nullable = False, pf_metadata = []\<rparr>]"

definition sample_store :: "table_world lance_store" where
  "sample_store = memory_store ''clip_id'' ''2.2'' sample_schema"

definition sample_rows :: arrow_table where
  "sample_rows = \<lparr>at_schema = sample_schema, at_rows = [[(''clip_id'', JStr ''it's'')], [(''clip_id'', JStr ''b'')]]\<rparr>"

definition sample_table :: table_world where
  "sample_table = \<lparr>tw_versions = [[''z'']], tw_commits = [(False, False), (True, False)]\<rparr>"

definition sample_candidate :: json where
  "sample_candidate = JObj [(''fragment'', JObj [(''files'', JArr [JStr ''it's'', JStr ''b'']), (''rows'', JInt 2)]),
     (''row_ids'', JArr [JStr ''it's'', JStr ''b''])]"

lemma sample_staged: "write_row_fragment sample_store sample_rows sample_schema ''clip_id'' ''2.2'' sample_table = (Inr (Some sample_candidate), sample_table)"
  by code_simp

definition sample_calls :: "(lance_error + int) list \<times> table_world" where
  "sample_calls = append_calls sample_store sample_candidate sample_schema ''clip_id'' ''2.2'' [2, 1] sample_table"

lemma sample_calls_eq: "sample_calls = ([Inr 2, Inr 2], \<lparr>tw_versions = [[''z''], [''z'', ''it's'', ''b'']], tw_commits = []\<rparr>)"
  by code_simp

lemma sample_store_appends: "append_store memory_view S sample_store ''clip_id''"
  by (simp add: sample_store_def memory_store_appends)

lemma staged_rows_appended_once_witness:
  "fst sample_calls = [Inr 2, Inr 2] \<and> current memory_view (snd sample_calls) = [''z'', ''it's'', ''b''] \<and>
   in_scope {''it's'', ''b''} (tv_ids memory_view (snd sample_calls) 2) = [''it's'', ''b'']"
proof -
  note once = staged_rows_appended_once [OF sample_store_appends sample_staged,
      of "[''it's'', ''b'']" "{''it's'', ''b''}" "[2, 1]" "fst sample_calls" "snd sample_calls"]
  have "in_scope {''it's'', ''b''} (tv_ids memory_view (snd sample_calls) 2) = [''it's'', ''b'']"
    using once by (simp add: sample_calls_def [symmetric] sample_calls_eq sample_rows_def obj_get_def current_memory newest_def
        sample_table_def in_scope_def memory_view_def)
  then show ?thesis by (simp add: sample_calls_eq current_memory newest_def)
qed

section \<open>An accepted table takes rows by position\<close>

lemma by_name_distinct: "distinct (map pf_name schema) \<Longrightarrow> by_name schema = map (\<lambda>f. (pf_name f, f)) schema"
proof (induction schema rule: rev_induct)
  case (snoc f schema)
  have "AList.update k v d = d @ [(k, v)]" if "k \<notin> set (map fst d)" for k v and d :: "(string \<times> pa_field) list"
    using that by (induction d) auto
  from this [of "pf_name f" "map (\<lambda>f. (pf_name f, f)) schema" f] show ?case
    using snoc by (simp add: by_name_def image_image)
qed (simp add: by_name_def)

text \<open>Without its extension fields, an accepted table has the fields of the producer's schema, each at its
  position.\<close>

lemma validated_table_projects:
  assumes "distinct (map pf_name schema)" "distinct (map pf_name (ds_schema dataset))"
    and "validate_table dataset schema data_storage_version = Inr ()"
  shows "filter (\<lambda>f. pf_name f \<in> set (map pf_name schema)) (ds_schema dataset) = schema"
proof -
  note facts = assms(3) [unfolded validate_table_def Let_def by_name_distinct [OF assms(1)] by_name_distinct [OF assms(2)] result_simps]
  have order: "map pf_name schema = map pf_name (filter (\<lambda>f. pf_name f \<in> set (map pf_name schema)) (ds_schema dataset))"
    using facts unfolding map_map comp_def fst_conv filter_map by blast
  have "f \<in> set (ds_schema dataset)" if "f \<in> set schema" for f
  proof -
    have "map_of (map (\<lambda>f. (pf_name f, f)) (ds_schema dataset)) (pf_name f) = Some f"
      using facts that by (auto simp: list_all_iff)
    then show ?thesis by (auto dest: map_of_SomeD)
  qed
  moreover have "inj_on pf_name (set (ds_schema dataset))" using assms(2) by (simp add: distinct_map)
  ultimately show ?thesis
    using order by (intro inj_on_map_eq_map [THEN iffD1, OF _ order [symmetric]]) (auto intro: inj_on_subset)
qed

end
