(* ===== verification/ClipPublication.thy ===== *)
theory ClipPublication
  imports LanceAppend
begin

text \<open>
  \<^verbatim>\<open>next/recipes/robot_action_split/\<close>: the recipe that cuts clips and publishes a row for each. \<^verbatim>\<open>recovery.py\<close> drops
  the spans whose clips are in the canonical table, \<^verbatim>\<open>processing.py\<close> turns each remaining span into an outcome,
  \<^verbatim>\<open>pipeline.py\<close> commits the successful outcomes in fragments while they arrive, and a crashed run is repeated. What
  FFmpeg, Parquet and the media store make of a batch of spans is the parameter \<open>work\<close>; the values of \<^verbatim>\<open>start_ns\<close> and
  \<^verbatim>\<open>end_ns\<close>, rounded doubles, are carried with a span.
\<close>

section \<open>Spans and outcomes\<close>

record span_work_item =
  sp_clip_id :: string
  sp_span_group_id :: string
  sp_view_name :: string
  sp_source_id :: string
  sp_episode_id :: string
  sp_episode_index :: int
  sp_subtask_index :: int
  sp_subtask_name :: string
  sp_task_index :: int
  sp_task_name :: string
  sp_task_description :: json
  sp_frame_start :: int
  sp_frame_end :: int
  sp_start_ns :: int
  sp_end_ns :: int
  sp_native_fps :: rat
  sp_episode_from_timestamp :: rat

record chunk_span_batch =
  cb_chunk_mp4_uri :: string
  cb_data_parquet_uri :: string
  cb_items :: "span_work_item list"

definition make_base_fields :: "span_work_item \<Rightarrow> string \<Rightarrow> json_object" where
  "make_base_fields item source_dataset =
     [(''clip_id'', JStr (sp_clip_id item)),
      (''span_group_id'', JStr (sp_span_group_id item)),
      (''view_name'', JStr (sp_view_name item)),
      (''source_id'', JStr (sp_source_id item)),
      (''source_dataset'', JStr source_dataset),
      (''episode_id'', JStr (sp_episode_id item)),
      (''episode_index'', JInt (sp_episode_index item)),
      (''subtask_index'', JInt (sp_subtask_index item)),
      (''subtask_name'', JStr (sp_subtask_name item)),
      (''task_index'', JInt (sp_task_index item)),
      (''task_name'', JStr (sp_task_name item)),
      (''task_description'', sp_task_description item),
      (''frame_start'', JInt (sp_frame_start item)),
      (''frame_end'', JInt (sp_frame_end item)),
      (''start_ns'', JInt (sp_start_ns item)),
      (''end_ns'', JInt (sp_end_ns item)),
      (''native_fps'', JFloat (sp_native_fps item)),
      (''episode_from_timestamp'', JFloat (sp_episode_from_timestamp item))]"

text \<open>What the tools made of a span, and of a batch: an exception leaves \<^verbatim>\<open>process_batch\<close>, or one step fails for all
  spans, or each span has a result of its own.\<close>

datatype span_result =
    SpanFailed (failed_stage: string) (failed_message: string)
  | SpanCut (cut_clip_uri: string) (cut_action_uri: string) (cut_annotation: json)

datatype batch_result = BatchRaises lance_error | BatchFailed string string | BatchCut "span_work_item \<Rightarrow> span_result"

fun span_outcome :: "span_work_item \<Rightarrow> string \<Rightarrow> span_result \<Rightarrow> json_object" where
  "span_outcome item source_dataset (SpanFailed stage message) = make_base_fields item source_dataset @
     [(''clip_uri'', JNull), (''action_data_uri'', JNull), (''camera_motion_annotation'', JNull),
      (''status'', JStr ''failed''), (''error_stage'', JStr stage), (''error_message'', JStr message)]"
| "span_outcome item source_dataset (SpanCut clip_uri action_uri annotation) = make_base_fields item source_dataset @
     [(''clip_uri'', JStr clip_uri), (''action_data_uri'', JStr action_uri), (''camera_motion_annotation'', annotation),
      (''status'', JStr ''success''), (''error_stage'', JNull), (''error_message'', JNull)]"

definition process_batch :: "(chunk_span_batch \<Rightarrow> batch_result) \<Rightarrow> string \<Rightarrow> chunk_span_batch \<Rightarrow> lance_error + json_object list" where
  "process_batch work source_dataset batch =
     (case work batch of
        BatchRaises e \<Rightarrow> Inl e
      | BatchFailed stage message \<Rightarrow> Inr (map (\<lambda>item. span_outcome item source_dataset (SpanFailed stage message)) (cb_items batch))
      | BatchCut result \<Rightarrow> Inr (map (\<lambda>item. span_outcome item source_dataset (result item)) (cb_items batch)))"

text \<open>An iterator is the list of what it yields with the exception that ends it, if one does. Consecutive batches of a
  chunk share its download, which leaves their order alone.\<close>

fun iter_sequential :: "(chunk_span_batch \<Rightarrow> lance_error + json_object list) \<Rightarrow> chunk_span_batch list \<Rightarrow> json_object list \<times> lance_error option" where
  "iter_sequential process [] = ([], None)"
| "iter_sequential process (batch # batches) =
     (case process batch of
        Inl e \<Rightarrow> ([], Some e)
      | Inr outcomes \<Rightarrow> (let (later, raised) = iter_sequential process batches in (outcomes @ later, raised)))"

section \<open>Rows of the clip table\<close>

definition MEDIA_CONTRACT_VERSION :: int where "MEDIA_CONTRACT_VERSION = 1"

definition CLIP_RECORD_SCHEMA_VERSION :: int where "CLIP_RECORD_SCHEMA_VERSION = 4"

definition LANCE_DATA_STORAGE_VERSION :: string where "LANCE_DATA_STORAGE_VERSION = ''2.2''"

abbreviation column :: "string \<Rightarrow> string \<Rightarrow> bool \<Rightarrow> pa_field" where
  "column name type nullable \<equiv> \<lparr>pf_name = name, pf_type = type, pf_nullable = nullable, pf_metadata = []\<rparr>"

definition CLIP_SCHEMA :: "pa_field list" where
  "CLIP_SCHEMA =
     [column ''record_schema_version'' ''int32'' False,
      column ''media_contract_version'' ''int32'' False,
      column ''clip_id'' ''string'' False,
      column ''span_group_id'' ''string'' False,
      column ''view_name'' ''string'' False,
      column ''source_id'' ''string'' False,
      column ''source_dataset'' ''string'' False,
      column ''episode_id'' ''string'' False,
      column ''episode_index'' ''int32'' False,
      column ''subtask_index'' ''int32'' False,
      column ''subtask_name'' ''string'' False,
      column ''task_index'' ''int32'' False,
      column ''task_name'' ''string'' False,
      column ''task_description'' ''large_string'' True,
      column ''frame_start'' ''int32'' False,
      column ''frame_end'' ''int32'' False,
      column ''start_ns'' ''int64'' False,
      column ''end_ns'' ''int64'' False,
      column ''native_fps'' ''float64'' False,
      column ''episode_from_timestamp'' ''float64'' False,
      column ''clip_uri'' ''large_string'' False,
      column ''action_data_uri'' ''large_string'' False,
      column ''camera_motion_annotation'' ''large_string'' True]"

definition BASE_FIELD_NAMES :: "string list" where
  "BASE_FIELD_NAMES = filter (\<lambda>name. name \<notin> {''record_schema_version'', ''media_contract_version'', ''clip_uri'', ''action_data_uri''})
     (map pf_name CLIP_SCHEMA)"

definition ERROR_FIELD_NAMES :: "string list" where
  "ERROR_FIELD_NAMES = filter (\<lambda>name. name \<noteq> ''camera_motion_annotation'') BASE_FIELD_NAMES"

text \<open>\<^verbatim>\<open>d[k]\<close>, which raises \<^verbatim>\<open>KeyError\<close>, and a comprehension whose body may raise.\<close>

definition obj_at :: "json_object \<Rightarrow> string \<Rightarrow> lance_error + json" where
  "obj_at d k = (case map_of d k of None \<Rightarrow> Inl (raised OtherException) | Some v \<Rightarrow> Inr v)"

fun rmap :: "('a \<Rightarrow> 'e + 'b) \<Rightarrow> 'a list \<Rightarrow> 'e + 'b list" where
  "rmap f [] = Inr []"
| "rmap f (x # xs) = rbind (f x) (\<lambda>y. rbind (rmap f xs) (\<lambda>ys. Inr (y # ys)))"

definition named_fields :: "json_object \<Rightarrow> string list \<Rightarrow> lance_error + json_object" where
  "named_fields entry names = rmap (\<lambda>name. rbind (obj_at entry name) (\<lambda>v. Inr (name, v))) names"

definition clip_row :: "json_object \<Rightarrow> lance_error + json_object" where
  "clip_row entry =
     rbind (named_fields entry BASE_FIELD_NAMES) (\<lambda>base.
     rbind (named_fields entry [''clip_uri'', ''action_data_uri'']) (\<lambda>uris.
       Inr ([(''record_schema_version'', JInt CLIP_RECORD_SCHEMA_VERSION), (''media_contract_version'', JInt MEDIA_CONTRACT_VERSION)]
         @ base @ uris)))"

fun rows_where :: "(json \<Rightarrow> bool) \<Rightarrow> (json_object \<Rightarrow> lance_error + json_object) \<Rightarrow> json_object list \<Rightarrow> lance_error + json_object list" where
  "rows_where p row [] = Inr []"
| "rows_where p row (entry # outcomes) =
     rbind (obj_at entry ''status'') (\<lambda>status.
       if p status then rbind (row entry) (\<lambda>r. rbind (rows_where p row outcomes) (\<lambda>rs. Inr (r # rs)))
       else rows_where p row outcomes)"

definition clip_table :: "'w lance_store \<Rightarrow> json_object list \<Rightarrow> lance_error + arrow_table" where
  "clip_table store outcomes =
     rbind (rows_where (\<lambda>status. status = JStr ''success'') clip_row outcomes) (\<lambda>rows. ls_from_pylist store rows CLIP_SCHEMA)"

definition error_records :: "json_object list \<Rightarrow> lance_error + json_object list" where
  "error_records outcomes = rows_where (\<lambda>status. status \<noteq> JStr ''success'')
     (\<lambda>entry. named_fields entry (ERROR_FIELD_NAMES @ [''error_stage'', ''error_message''])) outcomes"

section \<open>Reconciliation\<close>

record reconciled_batches =
  rb_batches :: "chunk_span_batch list"
  rb_complete_batches :: nat
  rb_partial_batches :: nat
  rb_unknown_batches :: nat
  rb_committed_clip_rows :: nat

definition validate_committed_versions :: "'w lance_store \<Rightarrow> lance_dataset \<Rightarrow> ('w, lance_error, unit) stm" where
  "validate_committed_versions store dataset =
     sbind (ls_count_rows store dataset (''record_schema_version != '' @ py_str_int CLIP_RECORD_SCHEMA_VERSION)) (\<lambda>mismatched_schema.
       if mismatched_schema \<noteq> 0 then sraise (raised ValueError)
       else sbind (ls_count_rows store dataset (''media_contract_version != '' @ py_str_int MEDIA_CONTRACT_VERSION)) (\<lambda>mismatched_contract.
         if mismatched_contract \<noteq> 0 then sraise (raised ValueError) else sreturn ()))"

fun scan_rows :: "string list \<Rightarrow> json_object list \<Rightarrow> (string \<times> int \<times> int) list \<Rightarrow> lance_error + (string \<times> int \<times> int) list" where
  "scan_rows wanted [] committed = Inr committed"
| "scan_rows wanted (row # rows) committed =
     (case obj_get row ''clip_id'' of
        JStr clip_id \<Rightarrow>
          if clip_id \<notin> set wanted then scan_rows wanted rows committed
          else if clip_id \<in> set (map fst committed) then Inl (raised ValueError)
          else scan_rows wanted rows (committed @
            [(clip_id, int_of_json (obj_get row ''record_schema_version''), int_of_json (obj_get row ''media_contract_version''))])
      | _ \<Rightarrow> scan_rows wanted rows committed)"

definition scan_committed :: "'w lance_store \<Rightarrow> string list \<Rightarrow> lance_dataset \<Rightarrow> ('w, lance_error, (string \<times> int \<times> int) list) stm" where
  "scan_committed store clip_ids dataset =
     (if clip_ids = [] then sreturn []
      else sbind (ls_scan store dataset [''clip_id'', ''record_schema_version'', ''media_contract_version'']) (\<lambda>record_batches.
        slift (scan_rows clip_ids (concat record_batches) [])))"

definition batch_ids :: "chunk_span_batch list \<Rightarrow> string list" where
  "batch_ids batches = concat (map (\<lambda>batch. map sp_clip_id (cb_items batch)) batches)"

definition reconcile_step :: "(string \<times> int \<times> int) list \<Rightarrow> reconciled_batches \<Rightarrow> chunk_span_batch \<Rightarrow> reconciled_batches" where
  "reconcile_step committed rb batch =
     (let missing_items = filter (\<lambda>item. sp_clip_id item \<notin> set (map fst committed)) (cb_items batch)
      in if missing_items = [] then rb\<lparr>rb_complete_batches := rb_complete_batches rb + 1\<rparr>
         else (if length missing_items = length (cb_items batch) then rb\<lparr>rb_unknown_batches := rb_unknown_batches rb + 1\<rparr>
               else rb\<lparr>rb_partial_batches := rb_partial_batches rb + 1\<rparr>)
           \<lparr>rb_batches := rb_batches rb @ [batch\<lparr>cb_items := missing_items\<rparr>]\<rparr>)"

definition reconcile_batches :: "'w lance_store \<Rightarrow> chunk_span_batch list \<Rightarrow> lance_dataset \<Rightarrow> ('w, lance_error, reconciled_batches) stm" where
  "reconcile_batches store batches dataset =
     sbind (validate_committed_versions store dataset) (\<lambda>_.
       if \<not> distinct (batch_ids batches) then sraise (raised ValueError)
       else sbind (scan_committed store (batch_ids batches) dataset) (\<lambda>committed.
         sreturn (foldl (reconcile_step committed)
           \<lparr>rb_batches = [], rb_complete_batches = 0, rb_partial_batches = 0, rb_unknown_batches = 0,
            rb_committed_clip_rows = length committed\<rparr> batches)))"

section \<open>Publication\<close>

definition open_or_create_clip_table :: "'w lance_store \<Rightarrow> ('w, lance_error, lance_dataset) stm" where
  "open_or_create_clip_table store = open_or_create_table store CLIP_SCHEMA LANCE_DATA_STORAGE_VERSION"

definition write_clip_fragment :: "'w lance_store \<Rightarrow> arrow_table \<Rightarrow> ('w, lance_error, json option) stm" where
  "write_clip_fragment store clips = write_row_fragment store clips CLIP_SCHEMA ''clip_id'' LANCE_DATA_STORAGE_VERSION"

definition append_clip_fragment :: "'w lance_store \<Rightarrow> json \<Rightarrow> int \<Rightarrow> ('w, lance_error, int) stm" where
  "append_clip_fragment store candidate attempts =
     append_row_fragment store candidate CLIP_SCHEMA ''clip_id'' LANCE_DATA_STORAGE_VERSION attempts"

definition commit_clip_rows :: "'w lance_store \<Rightarrow> int \<Rightarrow> json_object list \<Rightarrow> ('w, lance_error, int) stm" where
  "commit_clip_rows store attempts rows =
     sbind (slift (clip_table store rows)) (\<lambda>table.
     sbind (write_clip_fragment store table) (\<lambda>candidate.
       case candidate of
         None \<Rightarrow> sraise (raised ValueError)
       | Some c \<Rightarrow> append_clip_fragment store c attempts))"

record publication =
  pb_failed :: "json_object list"
  pb_succeeded_count :: int
  pb_clips_version :: int

fun publish_loop ::
  "'w lance_store \<Rightarrow> int \<Rightarrow> int \<Rightarrow> lance_error option \<Rightarrow> json_object list \<Rightarrow> json_object list \<Rightarrow> publication \<Rightarrow> ('w, lance_error, publication) stm" where
  "publish_loop store threshold attempts ending [] buffer p =
     (case ending of
        Some e \<Rightarrow> sraise e
      | None \<Rightarrow>
          if buffer = [] then sreturn p
          else sbind (commit_clip_rows store attempts buffer) (\<lambda>version. sreturn (p\<lparr>pb_clips_version := version\<rparr>)))"
| "publish_loop store threshold attempts ending (entry # outcomes) buffer p =
     sbind (slift (obj_at entry ''status'')) (\<lambda>status.
       let success = (status = JStr ''success'');
           buffer1 = (if success then buffer @ [entry] else buffer);
           p1 = (if success then p\<lparr>pb_succeeded_count := pb_succeeded_count p + 1\<rparr> else p\<lparr>pb_failed := pb_failed p @ [entry]\<rparr>)
       in if int (length buffer1) \<ge> threshold
          then sbind (commit_clip_rows store attempts buffer1) (\<lambda>version.
            publish_loop store threshold attempts ending outcomes [] (p1\<lparr>pb_clips_version := version\<rparr>))
          else publish_loop store threshold attempts ending outcomes buffer1 p1)"

definition publish_outcomes ::
  "'w lance_store \<Rightarrow> int \<Rightarrow> int \<Rightarrow> json_object list \<times> lance_error option \<Rightarrow> int \<Rightarrow> ('w, lance_error, publication) stm" where
  "publish_outcomes store threshold attempts outcomes initial_clips_version =
     publish_loop store threshold attempts (snd outcomes) (fst outcomes) []
       \<lparr>pb_failed = [], pb_succeeded_count = 0, pb_clips_version = initial_clips_version\<rparr>"

section \<open>The run\<close>

text \<open>\<^verbatim>\<open>core/utils/misc/retry_utils.py\<close>, with the exceptions to retry as a predicate.\<close>

fun retry_loop ::
  "(int \<Rightarrow> 'w \<Rightarrow> 'w) \<Rightarrow> (lance_error \<Rightarrow> bool) \<Rightarrow> int \<Rightarrow> int \<Rightarrow> nat \<Rightarrow> ('w, lance_error, 'a) stm \<Rightarrow> nat list \<Rightarrow> ('w, lance_error, 'a) stm" where
  "retry_loop sleep to_retry backoff_factor max_wait max_attempts func [] = sraise (raised AssertionError)"
| "retry_loop sleep to_retry backoff_factor max_wait max_attempts func (attempt # later) =
     (\<lambda>w. case func w of
        (Inr x, w1) \<Rightarrow> (Inr x, w1)
      | (Inl e, w1) \<Rightarrow>
          if \<not> to_retry e \<or> attempt = max_attempts then (Inl e, w1)
          else retry_loop sleep to_retry backoff_factor max_wait max_attempts func later (sleep (min (backoff_factor ^ attempt) max_wait) w1))"

definition do_with_retries ::
  "(int \<Rightarrow> 'w \<Rightarrow> 'w) \<Rightarrow> (lance_error \<Rightarrow> bool) \<Rightarrow> int \<Rightarrow> int \<Rightarrow> int \<Rightarrow> ('w, lance_error, 'a) stm \<Rightarrow> ('w, lance_error, 'a) stm" where
  "do_with_retries sleep to_retry max_attempts backoff_factor max_wait func =
     retry_loop sleep to_retry backoff_factor max_wait (nat max_attempts) func [1..<nat max_attempts + 1]"

record 'w clip_run =
  cr_store :: "'w lance_store"
  cr_discover :: "('w, lance_error, chunk_span_batch list) stm"
  cr_iterate :: "chunk_span_batch list \<Rightarrow> json_object list \<times> lance_error option"
  cr_clips_per_publish_batch :: int
  cr_storage_attempts :: int
  cr_write_errors :: "json_object list \<Rightarrow> ('w, lance_error, unit) stm"
  cr_local_media_root :: bool
  cr_write_summary :: "int \<times> int \<times> int \<Rightarrow> json_object list \<Rightarrow> ('w, lance_error, unit) stm"

record run_result =
  rr_total :: int
  rr_succeeded :: int
  rr_failed :: int
  rr_outcomes :: "json_object list"
  rr_clips_lance_version :: int

definition ERROR_REPORT_BACKOFF_FACTOR :: int where "ERROR_REPORT_BACKOFF_FACTOR = 2"

definition ERROR_REPORT_MAX_BACKOFF_S :: int where "ERROR_REPORT_MAX_BACKOFF_S = 30"

definition publish_missing :: "'w clip_run \<Rightarrow> chunk_span_batch list \<Rightarrow> lance_dataset \<Rightarrow> ('w, lance_error, publication) stm" where
  "publish_missing cr batches clip_dataset =
     (let nothing = \<lparr>pb_failed = [], pb_succeeded_count = 0, pb_clips_version = ds_version clip_dataset\<rparr>
      in if batches = [] then sreturn nothing
         else sbind (reconcile_batches (cr_store cr) batches clip_dataset) (\<lambda>reconciliation.
           if rb_batches reconciliation \<noteq> [] then
             publish_outcomes (cr_store cr) (cr_clips_per_publish_batch cr) (cr_storage_attempts cr)
               (cr_iterate cr (rb_batches reconciliation)) (ds_version clip_dataset)
           else sreturn nothing))"

definition report_run :: "'w clip_run \<Rightarrow> publication \<Rightarrow> ('w, lance_error, run_result) stm" where
  "report_run cr p =
     sbind (slift (error_records (pb_failed p))) (\<lambda>errors.
     sbind (do_with_retries (ls_sleep (cr_store cr)) is_exception (cr_storage_attempts cr)
              ERROR_REPORT_BACKOFF_FACTOR ERROR_REPORT_MAX_BACKOFF_S (cr_write_errors cr errors)) (\<lambda>_.
       let failed = int (length (pb_failed p)); total = pb_succeeded_count p + failed in
       sbind (if cr_local_media_root cr then cr_write_summary cr (total, pb_succeeded_count p, failed) (pb_failed p) else sreturn ()) (\<lambda>_.
         sreturn \<lparr>rr_total = total, rr_succeeded = pb_succeeded_count p, rr_failed = failed,
           rr_outcomes = pb_failed p, rr_clips_lance_version = pb_clips_version p\<rparr>)))"

definition run :: "'w clip_run \<Rightarrow> ('w, lance_error, run_result) stm" where
  "run cr =
     sbind (cr_discover cr) (\<lambda>batches.
     sbind (open_or_create_clip_table (cr_store cr)) (\<lambda>clip_dataset.
     sbind (publish_missing cr batches clip_dataset) (\<lambda>p. report_run cr p)))"

section \<open>Outcomes carry their span\<close>

definition succeeded :: "json_object \<Rightarrow> bool" where
  "succeeded r \<longleftrightarrow> obj_get r ''status'' = JStr ''success''"

definition entry_id :: "json_object \<Rightarrow> string" where
  "entry_id r = str_of_cell (obj_get r ''clip_id'')"

definition success_ids :: "json_object list \<Rightarrow> string list" where
  "success_ids rs = map entry_id (filter succeeded rs)"

lemma success_ids_simps [simp]: "success_ids [] = []" "success_ids (xs @ ys) = success_ids xs @ success_ids ys"
  "success_ids (r # rs) = (if succeeded r then entry_id r # success_ids rs else success_ids rs)"
  by (simp_all add: success_ids_def)

lemma base_fields_get:
  "obj_get (make_base_fields item d @ rest) ''clip_id'' = JStr (sp_clip_id item)"
  "''status'' \<notin> set (map fst (make_base_fields item d))"
  by (simp_all add: obj_get_def make_base_fields_def)

lemma obj_get_append: "k \<notin> set (map fst xs) \<Longrightarrow> obj_get (xs @ ys) k = obj_get ys k"
  by (induction xs) (auto simp: obj_get_def)

lemma base_fields_status: "obj_get (make_base_fields item d @ xs) ''status'' = obj_get xs ''status''"
  by (rule obj_get_append [OF base_fields_get(2)])

lemma obj_get_Cons: "obj_get ((k', v) # d) k = (if k = k' then v else obj_get d k)"
  by (simp add: obj_get_def)

lemma span_outcome_id [simp]: "entry_id (span_outcome item d r) = sp_clip_id item"
  by (cases r) (simp_all add: entry_id_def base_fields_get(1))

lemma span_outcome_succeeded [simp]: "succeeded (span_outcome item d r) \<longleftrightarrow> \<not> is_SpanFailed r"
  by (cases r) (simp_all add: succeeded_def base_fields_status obj_get_Cons)

declare span_outcome.simps [simp del]

lemma obj_at_Inr: "obj_at r k = Inr v \<Longrightarrow> obj_get r k = v"
  by (simp add: obj_at_def obj_get_def split: option.splits)

lemma process_batch_ids: "process_batch work d batch = Inr entries \<Longrightarrow> map entry_id entries = map sp_clip_id (cb_items batch)"
  by (auto simp: process_batch_def comp_def split: batch_result.splits)

lemma iter_sequential_ids:
  "prefix (map entry_id (fst (iter_sequential (process_batch work d) batches))) (batch_ids batches) \<and>
   (snd (iter_sequential (process_batch work d) batches) = None \<longrightarrow>
    map entry_id (fst (iter_sequential (process_batch work d) batches)) = batch_ids batches)"
proof (induction batches)
  case (Cons batch batches)
  then show ?case
    using process_batch_ids [of work d batch]
    by (cases "process_batch work d batch") (auto simp: batch_ids_def split: prod.splits)
qed (simp add: batch_ids_def)

lemma named_fields_get:
  "named_fields r names = Inr fs \<Longrightarrow> k \<in> set names \<Longrightarrow> obj_get (fs @ rest) k = obj_get r k"
proof (induction names arbitrary: fs)
  case (Cons n names)
  then obtain v vs where "obj_at r n = Inr v" "named_fields r names = Inr vs" "fs = (n, v) # vs"
    by (auto simp: named_fields_def result_simps)
  then show ?case using Cons obj_at_Inr [of r n v] by (auto simp: obj_get_def)
qed (simp add: named_fields_def)

lemma clip_row_id: "clip_row r = Inr row \<Longrightarrow> entry_id row = entry_id r"
proof -
  assume "clip_row r = Inr row"
  then obtain base uris where b: "named_fields r BASE_FIELD_NAMES = Inr base"
    "row = [(''record_schema_version'', JInt CLIP_RECORD_SCHEMA_VERSION), (''media_contract_version'', JInt MEDIA_CONTRACT_VERSION)] @ base @ uris"
    by (auto simp: clip_row_def result_simps)
  have "''clip_id'' \<in> set BASE_FIELD_NAMES" by (simp add: BASE_FIELD_NAMES_def CLIP_SCHEMA_def)
  then show ?thesis using named_fields_get [OF b(1), of _ uris] b(2) by (simp add: entry_id_def obj_get_def)
qed

lemma rows_where_success:
  "rows_where (\<lambda>status. status = JStr ''success'') clip_row rs = Inr rows \<Longrightarrow> map entry_id rows = success_ids rs"
proof (induction rs arbitrary: rows)
  case (Cons r rs)
  then show ?case
    using obj_at_Inr [of r "''status''"] clip_row_id [of r]
    by (auto simp: result_simps succeeded_def split: if_splits)
qed simp

section \<open>What the recipe relies on\<close>

definition text_cells :: "json_object list \<Rightarrow> string list" where
  "text_cells rows = concat (map (\<lambda>row. case obj_get row ''clip_id'' of JStr s \<Rightarrow> [s] | _ \<Rightarrow> []) rows)"

definition version_holds :: "'w table_view \<Rightarrow> string set \<Rightarrow> 'w \<Rightarrow> int \<Rightarrow> bool" where
  "version_holds V S w v \<longleftrightarrow> v \<le> tv_latest V w \<and> in_scope S (tv_ids V w v) = in_scope S (current V w)"

text \<open>Besides the laws of the append: creating a table, counting and scanning disturb nothing, a scan reads the
  dataset's version, and a table built from rows has their identifiers.\<close>

definition clip_store :: "'w table_view \<Rightarrow> string set \<Rightarrow> 'w lance_store \<Rightarrow> bool" where
  "clip_store V S store \<longleftrightarrow> append_store V S store ''clip_id'' \<and>
     (\<forall>s v w. undisturbed V S w (snd (ls_create store s v w)) \<and>
        (\<forall>d. fst (ls_create store s v w) = Inr d \<longrightarrow> version_holds V S (snd (ls_create store s v w)) (ds_version d))) \<and>
     (\<forall>d f w. undisturbed V S w (snd (ls_count_rows store d f w))) \<and>
     (\<forall>d c w. undisturbed V S w (snd (ls_scan store d c w)) \<and>
        (\<forall>rows. fst (ls_scan store d c w) = Inr rows \<longrightarrow> ds_version d \<le> tv_latest V w \<longrightarrow>
           mset (in_scope S (text_cells (concat rows))) = mset (in_scope S (tv_ids V w (ds_version d))))) \<and>
     (\<forall>rows s t. ls_from_pylist store rows s = Inr t \<longrightarrow> map entry_id (at_rows t) = map entry_id rows)"

lemma clip_storeD:
  assumes "clip_store V S store"
  shows "append_store V S store ''clip_id''"
    and "ls_create store s k w = (r, w') \<Longrightarrow> undisturbed V S w w' \<and> (\<forall>d. r = Inr d \<longrightarrow> version_holds V S w' (ds_version d))"
    and "ls_count_rows store d f w = (n, w') \<Longrightarrow> undisturbed V S w w'"
    and "ls_scan store d c w = (rows, w') \<Longrightarrow> undisturbed V S w w' \<and> (\<forall>bs. rows = Inr bs \<longrightarrow> ds_version d \<le> tv_latest V w \<longrightarrow>
      mset (in_scope S (text_cells (concat bs))) = mset (in_scope S (tv_ids V w (ds_version d))))"
    and "ls_from_pylist store raw s = Inr t \<Longrightarrow> map entry_id (at_rows t) = map entry_id raw"
proof -
  note laws = assms [unfolded clip_store_def]
  note rest = laws [THEN conjunct2] note rest2 = rest [THEN conjunct2] note rest3 = rest2 [THEN conjunct2]
  show "append_store V S store ''clip_id''" using laws by simp
  show "ls_create store s k w = (r, w') \<Longrightarrow> undisturbed V S w w' \<and> (\<forall>d. r = Inr d \<longrightarrow> version_holds V S w' (ds_version d))"
    using rest [THEN conjunct1, THEN spec, of s, THEN spec, of k, THEN spec, of w] by simp
  show "ls_count_rows store d f w = (n, w') \<Longrightarrow> undisturbed V S w w'"
    using rest2 [THEN conjunct1, THEN spec, of d, THEN spec, of f, THEN spec, of w] by simp
  show "ls_scan store d c w = (rows, w') \<Longrightarrow> undisturbed V S w w' \<and> (\<forall>bs. rows = Inr bs \<longrightarrow> ds_version d \<le> tv_latest V w \<longrightarrow>
      mset (in_scope S (text_cells (concat bs))) = mset (in_scope S (tv_ids V w (ds_version d))))"
    using rest3 [THEN conjunct1, THEN spec, of d, THEN spec, of c, THEN spec, of w] by simp
  show "ls_from_pylist store raw s = Inr t \<Longrightarrow> map entry_id (at_rows t) = map entry_id raw"
    using rest3 [THEN conjunct2] by simp
qed

text \<open>An iterator that may stop early, yields an outcome for each span at most once, and for every span if no exception
  ends it.\<close>

definition one_outcome_per_span :: "(chunk_span_batch list \<Rightarrow> json_object list \<times> lance_error option) \<Rightarrow> bool" where
  "one_outcome_per_span iterate \<longleftrightarrow> (\<forall>batches. mset (map entry_id (fst (iterate batches))) \<subseteq># mset (batch_ids batches) \<and>
     (snd (iterate batches) = None \<longrightarrow> mset (map entry_id (fst (iterate batches))) = mset (batch_ids batches)))"

lemma sequential_one_outcome_per_span: "one_outcome_per_span (iter_sequential (process_batch work source_dataset))"
proof -
  have sub: "mset xs \<subseteq># mset ys" if "prefix xs ys" for xs ys :: "string list"
    using that by (auto simp: prefix_def)
  show ?thesis
    unfolding one_outcome_per_span_def using iter_sequential_ids [of work source_dataset] sub by (simp del: mset_map)
qed

section \<open>Steps of the table\<close>

definition grown :: "'w table_view \<Rightarrow> string set \<Rightarrow> string list \<Rightarrow> 'w \<Rightarrow> 'w \<Rightarrow> bool" where
  "grown V S new w w' \<longleftrightarrow> history_kept V w w' \<and> in_scope S (current V w') = in_scope S (current V w) @ new"

lemma undisturbed_grown: "undisturbed V S w w' \<longleftrightarrow> grown V S [] w w'"
  by (simp add: undisturbed_def grown_def)

lemma grown_trans: "grown V S xs w w1 \<Longrightarrow> grown V S ys w1 w2 \<Longrightarrow> grown V S (xs @ ys) w w2"
  using history_kept_trans [of V w w1 w2] by (simp add: grown_def)

lemma version_holds_undisturbed: "version_holds V S w v \<Longrightarrow> undisturbed V S w w' \<Longrightarrow> version_holds V S w' v"
  by (auto simp: version_holds_def undisturbed_def history_kept_def)

lemma fresh_scope: "distinct (in_scope S (current V w) @ ids) \<Longrightarrow> set ids \<subseteq> S \<Longrightarrow> in_scope (set ids) (current V w) = []"
proof -
  assume "distinct (in_scope S (current V w) @ ids)" "set ids \<subseteq> S"
  then have "in_scope (set ids) (in_scope S (current V w)) = []"
    by (auto simp: in_scope_def filter_empty_conv)
  then show ?thesis using in_scope_within [OF \<open>set ids \<subseteq> S\<close>] by simp
qed

lemma open_or_create_result:
  assumes store: "clip_store V S store" and call: "open_or_create_table store schema k w = (r, w')"
  shows "undisturbed V S w w' \<and> (\<forall>d. r = Inr d \<longrightarrow> version_holds V S w' (ds_version d))"
proof -
  note laws = clip_storeD(1) [OF store]
  have opened: "undisturbed V S x x' \<and> (\<forall>d. q = Inr (Some d) \<longrightarrow> version_holds V S x' (ds_version d))"
    if "open_dataset store x = (q, x')" for x q x'
    using open_dataset_result [OF laws that] by (auto simp: version_holds_def)
  obtain r1 w1 where o1: "open_dataset store w = (r1, w1)" by (cases "open_dataset store w")
  obtain r2 w2 where c: "ls_create store schema k w1 = (r2, w2)" by (cases "ls_create store schema k w1")
  obtain r3 w3 where o2: "open_dataset store w2 = (r3, w3)" by (cases "open_dataset store w2")
  have u1: "undisturbed V S w w1" and u2: "undisturbed V S w w2" and u3: "undisturbed V S w w3"
    using opened [OF o1] clip_storeD(2) [OF store c] opened [OF o2] undisturbed_trans [of V S w w1 w2] undisturbed_trans [of V S w w2 w3]
    by auto
  from call have "w' = w1 \<and> (\<forall>d. r = Inr d \<longrightarrow> r1 = Inr (Some d)) \<or> w' = w2 \<and> (\<forall>d. r = Inr d \<longrightarrow> r2 = Inr d) \<or> w' = w3 \<and> (\<forall>d. r = Inr d \<longrightarrow> r3 = Inr (Some d))"
    by (auto simp: open_or_create_table_def sbind_def scatch_def sreturn_def sraise_def slift_def o1 o2 c
        split: sum.splits option.splits if_splits)
  then show ?thesis using u1 u2 u3 opened [OF o1] clip_storeD(2) [OF store c] opened [OF o2] by auto
qed

lemma commit_clip_rows_result:
  assumes store: "clip_store V S store" and scope: "set (success_ids rows) \<subseteq> S" and fresh: "distinct (in_scope S (current V w) @ success_ids rows)"
    and call: "commit_clip_rows store attempts rows w = (r, w')"
  shows "grown V S [] w w' \<and> (\<forall>v. r \<noteq> Inr v) \<or>
    grown V S (success_ids rows) w w' \<and> (\<forall>v. r = Inr v \<longrightarrow> version_holds V S w' v)"
proof (cases "clip_table store rows")
  case (Inl e)
  then show ?thesis using call undisturbed_grown [of V S w w] by (auto simp: commit_clip_rows_def sbind_def slift_def)
next
  case (Inr table)
  note laws = clip_storeD(1) [OF store]
  obtain raw where raw: "rows_where (\<lambda>status. status = JStr ''success'') clip_row rows = Inr raw" "ls_from_pylist store raw CLIP_SCHEMA = Inr table"
    using Inr by (auto simp: clip_table_def result_simps)
  then have ids: "ids_of ''clip_id'' table = success_ids rows"
    using clip_storeD(5) [OF store raw(2)] rows_where_success [OF raw(1)] by (simp add: entry_id_def [abs_def])
  obtain r1 w1 where wf: "write_row_fragment store table CLIP_SCHEMA ''clip_id'' LANCE_DATA_STORAGE_VERSION w = (r1, w1)"
    by (cases "write_row_fragment store table CLIP_SCHEMA ''clip_id'' LANCE_DATA_STORAGE_VERSION w")
  note written = write_row_fragment_result [OF laws wf]
  show ?thesis
  proof (cases "\<exists>c. r1 = Inr (Some c)")
    case False
    then have "w' = w1 \<and> (\<forall>v. r \<noteq> Inr v)"
      using call Inr wf by (auto simp: commit_clip_rows_def write_clip_fragment_def sbind_def slift_def sraise_def split: sum.splits option.splits)
    then show ?thesis using written(1) by (simp add: undisturbed_grown)
  next
    case True
    then obtain c f where c: "r1 = Inr (Some c)" "parse_candidate store c = Inr (f, success_ids rows)" "tv_rows V f = success_ids rows" "success_ids rows \<noteq> []"
      using written(2) ids by auto
    have none: "in_scope (set (success_ids rows)) (current V w1) = []"
      using fresh_scope [OF fresh scope] undisturbed_scope [OF written(1) scope] by simp
    have "append_row_fragment store c CLIP_SCHEMA ''clip_id'' LANCE_DATA_STORAGE_VERSION attempts w1 = (r, w')"
      using call Inr wf c(1) by (auto simp: commit_clip_rows_def write_clip_fragment_def append_clip_fragment_def sbind_def slift_def)
    from append_row_fragment_once [OF laws scope c(4,2,3) _ this] none
    have once: "added_once V S (success_ids rows) w1 w'" "\<forall>v. r = Inr v \<longrightarrow> holds_at V S (success_ids rows) w' v"
      by (simp_all add: all_or_none_def)
    have kept: "history_kept V w w'"
      using written(1) once(1) history_kept_trans [of V w w1 w'] by (simp add: undisturbed_def added_once_def)
    have grew: "in_scope S (current V w') = in_scope S (current V w) \<or> in_scope S (current V w') = in_scope S (current V w) @ success_ids rows"
      using once(1) written(1) by (auto simp: added_once_def undisturbed_def)
    have "in_scope S (current V w') = in_scope S (current V w) @ success_ids rows \<and> version_holds V S w' v" if v: "r = Inr v" for v
    proof -
      have "in_scope S (current V w') \<noteq> in_scope S (current V w)"
        using once(2) v c(4) fresh_scope [OF fresh scope] in_scope_within [OF scope] unfolding holds_at_def by metis
      then show ?thesis using grew once(2) v by (auto simp: holds_at_def version_holds_def)
    qed
    then show ?thesis using kept grew by (auto simp: grown_def)
  qed
qed

section \<open>Publication and reconciliation\<close>

lemma publish_loop_result:
  assumes store: "clip_store V S store"
  shows "publish_loop store threshold attempts ending outs buffer p w = (r, w') \<Longrightarrow>
    set (success_ids buffer @ success_ids outs) \<subseteq> S \<Longrightarrow> distinct (in_scope S (current V w) @ success_ids buffer @ success_ids outs) \<Longrightarrow>
    version_holds V S w (pb_clips_version p) \<Longrightarrow> list_all succeeded buffer \<Longrightarrow>
    \<exists>new. prefix new (success_ids buffer @ success_ids outs) \<and> grown V S new w w' \<and>
      (\<forall>p'. r = Inr p' \<longrightarrow> ending = None \<and> new = success_ids buffer @ success_ids outs \<and> version_holds V S w' (pb_clips_version p') \<and>
         pb_succeeded_count p' = pb_succeeded_count p + int (length (success_ids outs)) \<and>
         pb_failed p' = pb_failed p @ filter (\<lambda>e. \<not> succeeded e) outs)"
proof (induction outs arbitrary: buffer p w)
  case Nil
  have idle: "grown V S [] w w" by (simp flip: undisturbed_grown)
  show ?case
  proof (cases "ending = None \<and> buffer \<noteq> []")
    case False
    then show ?thesis
      using Nil.prems idle by (intro exI [of _ "[]"]) (auto simp: sraise_def sreturn_def split: option.splits if_splits)
  next
    case True
    obtain r1 w1 where c: "commit_clip_rows store attempts buffer w = (r1, w1)" by (cases "commit_clip_rows store attempts buffer w")
    have same: "w' = w1" "r = Inr p' \<Longrightarrow> \<exists>v. r1 = Inr v \<and> p' = p\<lparr>pb_clips_version := v\<rparr>" for p'
      using Nil.prems(1) True c by (auto simp: sbind_def sreturn_def split: sum.splits)
    from commit_clip_rows_result [OF store _ _ c] Nil.prems(2,3)
    consider "grown V S [] w w1" "\<forall>v. r1 \<noteq> Inr v" | "grown V S (success_ids buffer) w w1" "\<forall>v. r1 = Inr v \<longrightarrow> version_holds V S w1 v"
      by auto
    then show ?thesis
    proof cases
      case 1
      then show ?thesis using same by (intro exI [of _ "[]"]) auto
    next
      case 2
      then show ?thesis using same True by (intro exI [of _ "success_ids buffer"]) auto
    qed
  qed
next
  case (Cons e outs)
  show ?case
  proof (cases "obj_at e ''status''")
    case (Inl x)
    then show ?thesis
      using Cons.prems undisturbed_grown [of V S w w] by (intro exI [of _ "[]"]) (auto simp: sbind_def slift_def)
  next
    case (Inr status)
    then have status: "status = JStr ''success'' \<longleftrightarrow> succeeded e" using obj_at_Inr [OF Inr] by (simp add: succeeded_def)
    define buffer1 where "buffer1 = (if succeeded e then buffer @ [e] else buffer)"
    define p1 where "p1 = (if succeeded e then p\<lparr>pb_succeeded_count := pb_succeeded_count p + 1\<rparr> else p\<lparr>pb_failed := pb_failed p @ [e]\<rparr>)"
    have ids: "success_ids buffer1 @ success_ids outs = success_ids buffer @ success_ids (e # outs)" by (simp add: buffer1_def)
    have scope: "set (success_ids buffer1 @ success_ids outs) \<subseteq> S" using Cons.prems(2) unfolding ids .
    have fresh: "distinct (in_scope S (current V w) @ success_ids buffer1 @ success_ids outs)" using Cons.prems(3) unfolding ids .
    have full: "list_all succeeded buffer1" using Cons.prems(5) by (simp add: buffer1_def)
    have p1: "pb_clips_version p1 = pb_clips_version p"
      "pb_succeeded_count p1 + int (length (success_ids outs)) = pb_succeeded_count p + int (length (success_ids (e # outs)))"
      "pb_failed p1 @ filter (\<lambda>e. \<not> succeeded e) outs = pb_failed p @ filter (\<lambda>e. \<not> succeeded e) (e # outs)"
      by (simp_all add: p1_def)
    have step: "(if int (length buffer1) \<ge> threshold
          then sbind (commit_clip_rows store attempts buffer1) (\<lambda>version.
            publish_loop store threshold attempts ending outs [] (p1\<lparr>pb_clips_version := version\<rparr>))
          else publish_loop store threshold attempts ending outs buffer1 p1) w = (r, w')"
      using Cons.prems(1) Inr unfolding buffer1_def p1_def status [symmetric] by (simp add: sbind_def slift_def Let_def)
    show ?thesis
    proof (cases "int (length buffer1) \<ge> threshold")
      case False
      with step have "publish_loop store threshold attempts ending outs buffer1 p1 w = (r, w')" by simp
      from Cons.IH [OF this scope fresh _ full] Cons.prems(4) show ?thesis unfolding ids p1 by simp
    next
      case True
      obtain r1 w1 where c: "commit_clip_rows store attempts buffer1 w = (r1, w1)" by (cases "commit_clip_rows store attempts buffer1 w")
      have "set (success_ids buffer1) \<subseteq> S" "distinct (in_scope S (current V w) @ success_ids buffer1)"
        using scope fresh by auto
      note committed = commit_clip_rows_result [OF store this c]
      show ?thesis
      proof (cases r1)
        case (Inl x)
        then have "w' = w1" "r = Inl x" using step True c by (auto simp: sbind_def)
        then show ?thesis
          using committed unfolding ids [symmetric] by (metis Inl_Inr_False Nil_prefix prefixI)
      next
        case (Inr v)
        then have rest: "publish_loop store threshold attempts ending outs [] (p1\<lparr>pb_clips_version := v\<rparr>) w1 = (r, w')"
          using step True c by (simp add: sbind_def)
        have grew: "grown V S (success_ids buffer1) w w1" "version_holds V S w1 v" using committed Inr by auto
        have later: "distinct (in_scope S (current V w1) @ success_ids [] @ success_ids outs)"
          using fresh grew(1) by (simp add: grown_def Int_Un_distrib Int_Un_distrib2)
        have "\<exists>new. prefix new (success_ids outs) \<and> grown V S new w1 w' \<and>
          (\<forall>p'. r = Inr p' \<longrightarrow> ending = None \<and> new = success_ids outs \<and> version_holds V S w' (pb_clips_version p') \<and>
             pb_succeeded_count p' = pb_succeeded_count p1 + int (length (success_ids outs)) \<and>
             pb_failed p' = pb_failed p1 @ filter (\<lambda>e. \<not> succeeded e) outs)"
          using Cons.IH [OF rest _ later] scope grew(2) by simp
        then obtain new where new: "prefix new (success_ids outs)" "grown V S new w1 w'"
          "\<forall>p'. r = Inr p' \<longrightarrow> ending = None \<and> new = success_ids outs \<and> version_holds V S w' (pb_clips_version p') \<and>
             pb_succeeded_count p' = pb_succeeded_count p1 + int (length (success_ids outs)) \<and>
             pb_failed p' = pb_failed p1 @ filter (\<lambda>e. \<not> succeeded e) outs" by blast
        have "prefix (success_ids buffer1 @ new) (success_ids buffer @ success_ids (e # outs))"
          unfolding ids [symmetric] using new(1) by simp
        moreover have "grown V S (success_ids buffer1 @ new) w w'" by (rule grown_trans [OF grew(1) new(2)])
        moreover have "success_ids buffer1 @ new = success_ids buffer @ success_ids (e # outs)" if "new = success_ids outs"
          unfolding ids [symmetric] that ..
        ultimately show ?thesis using new(3) p1(2,3) by (intro exI [of _ "success_ids buffer1 @ new"]) metis
      qed
    qed
  qed
qed

lemma scan_rows_ids: "scan_rows wanted rows committed = Inr c \<Longrightarrow> map fst c = map fst committed @ in_scope (set wanted) (text_cells rows)"
proof (induction rows arbitrary: committed)
  case (Cons row rows)
  then show ?case
    by (auto simp: text_cells_def in_scope_def split: json.splits if_splits)
qed (simp add: text_cells_def in_scope_def)

lemma reconcile_steps_ids:
  "batch_ids (rb_batches (foldl (reconcile_step committed) rb batches)) =
   batch_ids (rb_batches rb) @ filter (\<lambda>i. i \<notin> set (map fst committed)) (batch_ids batches)"
proof (induction batches arbitrary: rb)
  case (Cons b batches)
  have "map sp_clip_id (filter (\<lambda>item. sp_clip_id item \<notin> set (map fst committed)) (cb_items b)) =
      filter (\<lambda>i. i \<notin> set (map fst committed)) (map sp_clip_id (cb_items b))"
    by (simp add: filter_map comp_def)
  then have "batch_ids (rb_batches (reconcile_step committed rb b)) =
      batch_ids (rb_batches rb) @ filter (\<lambda>i. i \<notin> set (map fst committed)) (map sp_clip_id (cb_items b))"
    by (auto simp: reconcile_step_def Let_def batch_ids_def filter_empty_conv)
  then show ?case using Cons by (simp add: batch_ids_def)
qed (simp add: batch_ids_def)

lemma reconcile_batches_result:
  assumes store: "clip_store V S store" and holds: "version_holds V S w (ds_version dataset)" and scope: "set (batch_ids batches) \<subseteq> S"
    and call: "reconcile_batches store batches dataset w = (r, w')"
  shows "undisturbed V S w w'"
    and "r = Inr rb \<Longrightarrow> distinct (batch_ids batches) \<and>
      batch_ids (rb_batches rb) = filter (\<lambda>i. i \<notin> set (in_scope S (current V w))) (batch_ids batches)"
proof -
  obtain r1 w1 where v: "validate_committed_versions store dataset w = (r1, w1)" by (cases "validate_committed_versions store dataset w")
  have u1: "undisturbed V S w w1"
    using v clip_storeD(3) [OF store] undisturbed_trans [of V S w _ w1]
    by (fastforce simp: validate_committed_versions_def sbind_def sraise_def sreturn_def split: sum.splits prod.splits if_splits)
  obtain r2 w2 where s: "scan_committed store (batch_ids batches) dataset w1 = (r2, w2)"
    by (cases "scan_committed store (batch_ids batches) dataset w1")
  let ?columns = "[''clip_id'', ''record_schema_version'', ''media_contract_version'']"
  obtain r3 w3 where scan: "ls_scan store dataset ?columns w1 = (r3, w3)" by (cases "ls_scan store dataset ?columns w1")
  have w2: "w2 = w1 \<or> w2 = w3"
    using s scan by (auto simp: scan_committed_def sbind_def sreturn_def slift_def split: sum.splits if_splits)
  note scanned = clip_storeD(4) [OF store scan]
  have u2: "undisturbed V S w w2" using u1 w2 scanned undisturbed_trans [OF u1] by blast
  have "w' = w1 \<or> w' = w2"
    using call v s by (auto simp: reconcile_batches_def sbind_def sraise_def sreturn_def split: sum.splits if_splits)
  then show "undisturbed V S w w'" using u1 u2 by auto
  assume "r = Inr rb"
  then obtain committed where c: "distinct (batch_ids batches)" "r2 = Inr committed"
    "rb = foldl (reconcile_step committed) \<lparr>rb_batches = [], rb_complete_batches = 0, rb_partial_batches = 0, rb_unknown_batches = 0,
            rb_committed_clip_rows = length committed\<rparr> batches"
    using call v s by (auto simp: reconcile_batches_def result_simps split: if_splits)
  have "i \<in> set (map fst committed) \<longleftrightarrow> i \<in> set (in_scope S (current V w))" if i: "i \<in> set (batch_ids batches)" for i
  proof -
    obtain bs where bs: "r3 = Inr bs" "scan_rows (batch_ids batches) (concat bs) [] = Inr committed"
      using s scan c(2) i by (auto simp: scan_committed_def result_simps split: if_splits)
    have "version_holds V S w1 (ds_version dataset)" using version_holds_undisturbed [OF holds u1] .
    then have "mset (in_scope S (text_cells (concat bs))) = mset (in_scope S (current V w1))"
      using scanned bs(1) by (simp add: version_holds_def)
    then have "set (in_scope S (text_cells (concat bs))) = set (in_scope S (current V w1))" by (rule mset_eq_setD)
    then have "i \<in> set (in_scope S (text_cells (concat bs))) \<longleftrightarrow> i \<in> set (in_scope S (current V w))"
      using u1 by (simp add: undisturbed_def)
    moreover have "i \<in> set (map fst committed) \<longleftrightarrow> i \<in> set (in_scope S (text_cells (concat bs)))"
      unfolding scan_rows_ids [OF bs(2)] using i scope by (auto simp: in_scope_def)
    ultimately show ?thesis by simp
  qed
  then have "filter (\<lambda>i. i \<notin> set (map fst committed)) (batch_ids batches) = filter (\<lambda>i. i \<notin> set (in_scope S (current V w))) (batch_ids batches)"
    by (intro filter_cong) auto
  then show "distinct (batch_ids batches) \<and>
      batch_ids (rb_batches rb) = filter (\<lambda>i. i \<notin> set (in_scope S (current V w))) (batch_ids batches)"
    using c(1,3) reconcile_steps_ids by (simp add: batch_ids_def)
qed

section \<open>A run\<close>

lemma retry_loop_undisturbed:
  assumes "\<And>x. undisturbed V S x (snd (func x))" "\<And>n x. undisturbed V S x (sleep n x)"
  shows "undisturbed V S w (snd (retry_loop sleep to_retry b m k func attempts w))"
proof (induction attempts arbitrary: w)
  case (Cons a later)
  obtain r w1 where f: "func w = (r, w1)" by (cases "func w")
  then have "undisturbed V S w w1" using assms(1) [of w] by simp
  moreover have "undisturbed V S w1 (snd (retry_loop sleep to_retry b m k func later (sleep (min (b ^ a) m) w1)))"
    using undisturbed_trans [OF assms(2) Cons] .
  ultimately show ?case using f undisturbed_trans by (cases r) (auto simp: Let_def)
qed (simp add: sraise_def)

lemma distinct_sub_mset: "mset xs \<subseteq># mset ys \<Longrightarrow> distinct ys \<Longrightarrow> distinct xs"
proof -
  assume sub: "mset xs \<subseteq># mset ys" and "distinct ys"
  then have "count (mset ys) a \<le> 1" for a unfolding distinct_count_atmost_1 by simp
  then have le: "count (mset xs) a \<le> 1" for a
    using mset_subset_eq_count [OF sub] order_trans by blast
  show ?thesis
    unfolding distinct_count_atmost_1
  proof
    fix a
    show "count (mset xs) a = (if a \<in> set xs then 1 else 0)"
    proof (cases "a \<in> set xs")
      case True
      then have "count (mset xs) a \<noteq> 0" unfolding count_mset_0_iff by simp
      then have "count (mset xs) a = 1" using le [of a] by linarith
      then show ?thesis using True by simp
    qed (simp add: count_mset_0_iff)
  qed
qed

lemma success_ids_sub: "mset (success_ids outs) \<subseteq># mset (map entry_id outs)"
  by (simp add: success_ids_def image_mset_subseteq_mono)

lemma publish_missing_result:
  assumes store: "clip_store V S (cr_store cr)" and iterate: "one_outcome_per_span (cr_iterate cr)"
    and scope: "set (batch_ids batches) \<subseteq> S" and once: "distinct (in_scope S (current V w))"
    and holds: "version_holds V S w (ds_version dataset)"
    and call: "publish_missing cr batches dataset w = (r, w')"
  shows "\<exists>new. set new \<subseteq> set (batch_ids batches) \<and> distinct (in_scope S (current V w) @ new) \<and> grown V S new w w' \<and>
    (\<forall>p. r = Inr p \<longrightarrow> version_holds V S w' (pb_clips_version p) \<and> pb_succeeded_count p = int (length new) \<and>
       (\<forall>i \<in> set (batch_ids batches). i \<in> set (in_scope S (current V w')) \<or> i \<in> entry_id ` set (pb_failed p)))"
proof (cases "batches = []")
  case True
  then show ?thesis
    using call holds once undisturbed_grown [of V S w w] by (intro exI [of _ "[]"]) (auto simp: publish_missing_def Let_def sreturn_def batch_ids_def)
next
  case False
  obtain r1 w1 where rec: "reconcile_batches (cr_store cr) batches dataset w = (r1, w1)" by (cases "reconcile_batches (cr_store cr) batches dataset w")
  note reconciled = reconcile_batches_result [OF store holds scope rec]
  have grown1: "grown V S [] w w1" using reconciled(1) by (simp add: undisturbed_grown)
  show ?thesis
  proof (cases r1)
    case (Inl e)
    then have "w' = w1" "r = Inl e" using call rec False by (auto simp: publish_missing_def Let_def sbind_def)
    then show ?thesis using grown1 once by (intro exI [of _ "[]"]) auto
  next
    case (Inr rb)
    have missing: "batch_ids (rb_batches rb) = filter (\<lambda>i. i \<notin> set (in_scope S (current V w))) (batch_ids batches)"
      "distinct (batch_ids batches)"
      using reconciled(2) Inr by auto
    have holds1: "version_holds V S w1 (ds_version dataset)" using version_holds_undisturbed [OF holds reconciled(1)] .
    have same: "in_scope S (current V w1) = in_scope S (current V w)" using reconciled(1) by (simp add: undisturbed_def)
    show ?thesis
    proof (cases "rb_batches rb = []")
      case True
      then have "batch_ids (rb_batches rb) = []" by (simp add: batch_ids_def)
      then have "\<forall>i \<in> set (batch_ids batches). i \<in> set (in_scope S (current V w))" unfolding missing(1) by (auto simp: filter_empty_conv)
      moreover have "w' = w1" "r = Inr \<lparr>pb_failed = [], pb_succeeded_count = 0, pb_clips_version = ds_version dataset\<rparr>"
        using call rec False Inr True by (auto simp: publish_missing_def Let_def sbind_def sreturn_def)
      ultimately show ?thesis using grown1 once holds1 same by (intro exI [of _ "[]"]) auto
    next
      case False
      obtain outs ending where it: "cr_iterate cr (rb_batches rb) = (outs, ending)" by (cases "cr_iterate cr (rb_batches rb)")
      have sub: "mset (map entry_id outs) \<subseteq># mset (batch_ids (rb_batches rb))"
        and all: "ending = None \<Longrightarrow> mset (map entry_id outs) = mset (batch_ids (rb_batches rb))"
        using iterate [unfolded one_outcome_per_span_def, rule_format, of "rb_batches rb"] it by simp_all
      have sub_ids: "mset (success_ids outs) \<subseteq># mset (batch_ids (rb_batches rb))" using success_ids_sub sub by (rule subset_mset.order_trans)
      then have within: "set (success_ids outs) \<subseteq> set (batch_ids (rb_batches rb))" by (metis set_mset_mono set_mset_mset)
      have fresh: "distinct (in_scope S (current V w) @ success_ids outs)"
        using distinct_sub_mset [OF sub_ids] missing once within by auto
      have subs: "set (success_ids outs) \<subseteq> set (batch_ids batches)" using within unfolding missing(1) by auto
      have "publish_loop (cr_store cr) (cr_clips_per_publish_batch cr) (cr_storage_attempts cr) ending outs []
          \<lparr>pb_failed = [], pb_succeeded_count = 0, pb_clips_version = ds_version dataset\<rparr> w1 = (r, w')"
        using call rec \<open>batches \<noteq> []\<close> Inr False it by (simp add: publish_missing_def Let_def sbind_def publish_outcomes_def)
      note loop = publish_loop_result [OF store this]
      have "set (success_ids [] @ success_ids outs) \<subseteq> S" "distinct (in_scope S (current V w1) @ success_ids [] @ success_ids outs)"
        using subs scope fresh same by auto
      from loop [OF this] holds1
      obtain new where new: "prefix new (success_ids outs)" "grown V S new w1 w'"
        "\<forall>p. r = Inr p \<longrightarrow> ending = None \<and> new = success_ids outs \<and> version_holds V S w' (pb_clips_version p) \<and>
           pb_succeeded_count p = int (length (success_ids outs)) \<and> pb_failed p = filter (\<lambda>e. \<not> succeeded e) outs"
        by auto
      have grew: "grown V S new w w'" using grown_trans [OF grown1 new(2)] by simp
      have "i \<in> set (in_scope S (current V w')) \<or> i \<in> entry_id ` set (pb_failed p)"
        if p: "r = Inr p" and i: "i \<in> set (batch_ids batches)" for p i
      proof (cases "i \<in> set (in_scope S (current V w))")
        case False
        then have "i \<in> set (map entry_id outs)"
          using i new(3) p missing(1) mset_eq_setD [OF all] by simp
        then obtain e where e: "e \<in> set outs" "i = entry_id e" by auto
        then show ?thesis
          using new(3) p grew by (cases "succeeded e") (auto simp: grown_def success_ids_def)
      qed (use grew in \<open>simp add: grown_def\<close>)
      moreover have "set new \<subseteq> set (success_ids outs)" using new(1) by (auto dest: set_mono_prefix)
      moreover have "distinct (in_scope S (current V w) @ new)"
        using fresh new(1) by (auto simp: prefix_def)
      ultimately show ?thesis using new(3) grew subs by (intro exI [of _ new]) auto
    qed
  qed
qed

lemma report_run_undisturbed:
  assumes "clip_store V S (cr_store cr)" "\<And>es x. undisturbed V S x (snd (cr_write_errors cr es x))"
    "\<And>c es x. undisturbed V S x (snd (cr_write_summary cr c es x))"
  shows "spreserves (undisturbed V S) (report_run cr p)"
proof -
  have trans: "transp (undisturbed V S)" using undisturbed_trans [of V S] by (auto intro!: transpI)
  have refl: "reflp (undisturbed V S)" by (auto intro!: reflpI)
  note simple = spreserves_simple [OF refl]
  have slept: "undisturbed V S x (ls_sleep (cr_store cr) n x)" for n x using append_storeD(7) [OF clip_storeD(1) [OF assms(1)]] .
  have "spreserves (undisturbed V S) (do_with_retries (ls_sleep (cr_store cr)) q k b m (cr_write_errors cr es))" for q k b m es
    using retry_loop_undisturbed [OF assms(2) slept] by (simp add: spreserves_def do_with_retries_def)
  moreover have "spreserves (undisturbed V S) (if cr_local_media_root cr then cr_write_summary cr c es else sreturn ())" for c es
    using assms(3) by (simp add: spreserves_def sreturn_def)
  ultimately show ?thesis
    unfolding report_run_def Let_def by (intro spreserves_sbind [OF trans] simple)
qed

lemma report_run_Inr: "report_run cr p w = (Inr res, w') \<Longrightarrow>
    rr_succeeded res = pb_succeeded_count p \<and> rr_total res = rr_succeeded res + rr_failed res \<and>
    rr_outcomes res = pb_failed p \<and> rr_clips_lance_version res = pb_clips_version p"
  by (auto simp: report_run_def Let_def result_simps)

lemma run_cases:
  assumes "cr_discover cr w = (Inr batches, w)" "run cr w = (r, w')"
  obtains (refused) e where "open_or_create_clip_table (cr_store cr) w = (Inl e, w')" "r = Inl e"
    | (unpublished) d w1 e where "open_or_create_clip_table (cr_store cr) w = (Inr d, w1)" "publish_missing cr batches d w1 = (Inl e, w')" "r = Inl e"
    | (published) d w1 p w2 where "open_or_create_clip_table (cr_store cr) w = (Inr d, w1)" "publish_missing cr batches d w1 = (Inr p, w2)"
        "report_run cr p w2 = (r, w')"
proof (cases "open_or_create_clip_table (cr_store cr) w")
  case (Pair r1 w1)
  show thesis
  proof (cases r1)
    case (Inl e)
    then show thesis using assms Pair by (intro refused [of e]) (auto simp: run_def sbind_def)
  next
    case (Inr d)
    obtain r2 w2 where m: "publish_missing cr batches d w1 = (r2, w2)" by (cases "publish_missing cr batches d w1")
    show thesis
    proof (cases r2)
      case (Inl e)
      then show thesis using assms Pair Inr m by (intro unpublished [of d w1 e]) (auto simp: run_def sbind_def)
    next
      case (Inr p)
      then show thesis using assms Pair \<open>r1 = Inr d\<close> m by (intro published [of d w1 p w2]) (auto simp: run_def sbind_def)
    qed
  qed
qed

text \<open>C3: Whatever becomes of a run, no span has two rows: the table within the run's spans grows by rows of spans it
  did not hold, each once. A run that returns has a row or a reported failure for every span it discovered, counts
  the rows it added, and names a version that holds them, so a crashed run may be repeated until nothing is missing.\<close>
theorem clips_published_exactly_once:
  assumes "clip_store V S (cr_store cr)" and "one_outcome_per_span (cr_iterate cr)"
    and "\<And>es x. undisturbed V S x (snd (cr_write_errors cr es x))" and "\<And>c es x. undisturbed V S x (snd (cr_write_summary cr c es x))"
    and "cr_discover cr w = (Inr batches, w)" and "set (batch_ids batches) \<subseteq> S" and "distinct (in_scope S (current V w))"
    and "run cr w = (r, w')"
  shows "\<exists>new. set new \<subseteq> set (batch_ids batches) \<and> in_scope S (current V w') = in_scope S (current V w) @ new \<and>
    distinct (in_scope S (current V w')) \<and>
    (\<forall>res. r = Inr res \<longrightarrow> rr_succeeded res = int (length new) \<and> rr_total res = rr_succeeded res + rr_failed res \<and>
       in_scope S (tv_ids V w' (rr_clips_lance_version res)) = in_scope S (current V w') \<and>
       (\<forall>i \<in> set (batch_ids batches). i \<in> set (in_scope S (current V w')) \<or> i \<in> entry_id ` set (rr_outcomes res)))"
proof -
  note missing = publish_missing_result [OF assms(1,2,6)]
  have opened: "undisturbed V S w w1 \<and> (\<forall>d. q = Inr d \<longrightarrow> version_holds V S w1 (ds_version d))"
    if "open_or_create_clip_table (cr_store cr) w = (q, w1)" for q w1
    using open_or_create_result [OF assms(1) that [unfolded open_or_create_clip_table_def]] .
  have once: "distinct (in_scope S (current V w1))" if "undisturbed V S w w1" for w1
    using that assms(7) by (simp add: undisturbed_def)
  from assms(5,8) show ?thesis
  proof (cases rule: run_cases)
    case (refused e)
    then show ?thesis using opened [OF refused(1)] assms(7) by (intro exI [of _ "[]"]) (simp add: undisturbed_def)
  next
    case (unpublished d w1 e)
    from opened [OF unpublished(1)] have o: "undisturbed V S w w1" "version_holds V S w1 (ds_version d)" by auto
    from missing [OF once [OF o(1)] o(2) unpublished(2)] obtain new
      where "set new \<subseteq> set (batch_ids batches)" "distinct (in_scope S (current V w1) @ new)" "grown V S new w1 w'" by blast
    then show ?thesis using o(1) unpublished(3) by (intro exI [of _ new]) (simp add: grown_def undisturbed_def)
  next
    case (published d w1 p w2)
    from opened [OF published(1)] have o: "undisturbed V S w w1" "version_holds V S w1 (ds_version d)" by auto
    from missing [OF once [OF o(1)] o(2) published(2)] obtain new
      where new: "set new \<subseteq> set (batch_ids batches)" "distinct (in_scope S (current V w1) @ new)" "grown V S new w1 w2"
        "version_holds V S w2 (pb_clips_version p)" "pb_succeeded_count p = int (length new)"
        "\<forall>i \<in> set (batch_ids batches). i \<in> set (in_scope S (current V w2)) \<or> i \<in> entry_id ` set (pb_failed p)" by blast
    have reported: "undisturbed V S w2 w'"
      using report_run_undisturbed [where p = p, OF assms(1,3,4)] published(3) unfolding spreserves_def by (metis snd_conv)
    have "version_holds V S w' (pb_clips_version p)" using version_holds_undisturbed [OF new(4) reported] .
    then show ?thesis
      using new o(1) reported report_run_Inr [of cr p w2 _ w'] published(3)
      by (intro exI [of _ new]) (auto simp: grown_def undisturbed_def version_holds_def)
  qed
qed

section \<open>A resumed run\<close>

text \<open>The table holds clip \<open>a\<close> from a run that crashed; of the spans \<open>a\<close>, \<open>b\<close>, \<open>c\<close> the last cannot be cut, and the commit
  of \<open>b\<close> takes place unanswered.\<close>

definition sample_span :: "string \<Rightarrow> span_work_item" where
  "sample_span i = \<lparr>sp_clip_id = i, sp_span_group_id = ''g'', sp_view_name = ''v'', sp_source_id = ''s'', sp_episode_id = ''e'',
     sp_episode_index = 0, sp_subtask_index = 0, sp_subtask_name = ''t'', sp_task_index = 0, sp_task_name = ''t'',
     sp_task_description = JNull, sp_frame_start = 0, sp_frame_end = 30, sp_start_ns = 0, sp_end_ns = 1000000000,
     sp_native_fps = 30, sp_episode_from_timestamp = 0\<rparr>"

definition sample_batches :: "chunk_span_batch list" where
  "sample_batches =
     [\<lparr>cb_chunk_mp4_uri = ''m1'', cb_data_parquet_uri = ''p1'', cb_items = [sample_span ''a'', sample_span ''b'']\<rparr>,
      \<lparr>cb_chunk_mp4_uri = ''m2'', cb_data_parquet_uri = ''p2'', cb_items = [sample_span ''c'']\<rparr>]"

definition sample_work :: "chunk_span_batch \<Rightarrow> batch_result" where
  "sample_work batch = (if cb_chunk_mp4_uri batch = ''m2'' then BatchFailed ''cut-index'' ''no index''
     else BatchCut (\<lambda>item. SpanCut (''/m/'' @ sp_clip_id item) ''/m/act'' JNull))"

definition sample_clip_run :: "table_world clip_run" where
  "sample_clip_run = \<lparr>cr_store = memory_store ''clip_id'' LANCE_DATA_STORAGE_VERSION CLIP_SCHEMA, cr_discover = sreturn sample_batches,
     cr_iterate = iter_sequential (process_batch sample_work ''d''), cr_clips_per_publish_batch = 1, cr_storage_attempts = 3,
     cr_write_errors = (\<lambda>_. sreturn ()), cr_local_media_root = True, cr_write_summary = (\<lambda>_ _. sreturn ())\<rparr>"

definition sample_clip_table :: table_world where
  "sample_clip_table = \<lparr>tw_versions = [[''a'']], tw_commits = [(True, False)]\<rparr>"

lemma memory_clip_store: "clip_store memory_view S (memory_store ''clip_id'' storage_version schema)"
proof -
  have cells: "text_cells (map (\<lambda>x. [(''clip_id'', JStr x)]) xs) = xs" for xs
    by (simp add: text_cells_def obj_get_def comp_def)
  have latest: "version_holds memory_view S w (int (length (tw_versions w)))" for w
    by (simp add: version_holds_def current_def memory_view_def)
  show ?thesis
    using memory_store_appends [of S "''clip_id''"] latest
    by (auto simp: clip_store_def memory_store_def Let_def sreturn_def cells)
qed

lemma sample_clip_run_eq:
  "run sample_clip_run sample_clip_table =
   (Inr \<lparr>rr_total = 2, rr_succeeded = 1, rr_failed = 1,
      rr_outcomes = [span_outcome (sample_span ''c'') ''d'' (SpanFailed ''cut-index'' ''no index'')], rr_clips_lance_version = 2\<rparr>,
    \<lparr>tw_versions = [[''a''], [''a'', ''b'']], tw_commits = []\<rparr>)"
  by code_simp

lemma clips_published_exactly_once_witness:
  "fst (run sample_clip_run sample_clip_table) =
     Inr \<lparr>rr_total = 2, rr_succeeded = 1, rr_failed = 1,
       rr_outcomes = [span_outcome (sample_span ''c'') ''d'' (SpanFailed ''cut-index'' ''no index'')], rr_clips_lance_version = 2\<rparr> \<and>
   (\<exists>new. set new \<subseteq> {''a'', ''b'', ''c''} \<and> in_scope UNIV (current memory_view (snd (run sample_clip_run sample_clip_table))) = [''a''] @ new \<and>
      length new = 1)"
proof -
  obtain r w' where r: "run sample_clip_run sample_clip_table = (r, w')" by (cases "run sample_clip_run sample_clip_table")
  have start: "in_scope UNIV (current memory_view sample_clip_table) = [''a'']"
    by (simp add: current_memory newest_def sample_clip_table_def in_scope_def)
  have ids: "batch_ids sample_batches = [''a'', ''b'', ''c'']" by (simp add: batch_ids_def sample_batches_def sample_span_def)
  have "\<exists>new. set new \<subseteq> set (batch_ids sample_batches) \<and> in_scope UNIV (current memory_view w') = in_scope UNIV (current memory_view sample_clip_table) @ new \<and>
    distinct (in_scope UNIV (current memory_view w')) \<and>
    (\<forall>res. r = Inr res \<longrightarrow> rr_succeeded res = int (length new) \<and> rr_total res = rr_succeeded res + rr_failed res \<and>
       in_scope UNIV (tv_ids memory_view w' (rr_clips_lance_version res)) = in_scope UNIV (current memory_view w') \<and>
       (\<forall>i \<in> set (batch_ids sample_batches). i \<in> set (in_scope UNIV (current memory_view w')) \<or> i \<in> entry_id ` set (rr_outcomes res)))"
    by (rule clips_published_exactly_once [OF _ _ _ _ _ _ _ r])
      (simp_all add: sample_clip_run_def memory_clip_store sequential_one_outcome_per_span sreturn_def start)
  then show ?thesis using sample_clip_run_eq r unfolding start ids by auto
qed

end
