(* ===== verification/SamplingGrid.thy ===== *)
theory SamplingGrid
  imports NumpyArrays
begin

text \<open>
  \<^verbatim>\<open>core/sensors/sampling/grid.py\<close>: the sampling window and the sampling grid with their checks, and the iteration
  of a grid over its windows. Timestamps are \<^verbatim>\<open>int64\<close> arrays; bounds are Python integers. An iteration is the
  list of what it yields with the exception that ends it, if one does.
\<close>

datatype sampling_error = SamplingValueError | ToleranceExceeded

section \<open>Windows and grids\<close>

record sampling_window =
  sw_start :: int
  sw_exclusive_end :: int
  sw_timestamps :: "int list"

record sampling_grid =
  sg_start :: int
  sg_exclusive_end :: int
  sg_timestamps :: "int list"
  sg_stride :: int
  sg_duration :: int

definition require_strictly_increasing :: "int list \<Rightarrow> sampling_error + unit" where
  "require_strictly_increasing values =
     (if length values > 1 \<and> \<not> list_all (\<lambda>(x, y). x < y) (zip (butlast values) (tl values))
      then Inl SamplingValueError else Inr ())"

definition require_i64_array :: "int list \<Rightarrow> sampling_error + unit" where
  "require_i64_array values = (if list_all is_i64 values then Inr () else Inl SamplingValueError)"

definition strictly_increasing_int64_array :: "int list \<Rightarrow> sampling_error + unit" where
  "strictly_increasing_int64_array values = rbind (require_i64_array values) (\<lambda>_. require_strictly_increasing values)"

definition end_ns_ge_start_ns :: "int \<Rightarrow> int \<Rightarrow> sampling_error + unit" where
  "end_ns_ge_start_ns start v = (if v < start then Inl SamplingValueError else Inr ())"

definition start_ns_le_first_timestamp :: "int \<Rightarrow> int list \<Rightarrow> sampling_error + unit" where
  "start_ns_le_first_timestamp start values =
     (if values = [] then Inr () else if start > hd values then Inl SamplingValueError else Inr ())"

definition start_ns_eq_first_timestamp :: "int \<Rightarrow> int list \<Rightarrow> sampling_error + unit" where
  "start_ns_eq_first_timestamp start values =
     (if values = [] then Inr () else if start \<noteq> hd values then Inl SamplingValueError else Inr ())"

definition end_ns_lt_exclusive_end_ns :: "int \<Rightarrow> int list \<Rightarrow> sampling_error + unit" where
  "end_ns_lt_exclusive_end_ns exclusive_end values =
     (if values = [] then Inr () else if last values \<ge> exclusive_end then Inl SamplingValueError else Inr ())"

definition positive_value :: "int \<Rightarrow> sampling_error + unit" where
  "positive_value v = (if v \<le> 0 then Inl SamplingValueError else Inr ())"

definition make_sampling_window :: "int \<Rightarrow> int \<Rightarrow> int list \<Rightarrow> sampling_error + sampling_window" where
  "make_sampling_window start exclusive_end timestamps =
     rbind (end_ns_ge_start_ns start exclusive_end) (\<lambda>_.
     rbind (strictly_increasing_int64_array timestamps) (\<lambda>_.
     rbind (start_ns_le_first_timestamp start timestamps) (\<lambda>_.
     rbind (end_ns_lt_exclusive_end_ns exclusive_end timestamps) (\<lambda>_.
     Inr \<lparr>sw_start = start, sw_exclusive_end = exclusive_end, sw_timestamps = timestamps\<rparr>))))"

definition make_sampling_grid :: "int \<Rightarrow> int \<Rightarrow> int list \<Rightarrow> int \<Rightarrow> int \<Rightarrow> sampling_error + sampling_grid" where
  "make_sampling_grid start exclusive_end timestamps stride duration =
     rbind (end_ns_ge_start_ns start exclusive_end) (\<lambda>_.
     rbind (strictly_increasing_int64_array timestamps) (\<lambda>_.
     rbind (start_ns_eq_first_timestamp start timestamps) (\<lambda>_.
     rbind (end_ns_lt_exclusive_end_ns exclusive_end timestamps) (\<lambda>_.
     rbind (positive_value stride) (\<lambda>_.
     rbind (positive_value duration) (\<lambda>_.
     Inr \<lparr>sg_start = start, sg_exclusive_end = exclusive_end, sg_timestamps = timestamps,
       sg_stride = stride, sg_duration = duration\<rparr>))))))"

section \<open>The iteration of a grid\<close>

text \<open>The boundary is appended to the timestamps; one that does not fit \<^verbatim>\<open>int64\<close> makes an array of another
  type, which the first window refuses.\<close>

partial_function (option) windows_loop ::
  "sampling_grid \<Rightarrow> int list \<Rightarrow> int \<Rightarrow> (sampling_window list \<times> sampling_error option) option" where
  "windows_loop grid ts start =
     (if start < sg_exclusive_end grid then
        let window_end = min (start + sg_duration grid) (sg_exclusive_end grid);
            i = searchsorted_left ts start;
            j = searchsorted_left ts window_end
        in case (if is_i64 (sg_exclusive_end grid) then make_sampling_window start window_end (np_slice ts i j)
                 else Inl SamplingValueError) of
             Inl e \<Rightarrow> Some ([], Some e)
           | Inr window \<Rightarrow>
               Option.bind (windows_loop grid ts (start + sg_stride grid))
                 (\<lambda>(windows, raised). Some (window # windows, raised))
      else Some ([], None))"

definition grid_windows :: "sampling_grid \<Rightarrow> (sampling_window list \<times> sampling_error option) option" where
  "grid_windows grid =
     (if sg_start grid = sg_exclusive_end grid then
        (case make_sampling_window (sg_start grid) (sg_exclusive_end grid) (butlast (sg_timestamps grid)) of
           Inl e \<Rightarrow> Some ([], Some e)
         | Inr window \<Rightarrow> Some ([window], None))
      else windows_loop grid (sg_timestamps grid @ [sg_exclusive_end grid]) (sg_start grid))"

section \<open>Facts on checked arrays and windows\<close>

lemma strictly_increasing_iff: "require_strictly_increasing xs = Inr () \<longleftrightarrow> sorted_wrt (<) xs"
proof (induction xs rule: induct_list012)
  case (3 x y zs)
  have "sorted_wrt (<) (x # y # zs) \<longleftrightarrow> x < y \<and> sorted_wrt (<) (y # zs)" by (auto intro: less_trans)
  then show ?case
    using 3(2) by (cases zs) (auto simp: require_strictly_increasing_def split: if_splits)
qed (simp_all add: require_strictly_increasing_def)

lemma strictly_increasing_int64_array_iff:
  "strictly_increasing_int64_array xs = Inr () \<longleftrightarrow> list_all is_i64 xs \<and> sorted_wrt (<) xs"
  by (auto simp: strictly_increasing_int64_array_def require_i64_array_def strictly_increasing_iff)

lemma unit_sum_eq: "(x :: 'e + unit) = Inr u \<longleftrightarrow> x = Inr ()" by simp

lemma make_sampling_window_Inr:
  assumes "start \<le> exclusive_end" "list_all is_i64 ts" "sorted_wrt (<) ts" "\<forall>t \<in> set ts. start \<le> t \<and> t < exclusive_end"
  shows "make_sampling_window start exclusive_end ts = Inr \<lparr>sw_start = start, sw_exclusive_end = exclusive_end, sw_timestamps = ts\<rparr>"
proof -
  have "strictly_increasing_int64_array ts = Inr ()" using assms(2,3) by (simp add: strictly_increasing_int64_array_iff)
  moreover have "start_ns_le_first_timestamp start ts = Inr ()" "end_ns_lt_exclusive_end_ns exclusive_end ts = Inr ()"
    using assms(4) hd_in_set [of ts] last_in_set [of ts]
    by (simp_all add: start_ns_le_first_timestamp_def end_ns_lt_exclusive_end_ns_def) (meson hd_in_set last_in_set not_le not_less)+
  ultimately show ?thesis
    using assms(1) by (simp add: make_sampling_window_def end_ns_ge_start_ns_def)
qed

text \<open>What the constructor of a grid has checked.\<close>

definition grid_ok :: "sampling_grid \<Rightarrow> bool" where
  "grid_ok g \<longleftrightarrow> sg_start g \<le> sg_exclusive_end g \<and> list_all is_i64 (sg_timestamps g) \<and> sorted_wrt (<) (sg_timestamps g) \<and>
     (\<forall>t \<in> set (sg_timestamps g). sg_start g \<le> t \<and> t < sg_exclusive_end g) \<and> 0 < sg_stride g \<and> 0 < sg_duration g"

lemma sorted_between: "sorted xs \<Longrightarrow> (x :: int) \<in> set xs \<Longrightarrow> hd xs \<le> x \<and> x \<le> last xs"
  by (induction xs) auto

lemma make_sampling_grid_ok:
  assumes "make_sampling_grid start exclusive_end ts stride duration = Inr g"
  shows "grid_ok g"
    and "g = \<lparr>sg_start = start, sg_exclusive_end = exclusive_end, sg_timestamps = ts, sg_stride = stride, sg_duration = duration\<rparr>"
proof -
  have eqs: "strictly_increasing_int64_array ts = Inr ()" "start \<le> exclusive_end" "0 < stride" "0 < duration"
    "ts \<noteq> [] \<longrightarrow> start = hd ts" "ts \<noteq> [] \<longrightarrow> last ts < exclusive_end"
    and g: "g = \<lparr>sg_start = start, sg_exclusive_end = exclusive_end, sg_timestamps = ts, sg_stride = stride, sg_duration = duration\<rparr>"
    using assms by (auto simp: make_sampling_grid_def rbind_eq_Inr end_ns_ge_start_ns_def start_ns_eq_first_timestamp_def
        end_ns_lt_exclusive_end_ns_def positive_value_def split: if_splits)
  have "start \<le> t \<and> t < exclusive_end" if "t \<in> set ts" for t
    using sorted_between [of ts t] that eqs by (auto simp: strictly_increasing_int64_array_iff strict_sorted_imp_sorted)
  then show "grid_ok g" using eqs g by (simp add: grid_ok_def strictly_increasing_int64_array_iff)
  show "g = \<lparr>sg_start = start, sg_exclusive_end = exclusive_end, sg_timestamps = ts, sg_stride = stride, sg_duration = duration\<rparr>"
    by (rule g)
qed

section \<open>The windows of a grid\<close>

text \<open>The \<open>k\<close>-th window starts \<open>k\<close> strides after the grid and holds the timestamps within its bounds.\<close>

definition nominal_window :: "sampling_grid \<Rightarrow> int \<Rightarrow> sampling_window" where
  "nominal_window g start =
     (let window_end = min (start + sg_duration g) (sg_exclusive_end g)
      in \<lparr>sw_start = start, sw_exclusive_end = window_end,
          sw_timestamps = filter (\<lambda>t. start \<le> t \<and> t < window_end) (sg_timestamps g)\<rparr>)"

function nominal_windows :: "sampling_grid \<Rightarrow> int \<Rightarrow> sampling_window list" where
  "nominal_windows g start =
     (if start < sg_exclusive_end g \<and> 0 < sg_stride g then nominal_window g start # nominal_windows g (start + sg_stride g) else [])"
  by pat_completeness auto
termination
  by (relation "measure (\<lambda>(g, start). nat (sg_exclusive_end g - start))") auto

declare nominal_windows.simps [simp del]

lemma windows_loop_nominal:
  assumes "grid_ok g" "is_i64 (sg_exclusive_end g)" "sg_start g \<le> start"
  shows "windows_loop g (sg_timestamps g @ [sg_exclusive_end g]) start = Some (nominal_windows g start, None)"
  using assms
proof (induction g start rule: nominal_windows.induct)
  case (1 g start)
  let ?ts = "sg_timestamps g @ [sg_exclusive_end g]"
  let ?stop = "min (start + sg_duration g) (sg_exclusive_end g)"
  show ?case
  proof (cases "start < sg_exclusive_end g")
    case True
    have stride: "0 < sg_stride g" using 1(2) by (simp add: grid_ok_def)
    have asc: "sorted_wrt (<) (sg_timestamps g)" and bounds: "\<forall>t \<in> set (sg_timestamps g). t < sg_exclusive_end g"
      using 1(2) by (auto simp: grid_ok_def)
    then have "sorted ?ts" by (auto simp: sorted_append strict_sorted_imp_sorted less_imp_le)
    from slice_searchsorted [OF this, of start ?stop]
    have slice: "np_slice ?ts (searchsorted_left ?ts start) (searchsorted_left ?ts ?stop) = sw_timestamps (nominal_window g start)"
      by (simp add: nominal_window_def Let_def)
    have "make_sampling_window start ?stop (sw_timestamps (nominal_window g start)) = Inr (nominal_window g start)"
    proof -
      have "start \<le> ?stop" using True 1(2) by (simp add: grid_ok_def)
      then show ?thesis
        using 1(2) by (subst make_sampling_window_Inr)
          (auto simp: grid_ok_def nominal_window_def Let_def list_all_iff sorted_wrt_filter)
    qed
    moreover have "windows_loop g ?ts (start + sg_stride g) = Some (nominal_windows g (start + sg_stride g), None)"
      using True stride 1(2-4) by (intro 1(1)) auto
    ultimately show ?thesis
      using True stride 1(3) slice
      by (subst windows_loop.simps, subst nominal_windows.simps) (simp add: Let_def)
  next
    case False
    then show ?thesis by (subst windows_loop.simps, subst nominal_windows.simps) simp
  qed
qed

lemma nominal_windows_nth:
  "k < length (nominal_windows g start) \<Longrightarrow> nominal_windows g start ! k = nominal_window g (start + int k * sg_stride g)"
proof (induction g start arbitrary: k rule: nominal_windows.induct)
  case (1 g start)
  show ?case
  proof (cases "start < sg_exclusive_end g \<and> 0 < sg_stride g")
    case True
    then have eq: "nominal_windows g start = nominal_window g start # nominal_windows g (start + sg_stride g)"
      by (subst nominal_windows.simps) simp
    show ?thesis
    proof (cases k)
      case (Suc m)
      then show ?thesis using 1(1) [OF True, of m] 1(2) by (simp add: eq algebra_simps)
    qed (simp add: eq)
  next
    case False
    then show ?thesis using 1(2) by (subst (asm) nominal_windows.simps) (simp split: if_splits)
  qed
qed

lemma nominal_windows_length:
  assumes "0 < sg_stride g" "start < sg_exclusive_end g"
  shows "int (length (nominal_windows g start)) = (sg_exclusive_end g - start - 1) div sg_stride g + 1"
  using assms
proof (induction g start rule: nominal_windows.induct)
  case (1 g start)
  let ?s = "sg_stride g" and ?e = "sg_exclusive_end g"
  have eq: "nominal_windows g start = nominal_window g start # nominal_windows g (start + ?s)"
    using 1(2,3) by (subst nominal_windows.simps) simp
  show ?case
  proof (cases "start + ?s < ?e")
    case True
    have "(?e - start - 1) div ?s = (?e - (start + ?s) - 1 + ?s) div ?s" by (simp add: algebra_simps)
    also have "\<dots> = (?e - (start + ?s) - 1) div ?s + 1" using 1(2) by (intro div_add_self2) auto
    finally show ?thesis using 1 True by (simp add: eq)
  next
    case False
    then have "nominal_windows g (start + ?s) = []" by (subst nominal_windows.simps) simp
    moreover have "(?e - start - 1) div ?s = 0" using False 1(3) by (intro div_pos_pos_trivial) auto
    ultimately show ?thesis by (simp add: eq)
  qed
qed

lemma filter_between:
  "sorted xs \<Longrightarrow> a \<le> b \<Longrightarrow> filter (\<lambda>t. a \<le> t \<and> t < b) xs @ filter (\<lambda>t. b \<le> t) xs = filter (\<lambda>t. a \<le> (t :: int)) xs"
proof (induction xs)
  case (Cons x xs)
  show ?case
  proof (cases "x < b")
    case False
    then have "filter (\<lambda>t. a \<le> t \<and> t < b) xs = []" "filter (\<lambda>t. b \<le> t) xs = xs" "filter (\<lambda>t. a \<le> t) xs = xs"
      using Cons.prems by (force simp: filter_empty_conv filter_id_conv)+
    then show ?thesis using False Cons.prems by simp
  qed (use Cons in auto)
qed simp

lemma nominal_windows_tile:
  assumes "grid_ok g" "sg_stride g = sg_duration g"
  shows "concat (map sw_timestamps (nominal_windows g start)) = filter (\<lambda>t. start \<le> t) (sg_timestamps g)"
  using assms
proof (induction g start rule: nominal_windows.induct)
  case (1 g start)
  have asc: "sorted (sg_timestamps g)" and bound: "\<forall>t \<in> set (sg_timestamps g). t < sg_exclusive_end g" and pos: "0 < sg_stride g"
    using 1(2) by (auto simp: grid_ok_def strict_sorted_imp_sorted)
  show ?case
  proof (cases "start < sg_exclusive_end g")
    case True
    have "sw_timestamps (nominal_window g start) = filter (\<lambda>t. start \<le> t \<and> t < start + sg_stride g) (sg_timestamps g)"
      using bound 1(3) by (auto simp: nominal_window_def Let_def intro!: filter_cong)
    moreover have "concat (map sw_timestamps (nominal_windows g (start + sg_stride g))) = filter (\<lambda>t. start + sg_stride g \<le> t) (sg_timestamps g)"
      using True pos 1(2,3) by (intro 1(1)) auto
    ultimately show ?thesis
      using True pos filter_between [OF asc, of start "start + sg_stride g"] by (subst nominal_windows.simps) simp
  next
    case False
    then have "filter (\<lambda>t. start \<le> t) (sg_timestamps g) = []" using bound by (force simp: filter_empty_conv)
    then show ?thesis using False by (subst nominal_windows.simps) simp
  qed
qed

text \<open>The iteration as the list of nominal windows: the case of an empty interval has one, empty window.\<close>

lemma grid_windows_cases:
  assumes "grid_ok g" "is_i64 (sg_exclusive_end g)"
  shows "grid_windows g = Some (if sg_start g = sg_exclusive_end g then [nominal_window g (sg_start g)] else nominal_windows g (sg_start g), None)"
proof (cases "sg_start g = sg_exclusive_end g")
  case True
  then have "sg_timestamps g = []" using assms(1) by (cases "sg_timestamps g") (auto simp: grid_ok_def)
  then show ?thesis
    using True assms(1) make_sampling_window_Inr [of "sg_start g" "sg_start g" "[]"]
    by (simp add: grid_windows_def nominal_window_def grid_ok_def)
next
  case False
  then show ?thesis using windows_loop_nominal [OF assms order_refl] by (simp add: grid_windows_def)
qed

text \<open>C20: Iterating a grid that its constructor accepted, with a boundary that fits int64, ends without an exception;
  the k-th window starts k strides after the grid, ends at its duration or at the boundary and holds exactly the
  timestamps between; when stride and duration agree every timestamp is in exactly one window, in order.\<close>
theorem grid_windows_exact:
  assumes "make_sampling_grid start exclusive_end ts stride duration = Inr g" and "is_i64 exclusive_end"
  shows "\<exists>ws. grid_windows g = Some (ws, None) \<and>
    (\<forall>k < length ws. sw_start (ws ! k) = start + int k * stride \<and>
       sw_exclusive_end (ws ! k) = min (start + int k * stride + duration) exclusive_end \<and>
       sw_timestamps (ws ! k) = filter (\<lambda>t. sw_start (ws ! k) \<le> t \<and> t < sw_exclusive_end (ws ! k)) ts) \<and>
    (start < exclusive_end \<longrightarrow> int (length ws) = (exclusive_end - start - 1) div stride + 1) \<and>
    (stride = duration \<longrightarrow> concat (map sw_timestamps ws) = ts)"
proof -
  note ok = make_sampling_grid_ok [OF assms(1)]
  let ?ws = "if start = exclusive_end then [nominal_window g start] else nominal_windows g start"
  have ws: "grid_windows g = Some (?ws, None)" using grid_windows_cases [OF ok(1)] assms(2) by (simp add: ok(2))
  have nth: "?ws ! k = nominal_window g (start + int k * stride)" if "k < length ?ws" for k
    using that nominal_windows_nth [of k g start] by (auto simp: ok(2) split: if_splits)
  have bounds: "\<forall>t \<in> set ts. start \<le> t \<and> t < exclusive_end" using ok(1) by (simp add: grid_ok_def ok(2))
  have "concat (map sw_timestamps ?ws) = ts" if "stride = duration"
  proof (cases "start = exclusive_end")
    case True
    then have "ts = []" using bounds by (cases ts) auto
    then show ?thesis using True by (simp add: nominal_window_def ok(2))
  next
    case False
    have "filter (\<lambda>t. start \<le> t) ts = ts" using bounds by (intro filter_True) auto
    then show ?thesis using False that nominal_windows_tile [OF ok(1), of start] by (simp add: ok(2))
  qed
  moreover have "start < exclusive_end \<Longrightarrow> int (length ?ws) = (exclusive_end - start - 1) div stride + 1"
    using nominal_windows_length [of g start] ok(1) by (simp add: grid_ok_def ok(2))
  ultimately show ?thesis
    using ws nth by (intro exI [of _ ?ws]) (auto simp: nominal_window_def Let_def ok(2))
qed

definition sample_grid :: sampling_grid where
  "sample_grid = \<lparr>sg_start = 10, sg_exclusive_end = 45, sg_timestamps = [10, 20, 25, 40], sg_stride = 10, sg_duration = 10\<rparr>"

lemma grid_windows_exact_witness:
  "make_sampling_grid 10 45 [10, 20, 25, 40] 10 10 = Inr sample_grid \<and>
   (\<exists>ws. grid_windows sample_grid = Some (ws, None) \<and> length ws = 4 \<and> concat (map sw_timestamps ws) = [10, 20, 25, 40])"
proof -
  have made: "make_sampling_grid 10 45 [10, 20, 25, 40] 10 10 = Inr sample_grid" by code_simp
  show ?thesis using grid_windows_exact [OF made] made by (auto simp: is_i64_def)
qed

text \<open>A boundary past int64 is accepted by the constructor and refused by the first window.\<close>

lemma boundary_past_int64_raises:
  "make_sampling_grid 0 (2 ^ 63) [0] 10 10 = Inr \<lparr>sg_start = 0, sg_exclusive_end = 2 ^ 63, sg_timestamps = [0], sg_stride = 10, sg_duration = 10\<rparr> \<and>
   grid_windows \<lparr>sg_start = 0, sg_exclusive_end = 2 ^ 63, sg_timestamps = [0], sg_stride = 10, sg_duration = 10\<rparr> = Some ([], Some SamplingValueError)"
proof
  show "make_sampling_grid 0 (2 ^ 63) [0] 10 10 = Inr \<lparr>sg_start = 0, sg_exclusive_end = 2 ^ 63, sg_timestamps = [0], sg_stride = 10, sg_duration = 10\<rparr>"
    by code_simp
  show "grid_windows \<lparr>sg_start = 0, sg_exclusive_end = 2 ^ 63, sg_timestamps = [0], sg_stride = 10, sg_duration = 10\<rparr> = Some ([], Some SamplingValueError)"
    by (simp add: grid_windows_def windows_loop.simps [of _ _ 0] is_i64_def Let_def)
qed

end
