(* ===== verification/SamplingNearest.thy ===== *)
theory SamplingNearest
  imports SamplingGrid "HOL-Library.Multiset"
begin

text \<open>
  \<^verbatim>\<open>core/sensors/alignment/nearest.py\<close> and \<^verbatim>\<open>core/sensors/sampling/sampler.py\<close>: the distance of two \<^verbatim>\<open>int64\<close>
  timestamps computed on their bit patterns, the nearest observation of each reference, and the sampling of one
  window with its tolerance and its deduplication.
\<close>

unbundle bit_operations_syntax

section \<open>Distances without overflow\<close>

definition SIGN_BIT :: "64 word" where "SIGN_BIT = 0x8000000000000000"

definition timestamp_distance_ns :: "int list \<Rightarrow> int list \<Rightarrow> int list" where
  "timestamp_distance_ns left right =
     (let unsigned_left = map (\<lambda>t. (word_of_int t :: 64 word) XOR SIGN_BIT) left;
          unsigned_right = map (\<lambda>t. (word_of_int t :: 64 word) XOR SIGN_BIT) right
      in map2 (\<lambda>l r. uint (if l > r then l - r else r - l)) unsigned_left unsigned_right)"

section \<open>Nearest observations\<close>

definition nearest_timestamp_indices :: "int list \<Rightarrow> int list \<Rightarrow> sampling_error + nat list" where
  "nearest_timestamp_indices source requested =
     (if source = [] then Inl SamplingValueError
      else if requested = [] then Inl SamplingValueError
      else rbind (require_strictly_increasing source) (\<lambda>_.
        rbind (require_strictly_increasing requested) (\<lambda>_.
          if length source = 1 then Inr (replicate (length requested) 0)
          else
            let right_indices = map (\<lambda>i. max 1 (min i (length source - 1))) (map (searchsorted_left source) requested);
                nearest_indices = map (\<lambda>i. i - 1) right_indices;
                left_timestamps = map (\<lambda>i. source ! i) nearest_indices;
                right_timestamps = map (\<lambda>i. source ! i) right_indices;
                right_is_closer = map2 (<) (timestamp_distance_ns requested right_timestamps) (timestamp_distance_ns requested left_timestamps)
            in Inr (map (\<lambda>(closer, right, left). if closer then right else left) (zip right_is_closer (zip right_indices nearest_indices))))))"

section \<open>Sampling a window\<close>

definition find_closest_indices :: "int list \<Rightarrow> int list \<Rightarrow> sampling_error + nat list" where
  "find_closest_indices canonical grid =
     (if canonical = [] then Inl SamplingValueError
      else if grid = [] then Inl SamplingValueError
      else nearest_timestamp_indices canonical grid)"

text \<open>\<open>numpy.unique\<close> with counts.\<close>

definition np_unique_counts :: "nat list \<Rightarrow> nat list \<times> nat list" where
  "np_unique_counts xs = (let u = remdups_adj (sort xs) in (u, map (\<lambda>x. length (filter (\<lambda>y. y = x) xs)) u))"

definition sample_window_indices :: "int list \<Rightarrow> sampling_window \<Rightarrow> int option \<Rightarrow> bool \<Rightarrow> sampling_error + nat list \<times> nat list" where
  "sample_window_indices canonical window max_delta_ns dedup =
     (if length canonical < 1 then Inl SamplingValueError
      else if sw_timestamps window = [] then rbind (require_strictly_increasing canonical) (\<lambda>_. Inr ([], []))
      else
        let active_grid = sw_timestamps window in
        rbind (find_closest_indices canonical active_grid) (\<lambda>indices.
        rbind (case max_delta_ns of
                 None \<Rightarrow> Inr ()
               | Some max_delta \<Rightarrow>
                   let deltas = timestamp_distance_ns (map (\<lambda>i. canonical ! i) indices) active_grid
                   in if list_ex (\<lambda>d. d > max_delta) deltas then Inl ToleranceExceeded else Inr ()) (\<lambda>_.
          Inr (if dedup then np_unique_counts indices else (indices, replicate (length indices) 1)))))"

section \<open>The distance is exact\<close>

lemma xor_sign_int:
  assumes "0 \<le> n" "n < 2 ^ 64"
  shows "(n :: int) XOR 2 ^ 63 = (if n < 2 ^ 63 then n + 2 ^ 63 else n - 2 ^ 63)"
proof -
  have b: "bit n 63 \<longleftrightarrow> \<not> n < 2 ^ 63"
  proof (cases "n < 2 ^ 63")
    case True
    then show ?thesis using assms by (simp add: bit_iff_odd)
  next
    case False
    then have "n div 2 ^ 63 = 1" using assms by simp
    then show ?thesis using False by (simp add: bit_iff_odd)
  qed
  have "n XOR 2 ^ 63 = flip_bit 63 n" by (simp add: flip_bit_eq_xor push_bit_eq_mult)
  also have "\<dots> = (if n < 2 ^ 63 then n + 2 ^ 63 else n - 2 ^ 63)"
    using b by (simp add: flip_bit_eq_if set_bit_eq unset_bit_eq)
  finally show ?thesis .
qed

lemma uint_biased: "is_i64 v \<Longrightarrow> uint ((word_of_int v :: 64 word) XOR SIGN_BIT) = v + 2 ^ 63"
proof -
  assume v: "is_i64 v"
  have "uint ((word_of_int v :: 64 word) XOR SIGN_BIT) = (v mod 2 ^ 64) XOR 2 ^ 63"
    by (simp add: unsigned_xor_eq uint_word_of_int SIGN_BIT_def)
  also have "\<dots> = v + 2 ^ 63"
  proof (cases "0 \<le> v")
    case True
    then have "v mod 2 ^ 64 = v" using v by (simp add: is_i64_def)
    then show ?thesis using True v xor_sign_int [of v] by (simp add: is_i64_def)
  next
    case False
    then have "(v + 2 ^ 64) mod 2 ^ 64 = v + 2 ^ 64"
      using v by (intro mod_pos_pos_trivial) (auto simp: is_i64_def)
    then have "v mod 2 ^ 64 = v + 2 ^ 64" by simp
    then show ?thesis using False v xor_sign_int [of "v + 2 ^ 64"] by (simp add: is_i64_def)
  qed
  finally show ?thesis .
qed

lemma word_distance:
  fixes a b :: "64 word"
  shows "uint (if a > b then a - b else b - a) = \<bar>uint a - uint b\<bar>"
proof (cases "b < a")
  case True
  then have "uint (a - b) = uint a - uint b" by (simp add: uint_sub_lem [THEN iffD1] word_less_def not_less)
  then show ?thesis using True by (simp add: word_less_def)
next
  case False
  then have "uint (b - a) = uint b - uint a" by (simp add: uint_sub_lem [THEN iffD1] word_less_def not_less)
  then show ?thesis using False by (simp add: word_less_def not_less)
qed

lemma timestamp_distance_eq:
  assumes "list_all is_i64 left" "list_all is_i64 right" "length left = length right"
  shows "timestamp_distance_ns left right = map2 (\<lambda>l r. \<bar>l - r\<bar>) left right"
proof (rule nth_equalityI)
  fix i assume "i < length (timestamp_distance_ns left right)"
  then have i: "i < length left" "i < length right" by (simp_all add: timestamp_distance_ns_def Let_def)
  then have "is_i64 (left ! i)" "is_i64 (right ! i)" using assms by (simp_all add: list_all_length)
  then show "timestamp_distance_ns left right ! i = map2 (\<lambda>l r. \<bar>l - r\<bar>) left right ! i"
    using i by (simp add: timestamp_distance_ns_def Let_def word_distance uint_biased)
qed (simp add: timestamp_distance_ns_def Let_def)

section \<open>The nearest observation\<close>

text \<open>The index the code picks for one reference, and what makes it the nearest: no other observation is
  nearer, and none before it is as near.\<close>

definition pick :: "int list \<Rightarrow> int \<Rightarrow> nat" where
  "pick source r =
     (if length source = 1 then 0
      else let right = max 1 (min (searchsorted_left source r) (length source - 1))
           in if \<bar>r - source ! right\<bar> < \<bar>r - source ! (right - 1)\<bar> then right else right - 1)"

definition is_nearest :: "int list \<Rightarrow> int \<Rightarrow> nat \<Rightarrow> bool" where
  "is_nearest source r i \<longleftrightarrow> i < length source \<and>
     (\<forall>j < length source. \<bar>source ! i - r\<bar> \<le> \<bar>source ! j - r\<bar> \<and> (j < i \<longrightarrow> \<bar>source ! i - r\<bar> < \<bar>source ! j - r\<bar>))"

lemma pick_nearest:
  assumes "sorted_wrt (<) source" "source \<noteq> []"
  shows "is_nearest source r (pick source r)"
proof (cases "length source = 1")
  case False
  let ?n = "length source" and ?k = "searchsorted_left source r"
  define right where "right = max 1 (min ?k (?n - 1))"
  have n: "2 \<le> ?n" using False assms(2) by (cases source) (auto simp: Suc_le_eq)
  have right: "1 \<le> right" "right < ?n" using n by (auto simp: right_def)
  have mono: "source ! i < source ! j" if "i < j" "j < ?n" for i j
    using sorted_wrt_nth_less [OF assms(1)] that by blast
  have below: "source ! j < r" if "j < ?k" for j using nth_less_searchsorted that .
  have above: "r \<le> source ! j" if "?k \<le> j" "j < ?n" for j
    using searchsorted_le_nth that assms(1) by (simp add: strict_sorted_imp_sorted)
  have left: "\<bar>source ! (right - 1) - r\<bar> < \<bar>source ! j - r\<bar>" if "j < right - 1" for j
  proof -
    have "right - 1 < ?k" using that right by (auto simp: right_def)
    then have "source ! (right - 1) < r" by (rule below)
    moreover have "source ! j < source ! (right - 1)" using that right by (intro mono) auto
    ultimately show ?thesis by simp
  qed
  have far: "\<bar>source ! right - r\<bar> \<le> \<bar>source ! j - r\<bar>" if "right < j" "j < ?n" for j
  proof -
    have "?k \<le> right" using that right by (auto simp: right_def)
    then have "r \<le> source ! right" using right by (intro above)
    moreover have "source ! right < source ! j" using that by (intro mono)
    ultimately show ?thesis by simp
  qed
  have split: "j < right - 1 \<or> j = right - 1 \<or> j = right \<or> right < j" for j by auto
  have pick: "pick source r = (if \<bar>r - source ! right\<bar> < \<bar>r - source ! (right - 1)\<bar> then right else right - 1)"
    unfolding pick_def Let_def right_def [symmetric] using False by (simp only: if_False)
  show ?thesis
  proof (cases "\<bar>r - source ! right\<bar> < \<bar>r - source ! (right - 1)\<bar>")
    case True
    then have closer: "\<bar>source ! right - r\<bar> < \<bar>source ! (right - 1) - r\<bar>" by (simp add: abs_minus_commute)
    have "\<bar>source ! right - r\<bar> \<le> \<bar>source ! j - r\<bar> \<and> (j < right \<longrightarrow> \<bar>source ! right - r\<bar> < \<bar>source ! j - r\<bar>)" if "j < ?n" for j
      using split [of j]
    proof (elim disjE)
      assume "j < right - 1"
      then show ?thesis using left [of j] closer by linarith
    next
      assume "right < j"
      then show ?thesis using far [of j] that by linarith
    qed (use closer in auto)
    then show ?thesis using True right by (simp add: pick is_nearest_def)
  next
    case False
    then have closer: "\<bar>source ! (right - 1) - r\<bar> \<le> \<bar>source ! right - r\<bar>" by (simp add: abs_minus_commute not_less)
    have "\<bar>source ! (right - 1) - r\<bar> \<le> \<bar>source ! j - r\<bar> \<and> (j < right - 1 \<longrightarrow> \<bar>source ! (right - 1) - r\<bar> < \<bar>source ! j - r\<bar>)" if "j < ?n" for j
      using split [of j]
    proof (elim disjE)
      assume "j < right - 1"
      then show ?thesis using left [of j] by linarith
    next
      assume "right < j"
      then show ?thesis using far [of j] that closer by linarith
    qed (use closer in auto)
    then show ?thesis using False right by (simp add: pick is_nearest_def)
  qed
qed (simp add: pick_def is_nearest_def)

definition timeline :: "int list \<Rightarrow> bool" where
  "timeline ts \<longleftrightarrow> ts \<noteq> [] \<and> list_all is_i64 ts \<and> sorted_wrt (<) ts"

lemma nearest_eq_pick:
  assumes "timeline source" "timeline requested"
  shows "nearest_timestamp_indices source requested = Inr (map (pick source) requested)"
proof -
  have ne: "source \<noteq> []" "requested \<noteq> []" using assms by (auto simp: timeline_def)
  have asc: "require_strictly_increasing source = Inr ()" "require_strictly_increasing requested = Inr ()"
    using assms by (auto simp: timeline_def strictly_increasing_iff)
  show ?thesis
  proof (cases "length source = 1")
    case True
    then have "pick source = (\<lambda>_. 0)" by (simp add: pick_def fun_eq_iff)
    then show ?thesis using True ne asc by (simp add: nearest_timestamp_indices_def map_replicate_const)
  next
    case False
    define right where "right = (\<lambda>r. max 1 (min (searchsorted_left source r) (length source - 1)))"
    have n: "2 \<le> length source" using False ne(1) by (cases source) (auto simp: Suc_le_eq)
    then have range: "right r < length source" "right r - 1 < length source" for r by (auto simp: right_def)
    have i64: "list_all is_i64 requested" "\<And>i. i < length source \<Longrightarrow> is_i64 (source ! i)"
      using assms by (auto simp: timeline_def list_all_length)
    have dist: "timestamp_distance_ns requested (map (\<lambda>r. source ! f r) requested) = map (\<lambda>r. \<bar>r - source ! f r\<bar>) requested"
      if "\<And>r. f r < length source" for f
      using i64 that by (subst timestamp_distance_eq) (auto simp: list_all_iff zip_map2 zip_same_conv_map)
    have "nearest_timestamp_indices source requested =
        Inr (map (\<lambda>(closer, right, left). if closer then right else left)
          (zip (map2 (<) (timestamp_distance_ns requested (map (\<lambda>r. source ! right r) requested))
                 (timestamp_distance_ns requested (map (\<lambda>r. source ! (right r - 1)) requested)))
            (zip (map right requested) (map (\<lambda>r. right r - 1) requested))))"
      using ne False by (simp add: nearest_timestamp_indices_def Let_def asc right_def comp_def)
    also have "\<dots> = Inr (map (\<lambda>r. if \<bar>r - source ! right r\<bar> < \<bar>r - source ! (right r - 1)\<bar> then right r else right r - 1) requested)"
      unfolding dist [OF range(1)] dist [OF range(2)] by (simp add: zip_map1 zip_map2 zip_same_conv_map comp_def)
    also have "\<dots> = Inr (map (pick source) requested)"
      unfolding pick_def Let_def if_not_P [OF False] right_def ..
    finally show ?thesis .
  qed
qed

text \<open>C16: Each reference is answered by its nearest observation, the earlier of two that are equally near, however
  far apart the timestamps are: the distance on the bit patterns does not wrap.\<close>
theorem nearest_indices_are_nearest:
  assumes "timeline source" and "timeline requested"
  shows "\<exists>is. nearest_timestamp_indices source requested = Inr is \<and> list_all2 (is_nearest source) requested is"
  using nearest_eq_pick [OF assms] pick_nearest assms(1) by (auto simp: timeline_def list_all2_conv_all_nth)

section \<open>Windows are a batching choice\<close>

definition too_far :: "int list \<Rightarrow> int option \<Rightarrow> int \<Rightarrow> bool" where
  "too_far canonical max_delta r \<longleftrightarrow> (case max_delta of None \<Rightarrow> False | Some m \<Rightarrow> m < \<bar>canonical ! pick canonical r - r\<bar>)"

lemma sample_window_eq:
  assumes "timeline canonical" "sw_timestamps w = [] \<or> timeline (sw_timestamps w)"
  shows "sample_window_indices canonical w max_delta False =
    (if \<exists>r \<in> set (sw_timestamps w). too_far canonical max_delta r then Inl ToleranceExceeded
     else Inr (map (pick canonical) (sw_timestamps w), replicate (length (sw_timestamps w)) 1))"
proof (cases "sw_timestamps w = []")
  case True
  moreover have "require_strictly_increasing canonical = Inr ()" "canonical \<noteq> []"
    using assms(1) by (auto simp: timeline_def strictly_increasing_iff)
  ultimately show ?thesis by (simp add: sample_window_indices_def Suc_le_eq)
next
  case False
  let ?ts = "sw_timestamps w"
  have line: "timeline ?ts" using assms(2) False by simp
  have closest: "find_closest_indices canonical ?ts = Inr (map (pick canonical) ?ts)"
    using nearest_eq_pick [OF assms(1) line] assms(1) False by (simp add: find_closest_indices_def timeline_def)
  have "\<And>r. pick canonical r < length canonical"
    using pick_nearest assms(1) by (auto simp: timeline_def is_nearest_def)
  then have "list_all is_i64 (map (\<lambda>i. canonical ! i) (map (pick canonical) ?ts))"
    using assms(1) by (auto simp: timeline_def list_all_iff)
  then have "timestamp_distance_ns (map (\<lambda>i. canonical ! i) (map (pick canonical) ?ts)) ?ts = map (\<lambda>r. \<bar>canonical ! pick canonical r - r\<bar>) ?ts"
    using line by (subst timestamp_distance_eq) (auto simp: timeline_def zip_map1 zip_same_conv_map)
  then show ?thesis
    using False assms(1) closest
    by (auto simp: sample_window_indices_def timeline_def Let_def too_far_def list_ex_iff Suc_le_eq simp del: map_map split: option.splits)
qed

lemma timeline_filter: "list_all is_i64 ts \<Longrightarrow> sorted_wrt (<) ts \<Longrightarrow> filter P ts = [] \<or> timeline (filter P ts)"
  by (auto simp: timeline_def list_all_iff sorted_wrt_filter)

lemma nominal_windows_nonempty_part:
  assumes "grid_ok g" "w \<in> set (nominal_windows g start)"
  shows "sw_timestamps w = [] \<or> timeline (sw_timestamps w)"
proof -
  obtain k where "k < length (nominal_windows g start)" "w = nominal_windows g start ! k"
    using assms(2) by (metis in_set_conv_nth)
  then have "w = nominal_window g (start + int k * sg_stride g)" by (simp add: nominal_windows_nth)
  then show ?thesis
    using assms(1) timeline_filter [of "sg_timestamps g"] by (simp add: nominal_window_def Let_def grid_ok_def)
qed

text \<open>The windows of a grid whose stride is its duration: checked timelines that together are the grid's.\<close>

lemma tiling_windows:
  assumes "make_sampling_grid start exclusive_end ts stride stride = Inr g" "is_i64 exclusive_end"
  shows "\<exists>ws. grid_windows g = Some (ws, None) \<and> concat (map sw_timestamps ws) = ts \<and>
    (\<forall>w \<in> set ws. sw_timestamps w = [] \<or> timeline (sw_timestamps w))"
proof -
  note ok = make_sampling_grid_ok [OF assms(1)]
  have ok2: "is_i64 (sg_exclusive_end g)" using assms(2) by (simp add: ok(2))
  have bounds: "\<forall>t \<in> set ts. start \<le> t \<and> t < exclusive_end" using ok(1) by (simp add: grid_ok_def ok(2))
  show ?thesis
  proof (cases "start = exclusive_end")
    case True
    then have "ts = []" using bounds by (cases ts) auto
    then show ?thesis using True grid_windows_cases [OF ok(1) ok2] by (auto simp: nominal_window_def ok(2))
  next
    case False
    have "filter (\<lambda>t. start \<le> t) ts = ts" using bounds by (intro filter_True) auto
    then have "concat (map sw_timestamps (nominal_windows g start)) = ts"
      using nominal_windows_tile [OF ok(1), of start] by (simp add: ok(2))
    moreover have "grid_windows g = Some (nominal_windows g start, None)"
      using False grid_windows_cases [OF ok(1) ok2] by (simp add: ok(2))
    ultimately show ?thesis using nominal_windows_nonempty_part [OF ok(1)] by blast
  qed
qed

text \<open>C15: Sampling a grid window by window is sampling it at once: when stride and duration agree, the windows
  together choose the same observation for every reference, in order, and some window exceeds the tolerance
  exactly when the whole does.\<close>
theorem windows_sample_like_grid:
  assumes "make_sampling_grid start exclusive_end ts stride stride = Inr g" and "is_i64 exclusive_end" and "timeline canonical"
  shows "\<exists>ws. grid_windows g = Some (ws, None) \<and>
    (let whole = sample_window_indices canonical \<lparr>sw_start = start, sw_exclusive_end = exclusive_end, sw_timestamps = ts\<rparr> max_delta False;
         parts = map (\<lambda>w. sample_window_indices canonical w max_delta False) ws
     in if Inl ToleranceExceeded \<in> set parts then whole = Inl ToleranceExceeded
        else whole = Inr (concat (map (fst \<circ> projr) parts), concat (map (snd \<circ> projr) parts)))"
proof -
  note ok = make_sampling_grid_ok [OF assms(1)]
  from tiling_windows [OF assms(1,2)] obtain ws where ws: "grid_windows g = Some (ws, None)"
    and tile: "concat (map sw_timestamps ws) = ts" and parts: "\<forall>w \<in> set ws. sw_timestamps w = [] \<or> timeline (sw_timestamps w)" by blast
  have part: "sample_window_indices canonical w max_delta False =
      (if \<exists>r \<in> set (sw_timestamps w). too_far canonical max_delta r then Inl ToleranceExceeded
       else Inr (map (pick canonical) (sw_timestamps w), replicate (length (sw_timestamps w)) 1))" if "w \<in> set ws" for w
    using sample_window_eq [OF assms(3)] parts that by blast
  have "ts = [] \<or> timeline ts" using ok(1) by (auto simp: grid_ok_def timeline_def ok(2))
  then have whole: "sample_window_indices canonical \<lparr>sw_start = start, sw_exclusive_end = exclusive_end, sw_timestamps = ts\<rparr> max_delta False =
      (if \<exists>r \<in> set ts. too_far canonical max_delta r then Inl ToleranceExceeded else Inr (map (pick canonical) ts, replicate (length ts) 1))"
    by (subst sample_window_eq [OF assms(3)]) simp_all
  have far: "Inl ToleranceExceeded \<in> set (map (\<lambda>w. sample_window_indices canonical w max_delta False) ws) \<longleftrightarrow> (\<exists>r \<in> set ts. too_far canonical max_delta r)"
    using part unfolding tile [symmetric] by (fastforce simp: image_iff split: if_splits)
  have indices: "concat (map (map (pick canonical) \<circ> sw_timestamps) ws) = map (pick canonical) ts"
    "concat (map ((\<lambda>t. replicate (length t) 1) \<circ> sw_timestamps) ws) = replicate (length ts) (1 :: nat)"
    unfolding tile [symmetric] by (induction ws) (simp_all add: replicate_add)
  show ?thesis
  proof (intro exI [of _ ws] conjI ws, unfold Let_def whole far, cases "\<exists>r \<in> set ts. too_far canonical max_delta r")
    case False
    then have "\<forall>w \<in> set ws. sample_window_indices canonical w max_delta False = Inr (map (pick canonical) (sw_timestamps w), replicate (length (sw_timestamps w)) 1)"
      using part unfolding tile [symmetric] by auto
    then have "map (fst \<circ> projr) (map (\<lambda>w. sample_window_indices canonical w max_delta False) ws) = map (map (pick canonical) \<circ> sw_timestamps) ws"
      "map (snd \<circ> projr) (map (\<lambda>w. sample_window_indices canonical w max_delta False) ws) = map ((\<lambda>t. replicate (length t) 1) \<circ> sw_timestamps) ws"
      by auto
    then show "if \<exists>r \<in> set ts. too_far canonical max_delta r then (if \<exists>r \<in> set ts. too_far canonical max_delta r then Inl ToleranceExceeded else Inr (map (pick canonical) ts, replicate (length ts) 1)) = Inl ToleranceExceeded
      else (if \<exists>r \<in> set ts. too_far canonical max_delta r then Inl ToleranceExceeded else Inr (map (pick canonical) ts, replicate (length ts) 1)) =
        Inr (concat (map (fst \<circ> projr) (map (\<lambda>w. sample_window_indices canonical w max_delta False) ws)),
          concat (map (snd \<circ> projr) (map (\<lambda>w. sample_window_indices canonical w max_delta False) ws)))"
      using False by (simp only: if_False indices)
  qed simp
qed

lemma nearest_indices_are_nearest_witness:
  "nearest_timestamp_indices [11, 19, 26, 39] [10, 15, 40] = Inr [0, 0, 3] \<and>
   (\<exists>is. nearest_timestamp_indices [11, 19, 26, 39] [10, 15, 40] = Inr is \<and> list_all2 (is_nearest [11, 19, 26, 39]) [10, 15, 40] is)"
proof
  show "nearest_timestamp_indices [11, 19, 26, 39] [10, 15, 40] = Inr [0, 0, 3]" by code_simp
  show "\<exists>is. nearest_timestamp_indices [11, 19, 26, 39] [10, 15, 40] = Inr is \<and> list_all2 (is_nearest [11, 19, 26, 39]) [10, 15, 40] is"
    by (rule nearest_indices_are_nearest) (simp_all add: timeline_def is_i64_def)
qed

lemma windows_sample_like_grid_witness:
  "make_sampling_grid 10 45 [10, 20, 25, 40] 10 10 = Inr sample_grid \<and>
   (\<exists>ws. grid_windows sample_grid = Some (ws, None) \<and>
     (let whole = sample_window_indices [11, 19, 26, 39] \<lparr>sw_start = 10, sw_exclusive_end = 45, sw_timestamps = [10, 20, 25, 40]\<rparr> (Some 1) False;
          parts = map (\<lambda>w. sample_window_indices [11, 19, 26, 39] w (Some 1) False) ws
      in if Inl ToleranceExceeded \<in> set parts then whole = Inl ToleranceExceeded
         else whole = Inr (concat (map (fst \<circ> projr) parts), concat (map (snd \<circ> projr) parts)))) \<and>
   sample_window_indices [11, 19, 26, 39] \<lparr>sw_start = 10, sw_exclusive_end = 45, sw_timestamps = [10, 20, 25, 40]\<rparr> (Some 1) False =
     Inr ([0, 1, 2, 3], [1, 1, 1, 1])"
proof -
  have made: "make_sampling_grid 10 45 [10, 20, 25, 40] 10 10 = Inr sample_grid" by code_simp
  have line: "is_i64 45" "timeline [11, 19, 26, 39]" by (simp_all add: timeline_def is_i64_def)
  have whole: "sample_window_indices [11, 19, 26, 39] \<lparr>sw_start = 10, sw_exclusive_end = 45, sw_timestamps = [10, 20, 25, 40]\<rparr> (Some 1) False =
     Inr ([0, 1, 2, 3], [1, 1, 1, 1])" by code_simp
  show ?thesis using windows_sample_like_grid [OF made line, of "Some 1"] made whole by blast
qed

end
