(* ===== verification/BoxPrimitives.thy ===== *)
theory BoxPrimitives
  imports Bytes
begin

text \<open>
  \<^verbatim>\<open>core/sensors/mp4/box_primitives.py\<close>: reading one ISO-BMFF box header, walking one level of
  children, descending a path, and selecting the one video track under \<^verbatim>\<open>moov\<close>. Offsets are Python
  integers; a box is located by \<open>(type, content_start, content_end)\<close>. The lemmas give the shape of
  every successful walk (children tile the parent), the exceptions each routine can raise, and the
  round trip with a reference box writer.
\<close>

section \<open>Definitions\<close>

definition STANDARD_HEADER_BYTES :: int where "STANDARD_HEADER_BYTES = 8"
definition EXTENDED_HEADER_BYTES :: int where "EXTENDED_HEADER_BYTES = 16"
definition EXTENDED_SIZE_MARKER :: int where "EXTENDED_SIZE_MARKER = 1"
definition TO_END_MARKER :: int where "TO_END_MARKER = 0"

lemmas header_consts =
  STANDARD_HEADER_BYTES_def EXTENDED_HEADER_BYTES_def EXTENDED_SIZE_MARKER_def TO_END_MARKER_def

definition VIDEO_FOURCC_CODEC_NAMES :: "(string \<times> string) list" where
  "VIDEO_FOURCC_CODEC_NAMES =
     [(''avc1'', ''h264''), (''avc3'', ''h264''), (''hev1'', ''hevc''), (''hvc1'', ''hevc'')]"

definition VIDEO_SAMPLE_ENTRY_TYPES :: "string list" where
  "VIDEO_SAMPLE_ENTRY_TYPES = map fst VIDEO_FOURCC_CODEC_NAMES"

type_synonym child_box = "string \<times> int \<times> int"

definition read_box_header :: "bytes \<Rightarrow> int \<Rightarrow> int \<Rightarrow> (string \<times> int \<times> int) res" where
  "read_box_header buf offset stop =
     rbind (unpack_u32 buf offset) (\<lambda>size32.
     let box_type = decode_ascii (py_slice buf (offset + 4) (offset + 8)) in
     if size32 = EXTENDED_SIZE_MARKER then
       rbind (unpack_u64 buf (offset + 8)) (\<lambda>size64.
       if size64 < EXTENDED_HEADER_BYTES then Inl MalformedBoxHeaderError
       else Inr (box_type, size64, EXTENDED_HEADER_BYTES))
     else if size32 = TO_END_MARKER then Inr (box_type, stop - offset, STANDARD_HEADER_BYTES)
     else if size32 < STANDARD_HEADER_BYTES then Inl MalformedBoxHeaderError
     else Inr (box_type, size32, STANDARD_HEADER_BYTES))"

function iter_child_boxes :: "bytes \<Rightarrow> int \<Rightarrow> int \<Rightarrow> child_box list res" where
  "iter_child_boxes buf offset stop =
     (if offset < stop then
        if stop - offset < STANDARD_HEADER_BYTES then Inr []
        else rbind (read_box_header buf offset stop) (\<lambda>(box_type, box_size, header_len).
          if box_size \<le> 0 then Inr []
          else let content_end = offset + box_size in
            if content_end > stop then Inl MalformedBoxHeaderError
            else rbind (iter_child_boxes buf content_end stop) (\<lambda>rest.
              Inr ((box_type, offset + header_len, content_end) # rest)))
      else Inr [])"
  by pat_completeness auto
termination
  by (relation "measure (\<lambda>(buf, offset, stop). nat (stop - offset))") auto

declare iter_child_boxes.simps [simp del]

fun find_box :: "bytes \<Rightarrow> string list \<Rightarrow> int \<Rightarrow> int \<Rightarrow> (int \<times> int) res" where
  "find_box buf [] start stop = Inr (start, stop)"
| "find_box buf (name # path) start stop =
     rbind (iter_child_boxes buf start stop) (\<lambda>children.
     case find (\<lambda>c. fst c = name) children of
       None \<Rightarrow> Inl BoxNotFoundError
     | Some (_, content_start, content_end) \<Rightarrow> find_box buf path content_start content_end)"

definition find_all_boxes :: "bytes \<Rightarrow> string \<Rightarrow> int \<Rightarrow> int \<Rightarrow> (int \<times> int) list res" where
  "find_all_boxes buf box_type start stop =
     rbind (iter_child_boxes buf start stop) (\<lambda>children.
     Inr [(cs, ce). (t, cs, ce) \<leftarrow> children, t = box_type])"

function find_box_bytes :: "bytes \<Rightarrow> string \<Rightarrow> int \<Rightarrow> int \<Rightarrow> bytes option res" where
  "find_box_bytes buf box_type offset stop =
     (if offset < stop then
        rbind (read_box_header buf offset stop) (\<lambda>(found_type, box_size, _).
        if box_size \<le> 0 then Inr None
        else if found_type = box_type then Inr (Some (py_slice buf offset (offset + box_size)))
        else find_box_bytes buf box_type (offset + box_size) stop)
      else Inr None)"
  by pat_completeness auto
termination
  by (relation "measure (\<lambda>(buf, box_type, offset, stop). nat (stop - offset))") auto

declare find_box_bytes.simps [simp del]

definition UUID_EXTENSION_TYPE_BYTES :: int where "UUID_EXTENSION_TYPE_BYTES = 16"

definition uuid_extension_boxes :: "bytes \<Rightarrow> int \<Rightarrow> int \<Rightarrow> (bytes \<times> bytes) list res" where
  "uuid_extension_boxes buf start stop =
     rbind (find_all_boxes buf ''uuid'' start stop) (\<lambda>boxes.
     Inr (map (\<lambda>(cs, ce). (py_slice buf cs (cs + UUID_EXTENSION_TYPE_BYTES),
                           py_slice buf (cs + UUID_EXTENSION_TYPE_BYTES) ce)) boxes))"

definition is_video_sample_entry :: "bytes \<Rightarrow> int \<Rightarrow> int \<Rightarrow> string option" where
  "is_video_sample_entry buf stsd_start stsd_end =
     (if stsd_end - stsd_start < STANDARD_HEADER_BYTES then None
      else let entry_start = stsd_start + STANDARD_HEADER_BYTES in
        if entry_start + 8 > stsd_end then None
        else let fourcc = decode_ascii (py_slice buf (entry_start + 4) (entry_start + 8)) in
          if fourcc \<in> set VIDEO_SAMPLE_ENTRY_TYPES then Some fourcc else None)"

text \<open>\<^verbatim>\<open>(trak_start, trak_end, stbl_start, stbl_end, stsd_start, stsd_end, fourcc)\<close>.\<close>

type_synonym video_trak = "int \<times> int \<times> int \<times> int \<times> int \<times> int \<times> string"

text \<open>The body of the loop over the \<^verbatim>\<open>trak\<close> boxes: what this \<^verbatim>\<open>trak\<close> adds to \<^verbatim>\<open>matches\<close>. A missing
  box skips the \<^verbatim>\<open>trak\<close>; any other exception leaves the loop.\<close>

definition video_trak_match :: "bytes \<Rightarrow> int \<times> int \<Rightarrow> video_trak list res" where
  "video_trak_match buf = (\<lambda>(trak_start, trak_end).
     case rbind (find_box buf [''mdia'', ''minf'', ''stbl''] trak_start trak_end)
            (\<lambda>(stbl_start, stbl_end).
          rbind (find_box buf [''stsd''] stbl_start stbl_end) (\<lambda>(stsd_start, stsd_end).
          Inr (stbl_start, stbl_end, stsd_start, stsd_end))) of
       Inl e \<Rightarrow> if e = BoxNotFoundError then Inr [] else Inl e
     | Inr (stbl_start, stbl_end, stsd_start, stsd_end) \<Rightarrow>
         (case is_video_sample_entry buf stsd_start stsd_end of
            None \<Rightarrow> Inr []
          | Some fourcc \<Rightarrow>
              Inr [(trak_start, trak_end, stbl_start, stbl_end, stsd_start, stsd_end, fourcc)]))"

fun video_trak_matches :: "bytes \<Rightarrow> (int \<times> int) list \<Rightarrow> video_trak list res" where
  "video_trak_matches buf [] = Inr []"
| "video_trak_matches buf (trak # traks) =
     rbind (video_trak_match buf trak) (\<lambda>found.
     rbind (video_trak_matches buf traks) (\<lambda>rest. Inr (found @ rest)))"

definition find_video_trak :: "bytes \<Rightarrow> int \<Rightarrow> int \<Rightarrow> video_trak res" where
  "find_video_trak buf moov_start moov_end =
     rbind (find_all_boxes buf ''trak'' moov_start moov_end) (\<lambda>traks.
     rbind (video_trak_matches buf traks) (\<lambda>found.
     case found of
       [] \<Rightarrow> Inl BoxNotFoundError
     | [m] \<Rightarrow> Inr m
     | _ \<Rightarrow> Inl AmbiguousVideoTrackError))"

text \<open>\<^verbatim>\<open>EXTENDED_HEADER_BYTES if size32 == EXTENDED_SIZE_MARKER else STANDARD_HEADER_BYTES\<close>, as
  \<^verbatim>\<open>box_locate.py\<close>, \<^verbatim>\<open>moof_walk.py\<close> and \<^verbatim>\<open>box_probe.py\<close> write it.\<close>

definition header_bytes_needed :: "int \<Rightarrow> int" where
  "header_bytes_needed size32 =
     (if size32 = EXTENDED_SIZE_MARKER then EXTENDED_HEADER_BYTES else STANDARD_HEADER_BYTES)"

section \<open>Headers\<close>

text \<open>A box size is at least its header's, except for the size-0 form, which takes what is left.\<close>

lemma read_box_header_size:
  assumes "read_box_header buf offset stop = Inr (t, sz, hdr)"
  shows "hdr \<in> {8, 16} \<and> (hdr \<le> sz \<or> hdr = 8 \<and> sz = stop - offset)"
  using assms
  by (auto simp: read_box_header_def Let_def header_consts result_simps split: if_splits)

lemma read_box_header_error:
  "read_box_header buf offset stop = Inl e \<Longrightarrow>
   e \<in> {StructError, OverflowError, MalformedBoxHeaderError}"
  by (auto simp: read_box_header_def Let_def result_simps dest!: unpack_uint_error split: if_splits)

text \<open>With the header bytes buffered, a header read raises nothing but \<open>MalformedBoxHeaderError\<close>.\<close>

lemma read_box_header_buffered_error:
  assumes "0 \<le> offset" "offset + 16 \<le> int (length buf)" "int (length buf) < 2 ^ 63"
    and "read_box_header buf offset stop = Inl e"
  shows "e = MalformedBoxHeaderError"
  using assms
  by (auto simp: read_box_header_def Let_def result_simps unpack_uint_in split: if_splits)

lemma read_box_header_Inr_in:
  assumes "0 \<le> offset" "read_box_header buf offset stop = Inr (t, sz, hdr)"
  shows "offset + 4 \<le> int (length buf)"
  using assms
  by (auto simp: read_box_header_def Let_def result_simps dest!: unpack_uint_Inr_end)

section \<open>Children tile their parent\<close>

text \<open>The children of a walk from \<open>s\<close> are laid end to end: each starts where the one before ends,
  its content starts after a header of 8 or 16 bytes, and none runs past \<open>e\<close>.\<close>

fun children_tile :: "int \<Rightarrow> int \<Rightarrow> child_box list \<Rightarrow> bool" where
  "children_tile s e [] = True"
| "children_tile s e ((t, cs, ce) # rest) =
     ((cs = s + 8 \<or> cs = s + 16) \<and> cs \<le> ce \<and> ce \<le> e \<and> children_tile ce e rest)"

lemma children_tile_member:
  "children_tile s e ch \<Longrightarrow> (t, cs, ce) \<in> set ch \<Longrightarrow> s + 8 \<le> cs \<and> cs \<le> ce \<and> ce \<le> e"
  by (induction ch arbitrary: s) force+

text \<open>With at least 8 bytes left a header read gives a positive size, so the walk's
  \<^verbatim>\<open>box_size <= 0\<close> test never stops it.\<close>

lemma read_box_header_pos:
  "read_box_header buf s e = Inr (t, sz, hdr) \<Longrightarrow> 8 \<le> e - s \<Longrightarrow> 8 \<le> sz \<and> hdr \<le> sz"
  using read_box_header_size [of buf s e t sz hdr] by auto

lemma iter_child_boxes_unfold:
  "iter_child_boxes buf s e =
     (if e - s < 8 then Inr []
      else rbind (read_box_header buf s e) (\<lambda>(t, sz, hdr).
        if e < s + sz then Inl MalformedBoxHeaderError
        else rbind (iter_child_boxes buf (s + sz) e) (\<lambda>rest. Inr ((t, s + hdr, s + sz) # rest))))"
  by (subst iter_child_boxes.simps)
    (auto simp: header_consts Let_def dest: read_box_header_pos intro!: rbind_cong)

lemma iter_child_boxes_induct [case_names step]:
  assumes step: "\<And>s. (\<And>t sz hdr. 8 \<le> e - s \<Longrightarrow> read_box_header buf s e = Inr (t, sz, hdr) \<Longrightarrow>
                    8 \<le> sz \<Longrightarrow> s + sz \<le> e \<Longrightarrow> P (s + sz)) \<Longrightarrow> P s"
  shows "P s"
proof (induction "nat (e - s)" arbitrary: s rule: less_induct)
  case less
  show ?case by (rule step, rule less) auto
qed

text \<open>What one successful step of the walk gives.\<close>

lemma iter_child_boxes_InrE:
  assumes "iter_child_boxes buf s e = Inr ch"
  obtains (finished) "e - s < 8" "ch = []"
  | (child) t sz hdr rest where "8 \<le> e - s" "read_box_header buf s e = Inr (t, sz, hdr)"
      "8 \<le> sz" "hdr \<le> sz" "s + sz \<le> e" "iter_child_boxes buf (s + sz) e = Inr rest"
      "ch = (t, s + hdr, s + sz) # rest"
  using assms
  by (subst (asm) iter_child_boxes_unfold)
    (fastforce simp: result_simps dest: read_box_header_pos split: if_splits)

lemma iter_child_boxes_children_tile:
  "iter_child_boxes buf s e = Inr ch \<Longrightarrow> children_tile s e ch"
proof (induction s arbitrary: ch rule: iter_child_boxes_induct [of e buf])
  case (step s)
  from step.prems show ?case
  proof (cases rule: iter_child_boxes_InrE)
    case finished
    then show ?thesis by simp
  next
    case (child t sz hdr rest)
    with step.IH [of t sz hdr rest] read_box_header_size [OF child(2)] show ?thesis by auto
  qed
qed

lemma iter_child_boxes_error:
  "iter_child_boxes buf s e = Inl err \<Longrightarrow>
   err \<in> {StructError, OverflowError, MalformedBoxHeaderError}"
proof (induction s rule: iter_child_boxes_induct [of e buf])
  case (step s)
  from step.prems step.IH show ?case
    by (subst (asm) iter_child_boxes_unfold)
      (fastforce simp: result_simps dest: read_box_header_error read_box_header_pos split: if_splits)
qed

text \<open>A descended box lies inside the range it was searched in.\<close>

lemma find_box_bounds:
  "find_box buf path s e = Inr (cs, ce) \<Longrightarrow> s \<le> e \<Longrightarrow> s \<le> cs \<and> cs \<le> ce \<and> ce \<le> e"
proof (induction buf path s e rule: find_box.induct)
  case (1 buf s e)
  then show ?case by simp
next
  case (2 buf name path s e)
  then obtain ch t cs' ce' where ch: "iter_child_boxes buf s e = Inr ch"
    and f: "find (\<lambda>c. fst c = name) ch = Some (t, cs', ce')"
    and r: "find_box buf path cs' ce' = Inr (cs, ce)"
    by (auto simp: result_simps split: option.splits)
  have "(t, cs', ce') \<in> set ch"
    using f by (auto simp: find_Some_iff)
  with iter_child_boxes_children_tile [OF ch] have "s + 8 \<le> cs' \<and> cs' \<le> ce' \<and> ce' \<le> e"
    by (rule children_tile_member)
  with "2.IH" [OF ch f refl refl r] show ?case by auto
qed

section \<open>Round trip with a box writer\<close>

text \<open>The reference writer: a standard header, or the 64-bit form when \<open>ext\<close> is set. A box is a
  triple \<open>(ext, type, payload)\<close>.\<close>

type_synonym box_spec = "bool \<times> string \<times> bytes"

definition header_bytes_of :: "bool \<Rightarrow> int" where
  "header_bytes_of ext = (if ext then 16 else 8)"

fun write_box :: "box_spec \<Rightarrow> bytes" where
  "write_box (ext, t, payload) =
     (if ext then be_bytes 4 1 @ encode_ascii t @ be_bytes 8 (16 + int (length payload)) @ payload
      else be_bytes 4 (8 + int (length payload)) @ encode_ascii t @ payload)"

fun box_ok :: "box_spec \<Rightarrow> bool" where
  "box_ok (ext, t, payload) \<longleftrightarrow> length t = 4 \<and> str_isascii t \<and>
     (if ext then 16 + int (length payload) < 2 ^ 64 else 8 + int (length payload) < 2 ^ 32)"

fun box_layout :: "int \<Rightarrow> box_spec list \<Rightarrow> child_box list" where
  "box_layout s [] = []"
| "box_layout s ((ext, t, payload) # rest) =
     (let ce = s + header_bytes_of ext + int (length payload)
      in (t, s + header_bytes_of ext, ce) # box_layout ce rest)"

lemma length_write_box:
  "length t = 4 \<Longrightarrow> int (length (write_box (ext, t, p))) = header_bytes_of ext + int (length p)"
  by (simp add: header_bytes_of_def)

lemma read_box_header_write_box:
  assumes ok: "box_ok (ext, t, p)"
    and buf: "buf = pre @ write_box (ext, t, p) @ post" and len: "int (length buf) < 2 ^ 63"
    and s: "s = int (length pre)"
  shows "read_box_header buf s stop =
     Inr (t, header_bytes_of ext + int (length p), header_bytes_of ext)"
proof -
  have t: "length (encode_ascii t) = 4" "decode_ascii (encode_ascii t) = t"
    using ok by (auto intro: decode_encode_ascii)
  have ty: "decode_ascii (py_slice buf (s + 4) (s + 8)) = t"
    using t by (cases ext) (simp_all add: buf s py_slice_nonneg nat_add_distrib)
  have size32: "unpack_u32 buf s = Inr (if ext then 1 else 8 + int (length p))"
    using ok len
    by (cases ext) (simp_all add: buf s unpack_uint_in be_int_be_bytes)
  have size64: "unpack_u64 buf (s + 8) = Inr (16 + int (length p))" if "ext"
    using ok len that t
    by (simp add: buf s unpack_uint_in be_int_be_bytes nat_add_distrib)
  show ?thesis
    using ty size32 size64 by (auto simp: read_box_header_def header_consts header_bytes_of_def)
qed

lemma iter_child_boxes_write_boxes:
  assumes "\<forall>b \<in> set bs. box_ok b"
    and "int (length (pre @ concat (map write_box bs) @ post)) < 2 ^ 63"
    and "s = int (length pre)" and "e = s + int (length (concat (map write_box bs)))"
  shows "iter_child_boxes (pre @ concat (map write_box bs) @ post) s e = Inr (box_layout s bs)"
  using assms
proof (induction bs arbitrary: pre s)
  case Nil
  then show ?case by (subst iter_child_boxes_unfold) simp
next
  case (Cons b bs)
  obtain ext t p where b: "b = (ext, t, p)" by (cases b)
  let ?buf = "pre @ concat (map write_box (b # bs)) @ post"
  let ?sz = "header_bytes_of ext + int (length p)"
  have ok: "box_ok (ext, t, p)" using Cons.prems(1) b by (simp del: box_ok.simps)
  then have lw: "int (length (write_box b)) = ?sz"
    unfolding b by (intro length_write_box) simp
  have hd: "read_box_header ?buf s e = Inr (t, ?sz, header_bytes_of ext)"
    by (rule read_box_header_write_box [OF ok, where pre = pre and
          post = "concat (map write_box bs) @ post"])
      (use Cons.prems b in \<open>simp_all del: box_ok.simps write_box.simps\<close>)
  have buf: "?buf = (pre @ write_box b) @ concat (map write_box bs) @ post" by simp
  have rest: "iter_child_boxes ?buf (s + ?sz) e = Inr (box_layout (s + ?sz) bs)"
    unfolding buf
    by (rule Cons.IH) (use Cons.prems lw in \<open>simp_all del: box_ok.simps write_box.simps\<close>)
  have "8 \<le> ?sz" "?sz \<le> e - s"
    using lw Cons.prems(4) by (auto simp: header_bytes_of_def)
  with hd rest show ?case
    by (subst iter_child_boxes_unfold) (simp add: b Let_def algebra_simps)
qed

text \<open>The content range of each laid out box holds its payload.\<close>

lemma box_layout_payloads:
  "\<forall>b \<in> set bs. box_ok b \<Longrightarrow> s = int (length pre) \<Longrightarrow>
   map (\<lambda>(t, cs, ce). (t, py_slice (pre @ concat (map write_box bs) @ post) cs ce))
     (box_layout s bs) = map snd bs"
proof (induction bs arbitrary: pre s)
  case Nil
  then show ?case by simp
next
  case (Cons b bs)
  obtain ext t p where b: "b = (ext, t, p)" by (cases b)
  have lw: "int (length (write_box b)) = header_bytes_of ext + int (length p)"
    using Cons.prems unfolding b by (intro length_write_box) simp
  have IH: "map (\<lambda>(t, cs, ce). (t, py_slice ((pre @ write_box b) @ concat (map write_box bs) @ post) cs ce))
     (box_layout (s + header_bytes_of ext + int (length p)) bs) = map snd bs"
    using Cons.prems lw by (intro Cons.IH) (simp_all del: write_box.simps)
  have "py_slice (pre @ write_box b @ concat (map write_box bs) @ post)
          (s + header_bytes_of ext) (s + header_bytes_of ext + int (length p)) = p"
    using Cons.prems unfolding b
    by (simp add: py_slice_nonneg header_bytes_of_def nat_add_distrib)
  with IH show ?case by (simp add: b Let_def del: write_box.simps)
qed

section \<open>Headers seen through a window\<close>

text \<open>Only the 16 bytes from the offset on matter to a header read.\<close>

lemma unpack_window_at:
  assumes "0 \<le> off" "0 \<le> i" "off + i < 2 ^ 63" "nat i + n \<le> m" "0 < n"
  shows "unpack_window n (take m (drop (nat off) buf)) i = unpack_window n buf (off + i)"
proof -
  have "take n (drop (nat i) (take m (drop (nat off) buf))) = take n (drop (nat (off + i)) buf)"
    using assms by (simp add: drop_take nat_add_distrib add.commute min_def)
  then show ?thesis
    using assms by (auto simp: unpack_window_def Let_def)
qed

lemma read_box_header_window:
  assumes "0 \<le> off" "off + 8 < 2 ^ 63"
  shows "read_box_header (take 16 (drop (nat off) buf)) 0 (stop - off) = read_box_header buf off stop"
proof -
  have "py_slice (take 16 (drop (nat off) buf)) 4 8 = py_slice buf (off + 4) (off + 8)"
    using assms by (simp add: py_slice_nonneg drop_take nat_add_distrib add.commute)
  moreover have "unpack_u32 (take 16 (drop (nat off) buf)) 0 = unpack_u32 buf off"
    using assms unpack_window_at [of off 0 4 16 buf] by (simp add: unpack_uint_def)
  moreover have "unpack_u64 (take 16 (drop (nat off) buf)) 8 = unpack_u64 buf (off + 8)"
    using assms unpack_window_at [of off 8 8 16 buf] by (simp add: unpack_uint_def)
  ultimately show ?thesis by (simp add: read_box_header_def Let_def cong: if_cong)
qed

lemma read_box_header_prefix:
  assumes "0 \<le> off" "unpack_u32 buf off = Inr s32" "s32 \<noteq> 0"
    and "off + header_bytes_needed s32 \<le> int n" "int (length buf) < 2 ^ 63" "n \<le> length buf"
  shows "read_box_header (take n buf) off stop' = read_box_header buf off stop"
proof -
  have off: "off + 8 \<le> int n" using assms(4) by (simp add: header_bytes_needed_def header_consts split: if_splits)
  have take: "take k (drop (nat i) (take n buf)) = take k (drop (nat i) buf)"
    if "i + int k \<le> int n" "0 \<le> i" for i k
    using that by (simp add: drop_take min_def)
  have "unpack_u32 (take n buf) off = unpack_u32 buf off"
    using off assms take [of off 4] by (simp add: unpack_uint_in)
  moreover have "py_slice (take n buf) (off + 4) (off + 8) = py_slice buf (off + 4) (off + 8)"
    using off assms take [of "off + 4" 4] by (simp add: py_slice_nonneg)
  moreover have "unpack_u64 (take n buf) (off + 8) = unpack_u64 buf (off + 8)" if "s32 = 1"
    using that assms take [of "off + 8" 8]
    by (simp add: unpack_uint_in header_bytes_needed_def header_consts)
  ultimately show ?thesis
    using assms(2,3) by (auto simp: read_box_header_def header_consts Let_def)
qed

lemma probe_write_box:
  assumes ok: "box_ok (ext, t, p)"
    and buf: "buf = pre @ write_box (ext, t, p) @ post" and len: "int (length buf) < 2 ^ 63"
    and s: "s = int (length pre)"
  obtains s32 where "unpack_u32 buf s = Inr s32" "s32 \<noteq> 0"
    "header_bytes_needed s32 = header_bytes_of ext"
proof
  let ?s32 = "if ext then 1 else 8 + int (length p)"
  show "unpack_u32 buf s = Inr ?s32"
    using ok len by (cases ext) (simp_all add: buf s unpack_uint_in be_int_be_bytes)
  show "?s32 \<noteq> 0" by (cases ext) auto
  show "header_bytes_needed ?s32 = header_bytes_of ext"
    by (simp add: header_bytes_needed_def header_bytes_of_def header_consts)
qed

section \<open>The video track\<close>

lemma find_all_boxes_bounds:
  assumes "find_all_boxes buf t s e = Inr boxes" "(cs, ce) \<in> set boxes"
  shows "s + 8 \<le> cs \<and> cs \<le> ce \<and> ce \<le> e"
proof -
  from assms obtain ch where ch: "iter_child_boxes buf s e = Inr ch" and "(t, cs, ce) \<in> set ch"
    by (auto simp: find_all_boxes_def result_simps)
  with children_tile_member [OF iter_child_boxes_children_tile [OF ch]] show ?thesis by blast
qed

lemma is_video_sample_entry_Some:
  "is_video_sample_entry buf s e = Some f \<Longrightarrow> f \<in> set VIDEO_SAMPLE_ENTRY_TYPES \<and> s + 16 \<le> e"
  by (auto simp: is_video_sample_entry_def Let_def header_consts split: if_splits)

text \<open>A recognised track's ranges are nested: \<^verbatim>\<open>stsd\<close> inside \<^verbatim>\<open>stbl\<close> inside \<^verbatim>\<open>trak\<close>.\<close>

lemma video_trak_match_nested:
  assumes m: "video_trak_match buf (ts, te) = Inr ms" "m \<in> set ms" and le: "ts \<le> te"
  shows "case m of (ts', te', bs, be, ds, de, f) \<Rightarrow>
    ts' = ts \<and> te' = te \<and> ts \<le> bs \<and> bs \<le> ds \<and> ds + 16 \<le> de \<and> de \<le> be \<and> be \<le> te \<and>
    f \<in> set VIDEO_SAMPLE_ENTRY_TYPES"
proof -
  from m obtain bs be ds de f where
    stbl: "find_box buf [''mdia'', ''minf'', ''stbl''] ts te = Inr (bs, be)"
    and stsd: "find_box buf [''stsd''] bs be = Inr (ds, de)"
    and f: "is_video_sample_entry buf ds de = Some f" and m': "m = (ts, te, bs, be, ds, de, f)"
    by (auto simp: video_trak_match_def result_simps simp del: find_box.simps
        split: sum.splits option.splits if_splits)
  have "ts \<le> bs \<and> bs \<le> be \<and> be \<le> te" by (rule find_box_bounds [OF stbl le])
  moreover from this have "bs \<le> ds \<and> ds \<le> de \<and> de \<le> be" by (intro find_box_bounds [OF stsd]) simp
  ultimately show ?thesis using is_video_sample_entry_Some [OF f] by (simp add: m')
qed

lemma video_trak_matches_nested:
  assumes "video_trak_matches buf traks = Inr ms" "m \<in> set ms"
    and "\<forall>(ts, te) \<in> set traks. lo \<le> ts \<and> ts \<le> te \<and> te \<le> hi"
  shows "case m of (ts, te, bs, be, ds, de, f) \<Rightarrow>
    lo \<le> ts \<and> ts \<le> bs \<and> bs \<le> ds \<and> ds + 16 \<le> de \<and> de \<le> be \<and> be \<le> te \<and> te \<le> hi \<and>
    f \<in> set VIDEO_SAMPLE_ENTRY_TYPES"
  using assms
proof (induction traks arbitrary: ms)
  case Nil
  then show ?case by simp
next
  case (Cons trak traks)
  obtain ts te where trak: "trak = (ts, te)" by (cases trak)
  from Cons.prems obtain found rest where
    found: "video_trak_match buf (ts, te) = Inr found"
    and rest: "video_trak_matches buf traks = Inr rest" and ms: "ms = found @ rest"
    by (auto simp: trak result_simps)
  have bounds: "lo \<le> ts" "ts \<le> te" "te \<le> hi" using Cons.prems(3) by (auto simp: trak)
  from Cons.prems(2) ms consider "m \<in> set found" | "m \<in> set rest" by auto
  then show ?case
  proof cases
    case 1
    from video_trak_match_nested [OF found 1 bounds(2)] bounds show ?thesis by auto
  next
    case 2
    with rest Cons.prems(3) show ?thesis by (intro Cons.IH) auto
  qed
qed

lemma find_video_trak_Inr:
  assumes "find_video_trak buf ms me = Inr m"
  obtains traks where "find_all_boxes buf ''trak'' ms me = Inr traks"
    "video_trak_matches buf traks = Inr [m]"
proof -
  from assms obtain traks found where "find_all_boxes buf ''trak'' ms me = Inr traks"
    "video_trak_matches buf traks = Inr found"
    "(case found of [] \<Rightarrow> Inl BoxNotFoundError | [m] \<Rightarrow> Inr m
      | _ \<Rightarrow> Inl AmbiguousVideoTrackError) = Inr m"
    by (auto simp: find_video_trak_def result_simps)
  moreover from this(3) have "found = [m]" by (simp split: list.splits)
  ultimately show ?thesis using that by simp
qed

text \<open>When the loop over the \<^verbatim>\<open>trak\<close> boxes collects a single match, one of them gave it and every
  other gave none.\<close>

lemma video_trak_matches_Nil:
  "video_trak_matches buf traks = Inr [] \<Longrightarrow> \<forall>tr \<in> set traks. video_trak_match buf tr = Inr []"
  by (induction traks) (auto simp: result_simps)

lemma video_trak_match_single:
  "video_trak_match buf tr = Inr ms \<Longrightarrow> ms = [] \<or> (\<exists>r. ms = [(fst tr, snd tr, r)])"
  by (cases tr) (auto simp: video_trak_match_def simp del: find_box.simps
      split: sum.splits option.splits if_splits)

lemma video_trak_matches_single:
  "video_trak_matches buf traks = Inr [(ts, te, r)] \<Longrightarrow>
   \<exists>before after. traks = before @ (ts, te) # after \<and>
     (\<forall>tr \<in> set before \<union> set after. video_trak_match buf tr = Inr [])"
proof (induction traks)
  case Nil
  then show ?case by simp
next
  case (Cons tr traks)
  then obtain found rest where found: "video_trak_match buf tr = Inr found"
    and rest: "video_trak_matches buf traks = Inr rest" and app: "found @ rest = [(ts, te, r)]"
    by (auto simp: result_simps)
  show ?case
  proof (cases "found = []")
    case True
    with app rest Cons.IH obtain before after where "traks = before @ (ts, te) # after"
      "\<forall>tr \<in> set before \<union> set after. video_trak_match buf tr = Inr []" by auto
    with found True show ?thesis
      by (intro exI [of _ "tr # before"] exI [of _ after]) auto
  next
    case False
    with app video_trak_match_single [OF found] have "tr = (ts, te)" "rest = []"
      by (cases tr; auto)+
    with video_trak_matches_Nil rest show ?thesis
      by (intro exI [of _ "[]"] exI [of _ traks]) auto
  qed
qed

section \<open>Properties\<close>

text \<open>C30: Walking a buffer region that holds well-formed boxes (32-bit or 64-bit size form, ASCII
  types) laid end to end, whatever surrounds the region, returns exactly those boxes in order, and
  the content range of each one slices out its payload.\<close>

theorem iter_child_boxes_roundtrip:
  assumes "\<forall>b \<in> set bs. box_ok b"
    and "int (length (pre @ concat (map write_box bs) @ post)) < 2 ^ 63"
  shows "\<exists>ch. iter_child_boxes (pre @ concat (map write_box bs) @ post) (int (length pre))
           (int (length pre) + int (length (concat (map write_box bs)))) = Inr ch \<and>
         map (\<lambda>(t, cs, ce). (t, py_slice (pre @ concat (map write_box bs) @ post) cs ce)) ch =
           map snd bs"
  using iter_child_boxes_write_boxes [OF assms refl refl]
    box_layout_payloads [OF assms(1) refl, of pre post]
  by blast

theorem iter_child_boxes_roundtrip_witness:
  "\<exists>ch. iter_child_boxes ([9] @ concat (map write_box [(False, ''free'', [1, 2]), (True, ''moov'', [7])]) @ [])
      (int (length [9 :: byte]))
      (int (length [9 :: byte]) +
       int (length (concat (map write_box [(False, ''free'', [1, 2]), (True, ''moov'', [7])])))) = Inr ch \<and>
    map (\<lambda>(t, cs, ce). (t, py_slice ([9] @ concat (map write_box [(False, ''free'', [1, 2]),
      (True, ''moov'', [7])]) @ []) cs ce)) ch =
      map snd [(False, ''free'', [1, 2]), (True, ''moov'', [7])]"
  by (rule iter_child_boxes_roundtrip) (code_simp, code_simp)

text \<open>Whatever bytes a region holds, a successful walk returns boxes whose contents lie inside
  the region, after a header of at least 8 bytes, and each later box lies after the earlier ones:
  no two children overlap.\<close>

theorem iter_child_boxes_contained:
  assumes "iter_child_boxes buf s e = Inr ch"
  shows "(\<forall>(t, cs, ce) \<in> set ch. s + 8 \<le> cs \<and> cs \<le> ce \<and> ce \<le> e) \<and>
         sorted_wrt (\<lambda>(t, cs, ce) (t', cs', ce'). ce + 8 \<le> cs') ch"
proof -
  have tile: "children_tile s e ch" using assms by (rule iter_child_boxes_children_tile)
  then have "sorted_wrt (\<lambda>(t, cs, ce) (t', cs', ce'). ce + 8 \<le> cs') ch"
  proof (induction ch arbitrary: s)
    case Nil
    then show ?case by simp
  next
    case (Cons c ch)
    obtain t cs ce where c: "c = (t, cs, ce)" by (cases c)
    with Cons.prems have "children_tile ce e ch" by simp
    with Cons.IH show ?case by (auto simp: c dest: children_tile_member)
  qed
  with children_tile_member [OF tile] show ?thesis by blast
qed

theorem iter_child_boxes_contained_witness:
  "\<exists>ch. iter_child_boxes (write_box (False, ''stts'', [1]) @ write_box (False, ''stsz'', [])) 0 17 = Inr ch \<and>
    (\<forall>(t, cs, ce) \<in> set ch. 0 + 8 \<le> cs \<and> cs \<le> ce \<and> ce \<le> 17) \<and>
    sorted_wrt (\<lambda>(t, cs, ce) (t', cs', ce'). ce + 8 \<le> cs') ch"
proof -
  have h: "iter_child_boxes (write_box (False, ''stts'', [1]) @ write_box (False, ''stsz'', [])) 0 17 =
      Inr [(''stts'', 8, 9), (''stsz'', 17, 17)]"
    by code_simp
  with iter_child_boxes_contained [OF h] show ?thesis by blast
qed

text \<open>A selected video track is unambiguous and well nested: its \<^verbatim>\<open>stsd\<close> lies inside its \<^verbatim>\<open>stbl\<close>,
  that inside its \<^verbatim>\<open>trak\<close>, that inside \<^verbatim>\<open>moov\<close>; the reported fourcc is one of the four supported
  codes; and no other \<^verbatim>\<open>trak\<close> of the \<^verbatim>\<open>moov\<close> contributes a match.\<close>

theorem find_video_trak_sound:
  assumes "find_video_trak buf ms me = Inr (ts, te, bs, be, ds, de, f)"
  shows "ms \<le> ts \<and> ts \<le> bs \<and> bs \<le> ds \<and> ds + 16 \<le> de \<and> de \<le> be \<and> be \<le> te \<and> te \<le> me \<and>
         f \<in> {''avc1'', ''avc3'', ''hev1'', ''hvc1''} \<and>
         (\<exists>before after. find_all_boxes buf ''trak'' ms me = Inr (before @ (ts, te) # after) \<and>
           (\<forall>tr \<in> set before \<union> set after. video_trak_match buf tr = Inr []))"
proof -
  let ?m = "(ts, te, bs, be, ds, de, f)"
  from assms obtain traks where traks: "find_all_boxes buf ''trak'' ms me = Inr traks"
    and matches: "video_trak_matches buf traks = Inr [?m]"
    by (rule find_video_trak_Inr)
  have "\<forall>(ts, te) \<in> set traks. ms \<le> ts \<and> ts \<le> te \<and> te \<le> me"
    using find_all_boxes_bounds [OF traks] by fastforce
  from video_trak_matches_nested [OF matches _ this, of ?m]
  have "ms \<le> ts \<and> ts \<le> bs \<and> bs \<le> ds \<and> ds + 16 \<le> de \<and> de \<le> be \<and> be \<le> te \<and> te \<le> me \<and>
      f \<in> {''avc1'', ''avc3'', ''hev1'', ''hvc1''}"
    by (auto simp: VIDEO_SAMPLE_ENTRY_TYPES_def VIDEO_FOURCC_CODEC_NAMES_def)
  with video_trak_matches_single [OF matches] traks show ?thesis by auto
qed


definition sample_moov :: bytes where
  "sample_moov = write_box (False, ''trak'', write_box (False, ''mdia'',
     write_box (False, ''minf'', write_box (False, ''stbl'', write_box (False, ''stsd'',
       be_bytes 8 1 @ be_bytes 4 8 @ encode_ascii ''avc1'')))))"

theorem find_video_trak_sound_witness:
  "find_video_trak sample_moov 0 56 = Inr (8, 56, 32, 56, 40, 56, ''avc1'') \<and>
   (\<exists>before after. find_all_boxes sample_moov ''trak'' 0 56 = Inr (before @ (8, 56) # after) \<and>
      (\<forall>tr \<in> set before \<union> set after. video_trak_match sample_moov tr = Inr []))"
proof -
  have h: "find_video_trak sample_moov 0 56 = Inr (8, 56, 32, 56, 40, 56, ''avc1'')"
    by code_simp
  with find_video_trak_sound [OF h] show ?thesis by blast
qed

end
