(* ===== verification/BoxTraversal.thy ===== *)
theory BoxTraversal
  imports BoxPrimitives
begin

text \<open>
  \<^verbatim>\<open>core/sensors/mp4/box_traversal.py\<close>: the stateful walk over one buffer that caches the children
  of each scope and hands \<^verbatim>\<open>uuid\<close> boxes to the caller's handlers. A handler's callback is code the
  package does not know, so it is a parameter: a function of the payload, the location and the
  caller's world \<open>'w\<close> to the next world and, where it raises, the exception. The lemmas show that
  the walk agrees with \<^verbatim>\<open>iter_child_boxes\<close>, that a scanned scope is never scanned again, and that a
  handler sees each box at most once.
\<close>

section \<open>Definitions\<close>

definition UUID_BYTES :: int where "UUID_BYTES = 16"

record box_scope =
  sc_start :: int
  sc_end :: int
  sc_path :: "string list"
  sc_track_id :: "int option"
  sc_fragment_index :: "int option"

record box_location =
  bl_box_type :: string
  bl_offset :: int
  bl_content_start :: int
  bl_end :: int
  bl_parent :: box_scope

definition child_scope :: "box_location \<Rightarrow> int option \<Rightarrow> box_scope" where
  "child_scope loc track_id =
     \<lparr>sc_start = bl_content_start loc, sc_end = bl_end loc,
      sc_path = sc_path (bl_parent loc) @ [bl_box_type loc],
      sc_track_id = (case track_id of None \<Rightarrow> sc_track_id (bl_parent loc) | Some i \<Rightarrow> Some i),
      sc_fragment_index = sc_fragment_index (bl_parent loc)\<rparr>"

record 'w uuid_handler =
  uh_identifier :: bytes
  uh_parent_paths :: "string list list"
  uh_callback :: "bytes \<Rightarrow> box_location \<Rightarrow> 'w \<Rightarrow> string option \<times> 'w"

definition make_uuid_handler ::
  "bytes \<Rightarrow> string list list \<Rightarrow> (bytes \<Rightarrow> box_location \<Rightarrow> 'w \<Rightarrow> string option \<times> 'w) \<Rightarrow>
   'w uuid_handler res" where
  "make_uuid_handler ident paths callback =
     rbind (rguard (int (length ident) = UUID_BYTES) ValueError) (\<lambda>_.
     Inr \<lparr>uh_identifier = ident, uh_parent_paths = paths, uh_callback = callback\<rparr>)"

text \<open>\<^verbatim>\<open>BoxTraversal\<close>: its fields and, beside them, the world the callbacks act on.\<close>

record 'w box_traversal =
  bt_buffer :: bytes
  bt_handlers :: "bytes \<times> string list \<rightharpoonup> 'w uuid_handler"
  bt_scopes :: "box_scope \<rightharpoonup> box_location list"
  bt_dispatched :: "int set"
  bt_world :: 'w

type_synonym ('w, 'a) traversal_op = "('w box_traversal, mp4_error, 'a) stm"

text \<open>The constructor: one key per identifier and parent path; a second handler for a key is refused.\<close>

fun register_handler ::
  "'w uuid_handler \<Rightarrow> string list list \<Rightarrow> (bytes \<times> string list \<rightharpoonup> 'w uuid_handler) \<Rightarrow>
   (bytes \<times> string list \<rightharpoonup> 'w uuid_handler) res" where
  "register_handler h [] m = Inr m"
| "register_handler h (path # paths) m =
     (if m (uh_identifier h, path) \<noteq> None then Inl ValueError
      else register_handler h paths (m((uh_identifier h, path) \<mapsto> h)))"

fun register_handlers ::
  "'w uuid_handler list \<Rightarrow> (bytes \<times> string list \<rightharpoonup> 'w uuid_handler) \<Rightarrow>
   (bytes \<times> string list \<rightharpoonup> 'w uuid_handler) res" where
  "register_handlers [] m = Inr m"
| "register_handlers (h # hs) m =
     rbind (register_handler h (uh_parent_paths h) m) (register_handlers hs)"

definition make_traversal :: "bytes \<Rightarrow> 'w uuid_handler list \<Rightarrow> 'w \<Rightarrow> 'w box_traversal res" where
  "make_traversal buffer uuid_handlers w =
     rbind (register_handlers uuid_handlers Map.empty) (\<lambda>handlers.
     Inr \<lparr>bt_buffer = buffer, bt_handlers = handlers, bt_scopes = Map.empty,
          bt_dispatched = {}, bt_world = w\<rparr>)"

definition dispatch :: "box_location \<Rightarrow> ('w, unit) traversal_op" where
  "dispatch loc t =
     (if bl_end loc - bl_content_start loc < UUID_BYTES then (Inl MalformedBoxHeaderError, t)
      else let identifier_end = bl_content_start loc + UUID_BYTES;
               ident = py_slice (bt_buffer t) (bl_content_start loc) identifier_end
        in case bt_handlers t (ident, sc_path (bl_parent loc)) of
             None \<Rightarrow> (Inr (), t)
           | Some handler \<Rightarrow>
               if bl_offset loc \<in> bt_dispatched t then (Inr (), t)
               else case uh_callback handler (py_slice (bt_buffer t) identifier_end (bl_end loc)) loc
                           (bt_world t) of
                      (Some exc, w) \<Rightarrow> (Inl (UuidCallbackError exc), t\<lparr>bt_world := w\<rparr>)
                    | (None, w) \<Rightarrow>
                        (Inr (), t\<lparr>bt_world := w,
                                   bt_dispatched := insert (bl_offset loc) (bt_dispatched t)\<rparr>))"

text \<open>One turn of the scan loop up to the location it appends.\<close>

definition scan_location :: "bytes \<Rightarrow> box_scope \<Rightarrow> int \<Rightarrow> box_location res" where
  "scan_location buf scope offset =
     rbind (unpack_u32 buf offset) (\<lambda>size32.
     rbind (rguard (\<not> (size32 = EXTENDED_SIZE_MARKER \<and> sc_end scope - offset < EXTENDED_HEADER_BYTES))
              MalformedBoxHeaderError) (\<lambda>_.
     rbind (read_box_header buf offset (sc_end scope)) (\<lambda>(box_type, sz, header_len).
     rbind (rguard (\<not> offset + sz > sc_end scope) MalformedBoxHeaderError) (\<lambda>_.
     Inr \<lparr>bl_box_type = box_type, bl_offset = offset, bl_content_start = offset + header_len,
          bl_end = offset + sz, bl_parent = scope\<rparr>))))"

lemma scan_location_progress:
  assumes "8 \<le> sc_end scope - offset" and "scan_location buf scope offset = Inr loc"
  shows "offset + 8 \<le> bl_end loc \<and> bl_end loc \<le> sc_end scope"
proof -
  from assms(2) obtain t sz hdr where hd: "read_box_header buf offset (sc_end scope) = Inr (t, sz, hdr)"
    and "\<not> offset + sz > sc_end scope" and "bl_end loc = offset + sz"
    by (auto simp: scan_location_def result_simps)
  with read_box_header_pos [OF hd assms(1)] show ?thesis by simp
qed

function scan_loop :: "bytes \<Rightarrow> box_scope \<Rightarrow> int \<Rightarrow> ('w, box_location list) traversal_op" where
  "scan_loop buf scope offset =
     (if sc_end scope - offset \<ge> STANDARD_HEADER_BYTES then
        case scan_location buf scope offset of
          Inl e \<Rightarrow> sraise e
        | Inr location \<Rightarrow>
            sbind (if bl_box_type location = ''uuid'' then dispatch location else sreturn ()) (\<lambda>_.
            sbind (scan_loop buf scope (bl_end location)) (\<lambda>rest.
            sreturn (location # rest)))
      else sreturn [])"
  by pat_completeness auto
termination
  by (relation "measure (\<lambda>(buf, scope, offset). nat (sc_end scope - offset))")
    (auto simp: header_consts dest: scan_location_progress)

declare scan_loop.simps [simp del]

definition scan_children :: "box_scope \<Rightarrow> ('w, box_location list) traversal_op" where
  "scan_children scope t =
     (case bt_scopes t scope of
        Some children \<Rightarrow> (Inr children, t)
      | None \<Rightarrow>
          if \<not> (0 \<le> sc_start scope \<and> sc_start scope \<le> sc_end scope \<and>
                sc_end scope \<le> int (length (bt_buffer t)))
          then (Inl MalformedBoxHeaderError, t)
          else sbind (scan_loop (bt_buffer t) scope (sc_start scope)) (\<lambda>result t'.
                 (Inr result, t'\<lparr>bt_scopes := (bt_scopes t')(scope \<mapsto> result)\<rparr>)) t)"

fun traversal_find :: "box_scope \<Rightarrow> string list \<Rightarrow> ('w, box_location) traversal_op" where
  "traversal_find scope [] = sraise ValueError"
| "traversal_find scope (name # path) =
     sbind (scan_children scope) (\<lambda>children.
     case find (\<lambda>box. bl_box_type box = name) children of
       None \<Rightarrow> sraise BoxNotFoundError
     | Some location \<Rightarrow>
         if path = [] then sreturn location
         else traversal_find (child_scope location None) path)"

definition find_bounds :: "box_scope \<Rightarrow> string list \<Rightarrow> ('w, int \<times> int) traversal_op" where
  "find_bounds scope path =
     sbind (traversal_find scope path) (\<lambda>box. sreturn (bl_content_start box, bl_end box))"

definition extension_boxes :: "box_scope \<Rightarrow> ('w, (bytes \<times> bytes) list) traversal_op" where
  "extension_boxes scope =
     sbind (scan_children scope) (\<lambda>children t.
     (Inr [(py_slice (bt_buffer t) (bl_content_start box) (bl_content_start box + UUID_BYTES),
            py_slice (bt_buffer t) (bl_content_start box + UUID_BYTES) (bl_end box)).
           box \<leftarrow> children, bl_box_type box = ''uuid''], t))"

definition find_bytes :: "box_scope \<Rightarrow> string list \<Rightarrow> ('w, bytes) traversal_op" where
  "find_bytes scope path =
     sbind (traversal_find scope path) (\<lambda>box t.
     (Inr (py_slice (bt_buffer t) (bl_offset box) (bl_end box)), t))"

section \<open>The state a traversal keeps\<close>

text \<open>Every operation leaves the buffer and the handlers alone, forgets no scope and no dispatch.\<close>

definition extends :: "'w box_traversal \<Rightarrow> 'w box_traversal \<Rightarrow> bool" where
  "extends t t' \<longleftrightarrow> bt_buffer t' = bt_buffer t \<and> bt_handlers t' = bt_handlers t \<and>
     bt_scopes t \<subseteq>\<^sub>m bt_scopes t' \<and> bt_dispatched t \<subseteq> bt_dispatched t'"

lemma extends_refl: "reflp extends"
  by (rule reflpI) (simp add: extends_def)

lemma extends_self [simp]: "extends t t"
  by (simp add: extends_def)

lemma extends_trans: "transp extends"
  by (rule transpI) (auto simp: extends_def intro: map_le_trans)

lemmas extends_sbind = spreserves_sbind [OF extends_trans]
lemmas extends_simple = spreserves_simple [OF extends_refl]

lemma dispatch_extends [preserves]: "spreserves extends (dispatch loc)"
  by (auto simp: spreserves_def dispatch_def extends_def Let_def split: option.splits prod.splits)

lemma scan_loop_extends [preserves]: "spreserves extends (scan_loop buf scope offset)"
proof (induction buf scope offset rule: scan_loop.induct)
  case (1 buf scope offset)
  show ?case
    by (subst scan_loop.simps)
      (auto split: sum.splits intro!: extends_simple extends_sbind dispatch_extends "1.IH")
qed

text \<open>Only \<open>scan_children\<close> records scopes.\<close>

definition same_scopes :: "'w box_traversal \<Rightarrow> 'w box_traversal \<Rightarrow> bool" where
  "same_scopes t t' \<longleftrightarrow> bt_scopes t' = bt_scopes t"

lemma same_scopes_rel: "reflp same_scopes" "transp same_scopes"
  by (auto simp: same_scopes_def intro: reflpI transpI)

lemma dispatch_scopes [preserves]: "spreserves same_scopes (dispatch loc)"
  by (auto simp: spreserves_def same_scopes_def dispatch_def Let_def
      split: option.splits prod.splits)

lemma scan_loop_scopes [preserves]: "spreserves same_scopes (scan_loop buf scope offset)"
proof (induction buf scope offset rule: scan_loop.induct)
  case (1 buf scope offset)
  show ?case
    by (subst scan_loop.simps)
      (auto split: sum.splits intro!: spreserves_simple [OF same_scopes_rel(1)]
        spreserves_sbind [OF same_scopes_rel(2)] dispatch_scopes "1.IH")
qed

lemma extends_update_scope:
  assumes "extends t t'" "bt_scopes t' scope = None \<or> bt_scopes t' scope = Some r"
  shows "extends t (t'\<lparr>bt_scopes := (bt_scopes t')(scope \<mapsto> r)\<rparr>)"
  using assms by (auto simp: extends_def map_le_def dom_def)

lemma scan_children_extends [preserves]: "spreserves extends (scan_children scope)"
  unfolding spreserves_def
proof
  fix t :: "'w box_traversal"
  obtain r t' where loop: "scan_loop (bt_buffer t) scope (sc_start scope) t = (r, t')"
    by (cases "scan_loop (bt_buffer t) scope (sc_start scope) t")
  have ext: "extends t t'"
    using scan_loop_extends [of "bt_buffer t" scope "sc_start scope"] loop
    by (metis spreserves_def snd_conv)
  have scopes: "bt_scopes t' = bt_scopes t"
    using scan_loop_scopes [of "bt_buffer t" scope "sc_start scope"] loop
    by (metis same_scopes_def spreserves_def snd_conv)
  show "extends t (snd (scan_children scope t))"
    using ext extends_refl extends_update_scope [OF ext, of scope]
    by (auto simp: scan_children_def sbind_def loop scopes reflp_def split: option.splits sum.splits)
qed

lemma traversal_find_extends [preserves]: "spreserves extends (traversal_find scope path)"
  by (induction scope path rule: traversal_find.induct)
    (auto split: option.splits intro!: extends_simple extends_sbind scan_children_extends)

text \<open>A scope that was scanned answers from the record, with no effect at all, ever after.\<close>

lemma scan_children_recorded:
  "scan_children scope t = (Inr r, t') \<Longrightarrow> bt_scopes t' scope = Some r"
  by (auto simp: scan_children_def sbind_def split: option.splits if_splits prod.splits sum.splits)

lemma scan_children_cached:
  "bt_scopes t scope = Some r \<Longrightarrow> scan_children scope t = (Inr r, t)"
  by (simp add: scan_children_def)

text \<open>\<open>run_scans\<close> performs a list of scan requests, whatever each of them returns.\<close>

fun run_scans :: "box_scope list \<Rightarrow> 'w box_traversal \<Rightarrow> 'w box_traversal" where
  "run_scans [] t = t"
| "run_scans (scope # scopes) t = run_scans scopes (snd (scan_children scope t))"

lemma run_scans_extends: "extends t (run_scans scopes t)"
proof (induction scopes arbitrary: t)
  case Nil
  then show ?case by simp
next
  case (Cons scope scopes)
  have "extends t (snd (scan_children scope t))"
    using scan_children_extends unfolding spreserves_def by (rule spec)
  with Cons.IH [of "snd (scan_children scope t)"] show ?case
    using extends_trans by (auto dest: transpD)
qed

section \<open>Agreement with the stateless walk\<close>

definition location_box :: "box_location \<Rightarrow> child_box" where
  "location_box loc = (bl_box_type loc, bl_content_start loc, bl_end loc)"

lemma scan_location_Inr:
  assumes "scan_location buf scope offset = Inr loc"
  obtains t sz hdr where "read_box_header buf offset (sc_end scope) = Inr (t, sz, hdr)"
    "offset + sz \<le> sc_end scope" "bl_offset loc = offset" "bl_parent loc = scope"
    "location_box loc = (t, offset + hdr, offset + sz)"
  using assms by (auto simp: scan_location_def location_box_def result_simps)

lemma scan_loop_Inr_iter:
  "scan_loop buf scope offset t = (Inr locs, t') \<Longrightarrow>
   iter_child_boxes buf offset (sc_end scope) = Inr (map location_box locs)"
proof (induction buf scope offset arbitrary: t t' locs rule: scan_loop.induct)
  case (1 buf scope offset)
  show ?case
  proof (cases "sc_end scope - offset \<ge> STANDARD_HEADER_BYTES")
    case False
    with "1.prems" show ?thesis
      by (subst iter_child_boxes_unfold)
        (auto simp: scan_loop.simps [of buf scope offset] header_consts result_simps)
  next
    case True
    with "1.prems" obtain loc t1 rest where
      loc: "scan_location buf scope offset = Inr loc"
      and rest: "scan_loop buf scope (bl_end loc) t1 = (Inr rest, t')" and locs: "locs = loc # rest"
      by (auto simp: scan_loop.simps [of buf scope offset] result_simps split: sum.splits)
    from loc obtain ty sz hdr where
      hd: "read_box_header buf offset (sc_end scope) = Inr (ty, sz, hdr)"
      and le: "offset + sz \<le> sc_end scope"
      and box: "location_box loc = (ty, offset + hdr, offset + sz)"
      by (rule scan_location_Inr)
    have "iter_child_boxes buf (offset + sz) (sc_end scope) = Inr (map location_box rest)"
      using "1.IH" [OF True loc rest] box by (simp add: location_box_def)
    with True hd le box locs show ?thesis
      by (subst iter_child_boxes_unfold) (simp add: header_consts)
  qed
qed

text \<open>The one check the stateless walk lacks, a 64-bit header cut off by the parent, never fails
  where that walk succeeds.\<close>

lemma scan_location_complete:
  assumes "read_box_header buf offset (sc_end scope) = Inr (t, sz, hdr)"
    and "8 \<le> sc_end scope - offset" "offset + sz \<le> sc_end scope"
  shows "\<exists>loc. scan_location buf scope offset = Inr loc \<and> bl_offset loc = offset \<and>
    bl_parent loc = scope \<and> location_box loc = (t, offset + hdr, offset + sz)"
proof -
  from assms(1) obtain v where v: "unpack_u32 buf offset = Inr v"
    and ext: "v = EXTENDED_SIZE_MARKER \<longrightarrow> 16 \<le> sz"
    by (auto simp: read_box_header_def Let_def header_consts result_simps split: if_splits)
  with assms show ?thesis
    by (auto simp: scan_location_def location_box_def header_consts)
qed

definition quiet :: "bytes \<Rightarrow> 'w box_traversal \<Rightarrow> bool" where
  "quiet buf t \<longleftrightarrow> bt_buffer t = buf \<and> bt_handlers t = Map.empty"

lemma dispatch_quiet:
  "quiet buf t \<Longrightarrow> bl_content_start loc + 16 \<le> bl_end loc \<Longrightarrow> dispatch loc t = (Inr (), t)"
  by (simp add: quiet_def dispatch_def UUID_BYTES_def Let_def)

lemma dispatch_short: "bl_end loc < bl_content_start loc + 16 \<Longrightarrow>
  dispatch loc t = (Inl MalformedBoxHeaderError, t)"
  by (simp add: dispatch_def UUID_BYTES_def)

lemma scan_loop_complete:
  assumes "quiet buf t"
    and "iter_child_boxes buf offset (sc_end scope) = Inr ch"
    and "\<forall>(ty, cs, ce) \<in> set ch. ty = ''uuid'' \<longrightarrow> cs + 16 \<le> ce"
  shows "\<exists>locs. scan_loop buf scope offset t = (Inr locs, t) \<and> map location_box locs = ch"
  using assms(2,3)
proof (induction offset arbitrary: ch rule: iter_child_boxes_induct [of "sc_end scope" buf])
  case (step offset)
  from step.prems(1) show ?case
  proof (cases rule: iter_child_boxes_InrE)
    case finished
    then show ?thesis by (subst scan_loop.simps) (simp add: header_consts sreturn_def)
  next
    case (child ty sz hdr rest)
    from scan_location_complete [OF child(2,1,5)] obtain loc where
      loc: "scan_location buf scope offset = Inr loc"
      and box: "location_box loc = (ty, offset + hdr, offset + sz)" by blast
    from step.IH [OF child(1,2,3,5,6)] step.prems(2) child(7) obtain locs where
      rest: "scan_loop buf scope (offset + sz) t = (Inr locs, t)" "map location_box locs = rest"
      by auto
    have "bl_box_type loc = ''uuid'' \<longrightarrow> dispatch loc t = (Inr (), t)"
      using step.prems(2) child(7) box by (auto simp: location_box_def intro!: dispatch_quiet [OF assms(1)])
    then show ?thesis
      using child(1,7) loc rest box
      by (subst scan_loop.simps)
        (auto simp: header_consts sbind_def sreturn_def location_box_def intro!: exI [of _ "loc # locs"])
  qed
qed

lemma scan_loop_Inr_uuid:
  "scan_loop buf scope offset t = (Inr locs, t') \<Longrightarrow>
   \<forall>loc \<in> set locs. bl_box_type loc = ''uuid'' \<longrightarrow> bl_content_start loc + 16 \<le> bl_end loc"
proof (induction buf scope offset arbitrary: t t' locs rule: scan_loop.induct)
  case (1 buf scope offset)
  show ?case
  proof (cases "sc_end scope - offset \<ge> STANDARD_HEADER_BYTES")
    case False
    with "1.prems" show ?thesis by (auto simp: scan_loop.simps [of buf scope offset] result_simps)
  next
    case True
    with "1.prems" obtain loc t1 rest where
      loc: "scan_location buf scope offset = Inr loc"
      and disp: "(if bl_box_type loc = ''uuid'' then dispatch loc else sreturn ()) t = (Inr (), t1)"
      and rest: "scan_loop buf scope (bl_end loc) t1 = (Inr rest, t')" and locs: "locs = loc # rest"
      by (auto simp: scan_loop.simps [of buf scope offset] result_simps split: sum.splits)
    have "bl_box_type loc = ''uuid'' \<longrightarrow> bl_content_start loc + 16 \<le> bl_end loc"
      using disp dispatch_short [of loc t]
      by (cases "bl_end loc < bl_content_start loc + 16") auto
    with "1.IH" [OF True loc rest] show ?thesis by (simp add: locs)
  qed
qed

section \<open>Handlers see each box once\<close>

text \<open>Handlers that record the offset they are given and never raise.\<close>

definition recording :: "(int list) box_traversal \<Rightarrow> bool" where
  "recording t \<longleftrightarrow>
     (\<forall>k h. bt_handlers t k = Some h \<longrightarrow>
        uh_callback h = (\<lambda>payload loc w. (None, w @ [bl_offset loc])))"

definition log_inv :: "(int list) box_traversal \<Rightarrow> bool" where
  "log_inv t \<longleftrightarrow> recording t \<and> distinct (bt_world t) \<and> set (bt_world t) = bt_dispatched t"

lemma dispatch_log_inv: "log_inv t \<Longrightarrow> log_inv (snd (dispatch loc t))"
  by (auto simp: log_inv_def recording_def dispatch_def Let_def split: option.splits prod.splits)

lemma scan_loop_log_inv: "log_inv t \<Longrightarrow> log_inv (snd (scan_loop buf scope offset t))"
proof (induction buf scope offset arbitrary: t rule: scan_loop.induct)
  case (1 buf scope offset)
  show ?case
  proof (cases "sc_end scope - offset \<ge> STANDARD_HEADER_BYTES")
    case False
    with "1.prems" show ?thesis by (subst scan_loop.simps) (simp add: sreturn_def)
  next
    case True
    show ?thesis
    proof (cases "scan_location buf scope offset")
      case (Inl e)
      with "1.prems" True show ?thesis by (subst scan_loop.simps) (simp add: sraise_def)
    next
      case (Inr loc)
      let ?d = "if bl_box_type loc = ''uuid'' then dispatch loc else sreturn ()"
      obtain r t1 where d: "?d t = (r, t1)" by (cases "?d t")
      then have t1: "log_inv t1"
        using dispatch_log_inv [OF "1.prems", of loc] "1.prems"
        by (auto simp: sreturn_def split: if_splits)
      have "log_inv (snd (scan_loop buf scope (bl_end loc) t1))"
        by (rule "1.IH" [OF True Inr t1])
      with True Inr d t1 show ?thesis
        by (subst scan_loop.simps)
          (auto simp: sbind_def sreturn_def split: sum.splits prod.splits)
    qed
  qed
qed

lemma scan_children_log_inv: "log_inv t \<Longrightarrow> log_inv (snd (scan_children scope t))"
  using scan_loop_log_inv [of t "bt_buffer t" scope "sc_start scope"]
  by (auto simp: scan_children_def sbind_def log_inv_def recording_def
      split: option.splits sum.splits prod.splits)

lemma run_scans_log_inv: "log_inv t \<Longrightarrow> log_inv (run_scans scopes t)"
  by (induction scopes arbitrary: t) (auto intro: scan_children_log_inv)

lemma register_handler_ran:
  "register_handler h paths m = Inr m' \<Longrightarrow> ran m' \<subseteq> insert h (ran m)"
  by (induction paths arbitrary: m) (force simp: ran_def split: if_splits)+

lemma register_handlers_ran:
  "register_handlers hs m = Inr m' \<Longrightarrow> ran m' \<subseteq> set hs \<union> ran m"
  by (induction hs arbitrary: m) (fastforce simp: result_simps dest: register_handler_ran)+

section \<open>Properties\<close>

text \<open>C31: On a buffer range, the caching walk without handlers and the stateless walk of
  \<^verbatim>\<open>box_primitives\<close> succeed together, apart from \<^verbatim>\<open>uuid\<close> boxes too short for their identifier, and
  return the same boxes: the two implementations of box walking are equivalent.\<close>

theorem scan_children_equiv_iter_child_boxes:
  assumes "bt_handlers t = Map.empty" "bt_scopes t scope = None"
    and "0 \<le> sc_start scope" "sc_start scope \<le> sc_end scope"
    and "sc_end scope \<le> int (length (bt_buffer t))"
  shows "(\<exists>locs. fst (scan_children scope t) = Inr locs \<and> map location_box locs = ch) \<longleftrightarrow>
    iter_child_boxes (bt_buffer t) (sc_start scope) (sc_end scope) = Inr ch \<and>
    (\<forall>(ty, cs, ce) \<in> set ch. ty = ''uuid'' \<longrightarrow> cs + 16 \<le> ce)" (is "?scan \<longleftrightarrow> ?iter")
proof
  assume ?scan
  then obtain locs t' where loop: "scan_loop (bt_buffer t) scope (sc_start scope) t = (Inr locs, t')"
    and ch: "map location_box locs = ch"
    using assms by (auto simp: scan_children_def sbind_def split: prod.splits sum.splits)
  with scan_loop_Inr_iter [OF loop] scan_loop_Inr_uuid [OF loop] show ?iter
    by (auto simp: location_box_def)
next
  assume ?iter
  then obtain locs where "scan_loop (bt_buffer t) scope (sc_start scope) t = (Inr locs, t)"
    "map location_box locs = ch"
    using scan_loop_complete [of "bt_buffer t" t "sc_start scope" scope ch] assms(1)
    by (auto simp: quiet_def)
  with assms show ?scan by (auto simp: scan_children_def sbind_def)
qed

text \<open>Scanning is idempotent: once a scan of a scope has returned its children, a later scan of
  that scope, after any further scans, returns the same children and changes nothing, so no handler
  runs again.\<close>

theorem scan_children_idempotent:
  assumes "scan_children scope t = (Inr r, t')"
  shows "scan_children scope (run_scans scopes t') = (Inr r, run_scans scopes t')"
proof (rule scan_children_cached)
  have "bt_scopes t' scope = Some r" using assms by (rule scan_children_recorded)
  with run_scans_extends [of t' scopes] show "bt_scopes (run_scans scopes t') scope = Some r"
    by (auto simp: extends_def map_le_def dom_def)
qed

text \<open>However often and in whatever order scopes are scanned, overlapping scopes and scans that
  fail included, no box is handed to a handler twice (handlers that return normally).\<close>

theorem uuid_boxes_dispatched_once:
  assumes "make_traversal buffer handlers [] = Inr t"
    and "\<forall>h \<in> set handlers. uh_callback h = (\<lambda>payload loc w. (None, w @ [bl_offset loc]))"
  shows "distinct (bt_world (run_scans scopes t))"
proof -
  from assms(1) obtain m where m: "register_handlers handlers Map.empty = Inr m"
    and t: "bt_handlers t = m" "bt_world t = []" "bt_dispatched t = {}"
    by (auto simp: make_traversal_def result_simps)
  have "h \<in> set handlers" if "m k = Some h" for k h
    using register_handlers_ran [OF m] that by (auto intro: ranI)
  with assms(2) t have "log_inv t"
    by (simp add: log_inv_def recording_def)
  then have "log_inv (run_scans scopes t)" by (rule run_scans_log_inv)
  then show ?thesis by (simp add: log_inv_def)
qed

section \<open>Witnesses\<close>

definition sample_buffer :: bytes where
  "sample_buffer = write_box (False, ''uuid'', replicate 16 7 @ [1, 2]) @ write_box (False, ''free'', [])"

definition sample_scope :: "int option \<Rightarrow> box_scope" where
  "sample_scope track = \<lparr>sc_start = 0, sc_end = 34, sc_path = [''moov''], sc_track_id = track,
     sc_fragment_index = None\<rparr>"

definition sample_handler :: "(int list) uuid_handler" where
  "sample_handler = \<lparr>uh_identifier = replicate 16 7, uh_parent_paths = [[''moov'']],
     uh_callback = (\<lambda>payload loc w. (None, w @ [bl_offset loc]))\<rparr>"

definition sample_traversal :: "(int list) uuid_handler list \<Rightarrow> (int list) box_traversal" where
  "sample_traversal handlers = projr (make_traversal sample_buffer handlers [])"

theorem scan_children_equiv_iter_child_boxes_witness:
  "(\<exists>locs. fst (scan_children (sample_scope None) (sample_traversal [])) = Inr locs \<and>
     map location_box locs = [(''uuid'', 8, 26), (''free'', 34, 34)]) \<longleftrightarrow>
   iter_child_boxes (bt_buffer (sample_traversal [])) (sc_start (sample_scope None))
     (sc_end (sample_scope None)) = Inr [(''uuid'', 8, 26), (''free'', 34, 34)] \<and>
   (\<forall>(ty, cs, ce) \<in> set [(''uuid'', 8, 26), (''free'', 34, 34 :: int)].
      ty = ''uuid'' \<longrightarrow> cs + 16 \<le> ce)"
proof (rule scan_children_equiv_iter_child_boxes)
  show "bt_handlers (sample_traversal []) = Map.empty"
    by (simp add: sample_traversal_def make_traversal_def)
  show "bt_scopes (sample_traversal []) (sample_scope None) = None"
    by (simp add: sample_traversal_def make_traversal_def)
  show "0 \<le> sc_start (sample_scope None)" by (simp add: sample_scope_def)
  show "sc_start (sample_scope None) \<le> sc_end (sample_scope None)" by (simp add: sample_scope_def)
  show "sc_end (sample_scope None) \<le> int (length (bt_buffer (sample_traversal [])))"
    by (simp add: sample_scope_def sample_traversal_def make_traversal_def sample_buffer_def)
qed

theorem scan_children_idempotent_witness:
  "\<exists>r t'. scan_children (sample_scope None) (sample_traversal [sample_handler]) = (Inr r, t') \<and>
     length r = 2 \<and> bt_world t' = [0] \<and>
     scan_children (sample_scope None) (run_scans [sample_scope (Some 1)] t') =
       (Inr r, run_scans [sample_scope (Some 1)] t')"
proof -
  let ?run = "scan_children (sample_scope None) (sample_traversal [sample_handler])"
  have v: "map_prod (map_sum id length) bt_world ?run = (Inr 2, [0])"
    by code_simp
  then obtain r t' where run: "?run = (Inr r, t')" and "length r = 2" "bt_world t' = [0]"
    by (cases ?run; cases "fst ?run") auto
  with scan_children_idempotent [OF run, of "[sample_scope (Some 1)]"] show ?thesis by blast
qed

theorem uuid_boxes_dispatched_once_witness:
  "bt_world (run_scans [sample_scope None, sample_scope (Some 1), sample_scope None]
     (sample_traversal [sample_handler])) = [0] \<and>
   distinct (bt_world (run_scans [sample_scope None, sample_scope (Some 1), sample_scope None]
     (sample_traversal [sample_handler])))"
proof -
  have t: "make_traversal sample_buffer [sample_handler] [] = Inr (sample_traversal [sample_handler])"
    by (simp add: sample_traversal_def make_traversal_def sample_handler_def)
  have h: "\<forall>h \<in> set [sample_handler].
      uh_callback h = (\<lambda>payload loc w. (None, w @ [bl_offset loc]))"
    by (simp add: sample_handler_def)
  have "bt_world (run_scans [sample_scope None, sample_scope (Some 1), sample_scope None]
     (sample_traversal [sample_handler])) = [0]"
    by code_simp
  with uuid_boxes_dispatched_once [OF t h] show ?thesis by blast
qed

end
