(* ===== verification/BoxLocate.thy ===== *)
theory BoxLocate
  imports BoxPrimitives
begin

text \<open>
  \<^verbatim>\<open>core/sensors/mp4/box_locate.py\<close>: finding a file's \<^verbatim>\<open>moov\<close> box through a byte-range fetcher, by a
  full walk over the top-level headers, by a guess at the head, by a guess at the tail, and by the
  cascade of the three. The fetcher is a parameter of every definition; what it promises is the
  locale \<open>range_source\<close>, interpreted on the fetcher that \<^verbatim>\<open>next/recipes/mp4_index/processing.py\<close>
  builds.
\<close>

section \<open>Definitions\<close>

type_synonym fetch_range = "int \<Rightarrow> int \<Rightarrow> bytes"

definition HEADER_PROBE_BYTES :: int where "HEADER_PROBE_BYTES = 16"
definition DEFAULT_INITIAL_GUESS_BYTES :: int where "DEFAULT_INITIAL_GUESS_BYTES = 8 * 1024 * 1024"
definition DEFAULT_GUESS_RETRY_MULTIPLIER :: int where "DEFAULT_GUESS_RETRY_MULTIPLIER = 4"

function full_walk :: "int \<Rightarrow> fetch_range \<Rightarrow> int \<Rightarrow> bytes res" where
  "full_walk file_size fetch position =
     (if position < file_size then
        let header = fetch position HEADER_PROBE_BYTES in
        if blen header < STANDARD_HEADER_BYTES then Inl BoxNotFoundError
        else rbind (unpack_u32 header 0) (\<lambda>size32.
          if blen header < header_bytes_needed size32 then Inl BoxNotFoundError
          else rbind (read_box_header header 0 (file_size - position)) (\<lambda>(found_type, box_size, _).
            if found_type = ''moov'' then
              if box_size \<le> blen header then Inr (py_slice header 0 box_size)
              else Inr (header @ fetch (position + blen header) (box_size - blen header))
            else if box_size \<le> 0 then Inl BoxNotFoundError
            else full_walk file_size fetch (position + box_size)))
      else Inl BoxNotFoundError)"
  by pat_completeness auto
termination
  by (relation "measure (\<lambda>(file_size, fetch, position). nat (file_size - position))") auto

declare full_walk.simps [simp del]

definition get_moov_full_walk :: "int \<Rightarrow> fetch_range \<Rightarrow> bytes res" where
  "get_moov_full_walk file_size fetch = full_walk file_size fetch 0"

function trailing_loop :: "bytes \<Rightarrow> int \<Rightarrow> int \<Rightarrow> bool res" where
  "trailing_loop tail offset remaining =
     (if remaining > 0 then
        if offset + STANDARD_HEADER_BYTES > blen tail then Inr False
        else rbind (unpack_u32 tail offset) (\<lambda>size32.
          if offset + header_bytes_needed size32 > blen tail then Inr False
          else rbind (read_box_header tail offset (blen tail)) (\<lambda>(box_type, box_size, header_len).
            if box_size < header_len \<or> box_size > remaining \<or> \<not> str_isascii box_type \<or>
               \<not> str_isprintable box_type
            then Inr False
            else trailing_loop tail (offset + box_size) (remaining - box_size)))
      else Inr True)"
  by pat_completeness auto
termination
  by (relation "measure (\<lambda>(tail, offset, remaining). nat remaining)")
    (auto dest!: read_box_header_size)

declare trailing_loop.simps [simp del]

definition trailing_bytes_are_well_formed_boxes :: "bytes \<Rightarrow> int \<Rightarrow> int \<Rightarrow> int \<Rightarrow> bool res" where
  "trailing_bytes_are_well_formed_boxes tail offset tail_start file_size =
     (let remaining = file_size - (tail_start + offset) in
      if remaining = 0 then Inr True
      else if remaining < 0 then Inr False
      else trailing_loop tail offset remaining)"

text \<open>\<^verbatim>\<open>xs.rfind(pat, 0, stop)\<close>: the last position from which \<open>pat\<close> lies before \<open>stop\<close>.\<close>

fun rfind_from :: "'a list \<Rightarrow> 'a list \<Rightarrow> nat \<Rightarrow> nat option" where
  "rfind_from pat xs 0 = (if take (length pat) xs = pat then Some 0 else None)"
| "rfind_from pat xs (Suc p) =
     (if take (length pat) (drop (Suc p) xs) = pat then Some (Suc p) else rfind_from pat xs p)"

definition py_rfind :: "'a list \<Rightarrow> 'a list \<Rightarrow> nat \<Rightarrow> nat option" where
  "py_rfind pat xs stop =
     (let stop' = min stop (length xs) in
      if stop' < length pat then None else rfind_from pat xs (stop' - length pat))"

lemma rfind_from_le: "rfind_from pat xs p = Some hit \<Longrightarrow> hit \<le> p"
  by (induction p) (auto split: if_splits)

lemma py_rfind_less: "py_rfind pat xs stop = Some hit \<Longrightarrow> pat \<noteq> [] \<Longrightarrow> hit < stop"
  by (cases pat) (auto simp: py_rfind_def Let_def dest!: rfind_from_le split: if_splits)

definition moov_tag :: bytes where
  "moov_tag = encode_ascii ''moov''"

lemma moov_tag_nonempty [simp]: "moov_tag \<noteq> []" "length moov_tag = 4"
  by (simp_all add: moov_tag_def encode_ascii_def)

function trailing_search :: "bytes \<Rightarrow> int \<Rightarrow> int \<Rightarrow> nat \<Rightarrow> (int \<times> int) option res" where
  "trailing_search tail tail_start file_size search_end =
     (case py_rfind moov_tag tail search_end of
        None \<Rightarrow> Inr None
      | Some hit \<Rightarrow>
          let header_start = int hit - 4 in
          if header_start < 0 \<or> header_start + STANDARD_HEADER_BYTES > blen tail
          then trailing_search tail tail_start file_size hit
          else rbind (unpack_u32 tail header_start) (\<lambda>sz.
            if sz < STANDARD_HEADER_BYTES then trailing_search tail tail_start file_size hit
            else rbind (trailing_bytes_are_well_formed_boxes tail (header_start + sz) tail_start file_size)
              (\<lambda>ok. if ok then Inr (Some (tail_start + header_start, tail_start + header_start + sz))
                     else trailing_search tail tail_start file_size hit)))"
  by pat_completeness auto
termination
  by (relation "measure (\<lambda>(tail, tail_start, file_size, search_end). search_end)")
    (auto dest: py_rfind_less)

declare trailing_search.simps [simp del]

definition find_trailing_moov_in_tail :: "bytes \<Rightarrow> int \<Rightarrow> int \<Rightarrow> (int \<times> int) option res" where
  "find_trailing_moov_in_tail tail tail_start file_size =
     trailing_search tail tail_start file_size (length tail)"

text \<open>The bounded loop \<^verbatim>\<open>for _ in range(2)\<close>: the first argument is the number of attempts left.\<close>

fun tail_attempts :: "nat \<Rightarrow> int \<Rightarrow> fetch_range \<Rightarrow> int \<Rightarrow> int \<Rightarrow> bytes option res" where
  "tail_attempts 0 file_size fetch tail_bytes mult = Inr None"
| "tail_attempts (Suc n) file_size fetch tail_bytes0 mult =
     (let tail_bytes = min tail_bytes0 file_size;
          tail_start = file_size - tail_bytes;
          tail = fetch tail_start tail_bytes
      in rbind (find_trailing_moov_in_tail tail tail_start file_size) (\<lambda>found.
         case found of
           Some (box_start, box_end) \<Rightarrow>
             Inr (Some (py_slice tail (box_start - tail_start) (box_end - tail_start)))
         | None \<Rightarrow>
             if tail_bytes \<ge> file_size then Inr None
             else tail_attempts n file_size fetch (tail_bytes * mult) mult))"

definition get_moov_tail_guess :: "int \<Rightarrow> fetch_range \<Rightarrow> int \<Rightarrow> int \<Rightarrow> bytes res" where
  "get_moov_tail_guess file_size fetch initial_tail_bytes retry_multiplier =
     rbind (tail_attempts 2 file_size fetch initial_tail_bytes retry_multiplier) (\<lambda>found.
     case found of Some b \<Rightarrow> Inr b | None \<Rightarrow> get_moov_full_walk file_size fetch)"

function leading_loop :: "bytes \<Rightarrow> int \<Rightarrow> (int \<times> int) option res" where
  "leading_loop head position =
     (if position + STANDARD_HEADER_BYTES \<le> blen head then
        rbind (unpack_u32 head position) (\<lambda>size32.
        if position + header_bytes_needed size32 > blen head then Inr None
        else rbind (read_box_header head position (blen head)) (\<lambda>(box_type, box_size, _).
          if box_size \<le> 0 then Inr None
          else if box_type = ''moov'' then
            if position + box_size > blen head then Inr None
            else Inr (Some (position, position + box_size))
          else leading_loop head (position + box_size)))
      else Inr None)"
  by pat_completeness auto
termination
  by (relation "measure (\<lambda>(head, position). nat (blen head - position))")
    (auto simp: header_consts)

declare leading_loop.simps [simp del]

definition find_leading_moov_in_head :: "bytes \<Rightarrow> (int \<times> int) option res" where
  "find_leading_moov_in_head head = leading_loop head 0"

fun head_attempts :: "nat \<Rightarrow> int \<Rightarrow> fetch_range \<Rightarrow> int \<Rightarrow> int \<Rightarrow> bytes option res" where
  "head_attempts 0 file_size fetch head_bytes mult = Inr None"
| "head_attempts (Suc n) file_size fetch head_bytes0 mult =
     (let head_bytes = min head_bytes0 file_size;
          head = fetch 0 head_bytes
      in rbind (find_leading_moov_in_head head) (\<lambda>found.
         case found of
           Some (box_start, box_end) \<Rightarrow> Inr (Some (py_slice head box_start box_end))
         | None \<Rightarrow>
             if head_bytes \<ge> file_size then Inr None
             else head_attempts n file_size fetch (head_bytes * mult) mult))"

definition get_moov_head_guess :: "int \<Rightarrow> fetch_range \<Rightarrow> int \<Rightarrow> int \<Rightarrow> bytes option res" where
  "get_moov_head_guess file_size fetch initial_head_bytes retry_multiplier =
     head_attempts 2 file_size fetch initial_head_bytes retry_multiplier"

definition get_moov_auto :: "int \<Rightarrow> fetch_range \<Rightarrow> bytes res" where
  "get_moov_auto file_size fetch =
     rbind (get_moov_head_guess file_size fetch DEFAULT_INITIAL_GUESS_BYTES
              DEFAULT_GUESS_RETRY_MULTIPLIER) (\<lambda>found.
     case found of
       Some b \<Rightarrow> Inr b
     | None \<Rightarrow> get_moov_tail_guess file_size fetch DEFAULT_INITIAL_GUESS_BYTES
                 DEFAULT_GUESS_RETRY_MULTIPLIER)"

text \<open>\<^verbatim>\<open>_make_fetch_range\<close>: open, seek to the offset, read \<open>length\<close> bytes (all of them when negative),
  fewer at the end of the file. The file's content is a parameter.\<close>

definition make_fetch_range :: "bytes \<Rightarrow> fetch_range" where
  "make_fetch_range content offset len =
     (let rest = drop (nat offset) content in if len < 0 then rest else take (nat len) rest)"

section \<open>What a fetcher promises\<close>

lemma decode_ascii_inverse: "str_isascii s \<Longrightarrow> decode_ascii bs = s \<Longrightarrow> bs = encode_ascii s"
proof (induction s arbitrary: bs)
  case Nil
  then show ?case by (simp add: decode_ascii_def encode_ascii_def)
next
  case (Cons c s)
  then obtain b bs' where bs: "bs = b # bs'" "decode_char b = c" "decode_ascii bs' = s"
    by (cases bs) (auto simp: decode_ascii_def)
  have c: "(of_char c :: int) < 128" "str_isascii s"
    using Cons.prems(1) by (simp_all add: str_isascii_def)
  have b128: "uint b < 128"
  proof (rule ccontr)
    assume "\<not> uint b < 128"
    with bs(2) have "c = CHR 0xFF" by (simp add: decode_char_def)
    with c(1) show False by simp
  qed
  with bs(2) have "c = char_of (uint b)" by (simp add: decode_char_def)
  then have "of_char c = b"
    using b128 uint_byte_bound [of b] of_int_of_char [of "char_of (uint b)", where 'a = byte]
    by (simp del: of_int_of_char)
  with Cons.IH [OF c(2) bs(3)] bs(1) show ?case by (simp add: encode_ascii_def)
qed

text \<open>\<open>b\<close> is a run of the file's bytes that starts with a box header of type \<^verbatim>\<open>moov\<close>.\<close>

definition moov_slice :: "bytes \<Rightarrow> bytes \<Rightarrow> bool" where
  "moov_slice content b \<longleftrightarrow>
     (\<exists>pos n. b = take n (drop pos content)) \<and> 8 \<le> length b \<and> take 4 (drop 4 b) = moov_tag"

lemma read_box_header_moov:
  assumes "read_box_header buf offset stop = Inr (''moov'', sz, hdr)" "0 \<le> offset"
  shows "take 4 (drop (nat offset + 4) buf) = moov_tag \<and> offset + 8 \<le> blen buf"
proof -
  have "decode_ascii (py_slice buf (offset + 4) (offset + 8)) = ''moov''"
    using assms(1) by (auto simp: read_box_header_def Let_def result_simps split: if_splits)
  then have t: "py_slice buf (offset + 4) (offset + 8) = moov_tag"
    unfolding moov_tag_def by (intro decode_ascii_inverse) (simp_all add: str_isascii_def)
  moreover have "py_slice buf (offset + 4) (offset + 8) = take 4 (drop (nat offset + 4) buf)"
    using assms(2) by (simp add: py_slice_nonneg nat_add_distrib)
  ultimately have t4: "take 4 (drop (nat offset + 4) buf) = moov_tag" by simp
  then have "min (length buf - (nat offset + 4)) 4 = 4"
    by (metis length_drop length_take min.commute moov_tag_nonempty(2))
  with t4 assms(2) show ?thesis by simp
qed

lemma moov_sliceI:
  assumes "b = take n (drop pos content)" "8 \<le> n" "take 4 (drop (pos + 4) content) = moov_tag"
    "pos + 8 \<le> length content"
  shows "moov_slice content b"
proof -
  have "take 4 (drop 4 b) = take 4 (drop (pos + 4) content)"
    using assms(2) by (simp add: assms(1) drop_take add.commute)
  with assms show ?thesis by (auto simp: moov_slice_def)
qed

text \<open>What the two guesses report, inside the bytes they looked at.\<close>

lemma leading_loop_Some:
  "leading_loop head p = Inr (Some (a, b)) \<Longrightarrow> 0 \<le> p \<Longrightarrow>
   p \<le> a \<and> a + 8 \<le> b \<and> b \<le> blen head \<and> take 4 (drop (nat a + 4) head) = moov_tag"
proof (induction head p rule: leading_loop.induct)
  case (1 head p)
  from "1.prems"(1) obtain size32 t sz hdr where p: "p + 8 \<le> blen head"
    and u: "unpack_u32 head p = Inr size32" "\<not> p + header_bytes_needed size32 > blen head"
    and r: "read_box_header head p (blen head) = Inr (t, sz, hdr)" and sz: "0 < sz"
    and q: "if t = ''moov'' then p + sz \<le> blen head \<and> a = p \<and> b = p + sz
            else leading_loop head (p + sz) = Inr (Some (a, b))"
    by (subst (asm) leading_loop.simps)
      (auto simp: result_simps header_consts not_le not_less split: if_splits)
  show ?case
  proof (cases "t = ''moov''")
    case True
    with r have r': "read_box_header head p (blen head) = Inr (''moov'', sz, hdr)" by simp
    from read_box_header_moov [OF r' "1.prems"(2)] read_box_header_pos [OF r'] p q True
    show ?thesis by auto
  next
    case False
    with q have "leading_loop head (p + sz) = Inr (Some (a, b))" by simp
    then have "p + sz \<le> a \<and> a + 8 \<le> b \<and> b \<le> blen head \<and>
        take 4 (drop (nat a + 4) head) = moov_tag"
      using "1.IH" [OF _ u r refl refl _ False] p sz "1.prems"(2)
      by (simp add: header_consts)
    with sz show ?thesis by auto
  qed
qed

lemma rfind_from_Some: "rfind_from pat xs p = Some hit \<Longrightarrow> take (length pat) (drop hit xs) = pat"
  by (induction p) (auto split: if_splits)

lemma py_rfind_Some:
  "py_rfind pat xs stop = Some hit \<Longrightarrow> take (length pat) (drop hit xs) = pat"
  by (auto simp: py_rfind_def Let_def dest: rfind_from_Some split: if_splits)

lemma trailing_search_Some:
  "trailing_search tail ts fs n = Inr (Some (a, b)) \<Longrightarrow>
   ts \<le> a \<and> a + 8 \<le> b \<and> b \<le> fs \<and> take 4 (drop (nat (a - ts) + 4) tail) = moov_tag"
proof (induction n rule: less_induct)
  case (less n)
  from less.prems obtain hit where hit: "py_rfind moov_tag tail n = Some hit"
    by (subst (asm) trailing_search.simps) (auto split: option.splits)
  let ?hs = "int hit - 4"
  consider (again) "trailing_search tail ts fs hit = Inr (Some (a, b))"
    | (found) sz where "0 \<le> ?hs" "8 \<le> sz" "a = ts + ?hs" "b = ts + ?hs + sz"
      "trailing_bytes_are_well_formed_boxes tail (?hs + sz) ts fs = Inr True"
    using less.prems hit
    by (subst (asm) trailing_search.simps)
      (auto simp: Let_def result_simps header_consts split: if_splits)
  then show ?case
  proof cases
    case again
    then show ?thesis using less.IH py_rfind_less [OF hit] by simp
  next
    case (found sz)
    from found(5) have "ts + ?hs + sz \<le> fs"
      by (auto simp: trailing_bytes_are_well_formed_boxes_def Let_def split: if_splits)
    with found py_rfind_Some [OF hit] show ?thesis by (auto simp: nat_diff_distrib')
  qed
qed

section \<open>Walking a file of well-formed boxes\<close>

declare write_box.simps [simp del] box_ok.simps [simp del]

text \<open>One turn of the head walk over the first \<open>n\<close> bytes, in terms of the whole buffer.\<close>

lemma leading_loop_read:
  assumes "blen (take n buf) = int n" "n \<le> length buf" "0 \<le> pos" "blen buf < 2 ^ 63"
    and "unpack_u32 buf pos = Inr s32" "s32 \<noteq> 0" "header_bytes_needed s32 = hb"
    and "read_box_header buf pos (int n) = Inr (t, sz, hdr)"
  shows "leading_loop (take n buf) pos =
    (if pos + hb > int n \<or> sz \<le> 0 then Inr None
     else if t = ''moov'' then Inr (if pos + sz \<le> int n then Some (pos, pos + sz) else None)
     else leading_loop (take n buf) (pos + sz))"
proof -
  have hb: "hb \<in> {8, 16}"
    using assms(7) by (auto simp: header_bytes_needed_def header_consts)
  have u: "unpack_u32 (take n buf) pos = Inr s32" if "pos + 8 \<le> int n"
  proof -
    have "4 \<le> n - nat pos" using that assms(3) by linarith
    with assms that show ?thesis by (simp add: unpack_uint_in drop_take min_def)
  qed
  have r: "read_box_header (take n buf) pos (int n) = Inr (t, sz, hdr)" if "\<not> pos + hb > int n"
    using read_box_header_prefix [OF assms(3,5,6), of n "int n" "int n"] assms that by simp
  show ?thesis
    using hb u r assms(1,7) by (subst leading_loop.simps) (auto simp: header_consts not_less)
qed

text \<open>The head walk over the first \<open>n\<close> bytes of a file of well-formed boxes: the \<^verbatim>\<open>moov\<close> when
  it is buffered whole, and otherwise no answer.\<close>

lemma leading_loop_well_formed:
  assumes "content = pre @ concat (map write_box bs) @ write_box (ext, ''moov'', p) @ post"
    and "\<forall>b \<in> set bs. box_ok b \<and> fst (snd b) \<noteq> ''moov''" "box_ok (ext, ''moov'', p)"
    and "blen content < 2 ^ 63" "pos = blen pre" "n \<le> length content"
    and "ms = pos + blen (concat (map write_box bs))" "me = ms + blen (write_box (ext, ''moov'', p))"
  shows "leading_loop (take n content) pos = Inr (if me \<le> int n then Some (ms, me) else None)"
  using assms
proof (induction bs arbitrary: pre pos)
  case Nil
  have buf: "content = pre @ write_box (ext, ''moov'', p) @ post" using Nil.prems(1) by simp
  have lw: "blen (write_box (ext, ''moov'', p)) = header_bytes_of ext + blen p"
    by (rule length_write_box) simp
  obtain s32 where u: "unpack_u32 content pos = Inr s32" "s32 \<noteq> 0"
      "header_bytes_needed s32 = header_bytes_of ext"
    using probe_write_box [OF Nil.prems(3) buf Nil.prems(4,5)] by blast
  have r: "read_box_header content pos (int n) =
      Inr (''moov'', header_bytes_of ext + blen p, header_bytes_of ext)"
    by (rule read_box_header_write_box [OF Nil.prems(3) buf Nil.prems(4,5)])
  have n: "blen (take n content) = int n" using Nil.prems(6) by simp
  have m: "ms = pos" "me = pos + (header_bytes_of ext + blen p)" using Nil.prems(7,8) lw by simp_all
  show ?case
    using leading_loop_read [OF n Nil.prems(6) _ Nil.prems(4) u r] Nil.prems(5)
    by (simp add: m header_bytes_of_def split: if_splits)
next
  case (Cons b bs)
  obtain e t q where b: "b = (e, t, q)" by (cases b)
  let ?post = "concat (map write_box bs) @ write_box (ext, ''moov'', p) @ post"
  have buf: "content = pre @ write_box (e, t, q) @ ?post" using Cons.prems(1) by (simp add: b)
  have ok: "box_ok (e, t, q)" "t \<noteq> ''moov''" using Cons.prems(2) b by auto
  then have lw: "blen (write_box (e, t, q)) = header_bytes_of e + blen q"
    by (intro length_write_box) (simp add: box_ok.simps)
  obtain s32 where u: "unpack_u32 content pos = Inr s32" "s32 \<noteq> 0"
      "header_bytes_needed s32 = header_bytes_of e"
    using probe_write_box [OF ok(1) buf Cons.prems(4,5)] by blast
  have r: "read_box_header content pos (int n) =
      Inr (t, header_bytes_of e + blen q, header_bytes_of e)"
    by (rule read_box_header_write_box [OF ok(1) buf Cons.prems(4,5)])
  have n: "blen (take n content) = int n" using Cons.prems(6) by simp
  have IH: "leading_loop (take n content) (pos + (header_bytes_of e + blen q)) =
      Inr (if me \<le> int n then Some (ms, me) else None)"
    by (rule Cons.IH [of "pre @ write_box (e, t, q)"])
      (use Cons.prems lw buf b in simp_all)
  have "pos + (header_bytes_of e + blen q) \<le> ms" "ms \<le> me"
    using Cons.prems(7,8) lw by (simp_all add: b)
  with IH leading_loop_read [OF n Cons.prems(6) _ Cons.prems(4) u r] ok(2) Cons.prems(5)
  show ?case by (auto simp: header_bytes_of_def split: if_splits)
qed

locale range_source =
  fixes fetch :: fetch_range and content :: bytes
  assumes fetch_slice:
    "0 \<le> off \<Longrightarrow> 0 \<le> len \<Longrightarrow> fetch off len = take (nat len) (drop (nat off) content)"
begin

lemma fetch_within:
  "0 \<le> off \<Longrightarrow> 0 \<le> len \<Longrightarrow> off + len \<le> blen content \<Longrightarrow> length (fetch off len) = nat len"
  by (simp add: fetch_slice nat_le_iff)

lemma fetch_length_le: "0 \<le> off \<Longrightarrow> 0 \<le> len \<Longrightarrow> blen (fetch off len) \<le> len"
  by (simp add: fetch_slice)

text \<open>A slice of a fetched range is a slice of the file.\<close>

lemma slice_of_fetch:
  "0 \<le> off \<Longrightarrow> 0 \<le> len \<Longrightarrow> 0 \<le> i \<Longrightarrow> i \<le> j \<Longrightarrow>
   py_slice (fetch off len) i j =
     take (nat (min j len - i)) (drop (nat (off + i)) content)"
  by (auto simp: fetch_slice py_slice_nonneg drop_take nat_add_distrib min_def add.commute
      nat_diff_distrib')

lemma fetch_extend:
  assumes "0 \<le> off" "0 \<le> len" "len' = blen (fetch off len)" "len' \<le> n"
  shows "fetch off len @ fetch (off + len') (n - len') = take (nat n) (drop (nat off) content)"
proof -
  have "fetch off len = take (nat len') (drop (nat off) content)"
    using assms(1-3) by (simp add: fetch_slice min_def)
  moreover have "fetch (off + len') (n - len') =
      take (nat n - nat len') (drop (nat off + nat len') content)"
    using assms by (simp add: fetch_slice nat_add_distrib nat_diff_distrib')
  moreover have "nat len' \<le> nat n" using assms(4) by simp
  ultimately show ?thesis by (metis le_add_diff_inverse take_drop_append)
qed

lemma full_walk_step_moov:
  assumes pos: "0 \<le> pos" and h: "header = fetch pos HEADER_PROBE_BYTES" "8 \<le> blen header"
    and r: "read_box_header header 0 (blen content - pos) = Inr (''moov'', sz, hdr)"
    and b: "b = (if sz \<le> blen header then py_slice header 0 sz
                 else header @ fetch (pos + blen header) (sz - blen header))"
  shows "moov_slice content b"
proof (rule moov_sliceI)
  have head: "header = take 16 (drop (nat pos) content)"
    using pos by (simp add: h(1) fetch_slice HEADER_PROBE_BYTES_def)
  with h(2) have len: "nat pos + 8 \<le> length content" by simp
  then show "nat pos + 8 \<le> length content" .
  show "8 \<le> nat sz"
    using read_box_header_size [OF r] len by auto
  show "take 4 (drop (nat pos + 4) content) = moov_tag"
    using read_box_header_moov [OF r] by (simp add: head drop_take add.commute)
  show "b = take (nat sz) (drop (nat pos) content)"
  proof (cases "sz \<le> blen header")
    case True
    moreover from this head have "nat sz \<le> 16" by simp
    ultimately show ?thesis using \<open>8 \<le> nat sz\<close> by (simp add: b py_slice_nonneg head min_def)
  next
    case False
    with pos show ?thesis using fetch_extend [of pos HEADER_PROBE_BYTES "blen header" sz]
      by (simp add: b h(1) HEADER_PROBE_BYTES_def)
  qed
qed

lemma full_walk_moov_slice:
  "full_walk (blen content) fetch pos = Inr b \<Longrightarrow> 0 \<le> pos \<Longrightarrow> moov_slice content b"
proof (induction "nat (blen content - pos)" arbitrary: pos rule: less_induct)
  case less
  let ?h = "fetch pos HEADER_PROBE_BYTES"
  from less.prems(1) obtain t sz hdr where pos: "pos < blen content" "8 \<le> blen ?h"
    and r: "read_box_header ?h 0 (blen content - pos) = Inr (t, sz, hdr)"
    and b: "if t = ''moov''
       then b = (if sz \<le> blen ?h then py_slice ?h 0 sz
                 else ?h @ fetch (pos + blen ?h) (sz - blen ?h))
       else \<not> sz \<le> 0 \<and> full_walk (blen content) fetch (pos + sz) = Inr b"
    by (subst (asm) full_walk.simps)
      (auto simp: Let_def result_simps header_consts split: if_splits)
  show ?case
  proof (cases "t = ''moov''")
    case True
    with b r have "read_box_header ?h 0 (blen content - pos) = Inr (''moov'', sz, hdr)"
      "b = (if sz \<le> blen ?h then py_slice ?h 0 sz
            else ?h @ fetch (pos + blen ?h) (sz - blen ?h))"
      by simp_all
    then show ?thesis using full_walk_step_moov less.prems(2) pos(2) by blast
  next
    case False
    with b have "0 < sz" "full_walk (blen content) fetch (pos + sz) = Inr b" by auto
    with less.prems(2) pos(1) show ?thesis by (intro less.hyps [of "pos + sz"]) auto
  qed
qed

lemma head_attempts_moov_slice:
  "head_attempts n (blen content) fetch initial mult = Inr (Some b) \<Longrightarrow> 0 \<le> initial \<Longrightarrow> 0 \<le> mult \<Longrightarrow>
   moov_slice content b"
proof (induction n arbitrary: initial)
  case 0
  then show ?case by simp
next
  case (Suc n)
  let ?hb = "min initial (blen content)"
  have hb: "0 \<le> ?hb" "?hb \<le> blen content" using Suc.prems(2) by auto
  from Suc.prems(1) consider (again) "head_attempts n (blen content) fetch (?hb * mult) mult = Inr (Some b)"
    | (found) s e where "find_leading_moov_in_head (fetch 0 ?hb) = Inr (Some (s, e))"
      "b = py_slice (fetch 0 ?hb) s e"
    by (auto simp: Let_def result_simps split: option.splits if_splits)
  then show ?case
  proof cases
    case again
    show ?thesis by (rule Suc.IH [OF again]) (use Suc.prems hb in auto)
  next
    case (found s e)
    have f: "0 \<le> s" "s + 8 \<le> e" "e \<le> blen (fetch 0 ?hb)"
      "take 4 (drop (nat s + 4) (fetch 0 ?hb)) = moov_tag"
      using leading_loop_Some [OF found(1) [unfolded find_leading_moov_in_head_def]] by auto
    have len: "blen (fetch 0 ?hb) = ?hb" using fetch_within [of 0 ?hb] hb by simp
    have content: "fetch 0 ?hb = take (nat ?hb) content" using hb fetch_slice [of 0 ?hb] by simp
    show ?thesis
    proof (rule moov_sliceI)
      show "b = take (nat (e - s)) (drop (nat s) content)"
        using f len hb by (simp add: found(2) slice_of_fetch)
      show "8 \<le> nat (e - s)" using f by simp
      show "nat s + 8 \<le> length content" using f len hb by linarith
      show "take 4 (drop (nat s + 4) content) = moov_tag"
        using f(4) take_drop_window [of 4 "nat s + 4" "nat ?hb" 0 content] by (simp add: content)
    qed
  qed
qed

lemmas head_guess_moov_slice = head_attempts_moov_slice [of 2, folded get_moov_head_guess_def]

lemma tail_attempts_moov_slice:
  "tail_attempts n (blen content) fetch initial mult = Inr (Some b) \<Longrightarrow> 0 \<le> initial \<Longrightarrow> 0 \<le> mult \<Longrightarrow>
   moov_slice content b"
proof (induction n arbitrary: initial)
  case 0
  then show ?case by simp
next
  case (Suc n)
  let ?tb = "min initial (blen content)"
  let ?ts = "blen content - ?tb"
  have tb: "0 \<le> ?tb" "?tb \<le> blen content" using Suc.prems(2) by auto
  from Suc.prems(1) consider (again) "tail_attempts n (blen content) fetch (?tb * mult) mult = Inr (Some b)"
    | (found) s e where "find_trailing_moov_in_tail (fetch ?ts ?tb) ?ts (blen content) = Inr (Some (s, e))"
      "b = py_slice (fetch ?ts ?tb) (s - ?ts) (e - ?ts)"
    by (auto simp: Let_def result_simps split: option.splits if_splits)
  then show ?case
  proof cases
    case again
    show ?thesis by (rule Suc.IH [OF again]) (use Suc.prems tb in auto)
  next
    case (found s e)
    have f: "?ts \<le> s" "s + 8 \<le> e" "e \<le> blen content"
      "take 4 (drop (nat (s - ?ts) + 4) (fetch ?ts ?tb)) = moov_tag"
      using trailing_search_Some [OF found(1) [unfolded find_trailing_moov_in_tail_def]] by auto
    show ?thesis
    proof (rule moov_sliceI)
      have eq: "min (e - ?ts) ?tb - (s - ?ts) = e - s" "?ts + (s - ?ts) = s"
        using f(3) tb by linarith+
      have "b = take (nat (min (e - ?ts) ?tb - (s - ?ts))) (drop (nat (?ts + (s - ?ts))) content)"
        unfolding found(2) by (rule slice_of_fetch) (use f tb in linarith)+
      then show "b = take (nat (e - s)) (drop (nat s) content)" by (simp only: eq)
      show "8 \<le> nat (e - s)" using f by simp
      show "nat s + 8 \<le> length content" using f tb by linarith
      show "take 4 (drop (nat s + 4) content) = moov_tag"
        using f take_drop_window [of 4 "nat (s - ?ts) + 4" "nat ?tb" "nat ?ts" content]
          fetch_slice [of ?ts ?tb] tb by (simp add: nat_diff_distrib' add.assoc [symmetric])
    qed
  qed
qed

lemma tail_guess_moov_slice:
  assumes "get_moov_tail_guess (blen content) fetch initial mult = Inr b" "0 \<le> initial" "0 \<le> mult"
  shows "moov_slice content b"
  using assms tail_attempts_moov_slice full_walk_moov_slice [of 0 b]
  by (auto simp: get_moov_tail_guess_def get_moov_full_walk_def result_simps split: option.splits)

text \<open>One turn of the full walk, in terms of the file.\<close>

lemma full_walk_read:
  assumes pos: "0 \<le> pos" and len: "blen content < 2 ^ 63"
    and u: "unpack_u32 content pos = Inr s32" "pos + header_bytes_needed s32 \<le> blen content"
    and r: "read_box_header content pos (blen content) = Inr (t, sz, hdr)"
  shows "full_walk (blen content) fetch pos =
    (if t = ''moov'' then Inr (take (nat sz) (drop (nat pos) content))
     else if sz \<le> 0 then Inl BoxNotFoundError
     else full_walk (blen content) fetch (pos + sz))"
proof -
  let ?h = "fetch pos HEADER_PROBE_BYTES"
  have h: "?h = take 16 (drop (nat pos) content)"
    using pos by (simp add: fetch_slice HEADER_PROBE_BYTES_def)
  have need: "header_bytes_needed s32 \<in> {8, 16}"
    by (simp add: header_bytes_needed_def header_consts)
  then have p8: "pos + 8 \<le> blen content" using u(2) by auto
  have "unpack_u32 ?h 0 = Inr s32"
    using unpack_window_at [of pos 0 4 16 content] pos len p8 u(1)
    by (simp add: h unpack_uint_def)
  moreover have "read_box_header ?h 0 (blen content - pos) = Inr (t, sz, hdr)"
    using read_box_header_window [of pos content "blen content"] pos len p8 r by (simp add: h)
  moreover have "header_bytes_needed s32 \<le> blen ?h" "8 \<le> blen ?h"
    using need u(2) pos by (auto simp: h)
  moreover have "?h @ fetch (pos + blen ?h) (sz - blen ?h) = take (nat sz) (drop (nat pos) content)"
    if "blen ?h \<le> sz"
    using fetch_extend [of pos HEADER_PROBE_BYTES "blen ?h" sz] that pos
    by (simp add: HEADER_PROBE_BYTES_def)
  moreover have "py_slice ?h 0 sz = take (nat sz) (drop (nat pos) content)"
    if "sz \<le> blen ?h" "t = ''moov''"
  proof -
    have "0 \<le> sz" using read_box_header_size [OF r] p8 by auto
    moreover from that(1) have "nat sz \<le> 16" by (simp add: h)
    ultimately show ?thesis by (simp add: py_slice_nonneg h min_def)
  qed
  ultimately show ?thesis
    using p8 by (subst full_walk.simps) (simp add: Let_def header_consts)
qed

lemma full_walk_well_formed:
  assumes "content = pre @ concat (map write_box bs) @ write_box (ext, ''moov'', p) @ post"
    and "\<forall>b \<in> set bs. box_ok b \<and> fst (snd b) \<noteq> ''moov''" "box_ok (ext, ''moov'', p)"
    and "blen content < 2 ^ 63" "pos = blen pre"
  shows "full_walk (blen content) fetch pos = Inr (write_box (ext, ''moov'', p))"
  using assms
proof (induction bs arbitrary: pre pos)
  case Nil
  have buf: "content = pre @ write_box (ext, ''moov'', p) @ post" using Nil.prems(1) by simp
  have lw: "blen (write_box (ext, ''moov'', p)) = header_bytes_of ext + blen p"
    by (rule length_write_box) simp
  obtain s32 where u: "unpack_u32 content pos = Inr s32" "header_bytes_needed s32 = header_bytes_of ext"
    using probe_write_box [OF Nil.prems(3) buf Nil.prems(4,5)] by blast
  have r: "read_box_header content pos (blen content) =
      Inr (''moov'', header_bytes_of ext + blen p, header_bytes_of ext)"
    by (rule read_box_header_write_box [OF Nil.prems(3) buf Nil.prems(4,5)])
  have "pos + header_bytes_needed s32 \<le> blen content"
    using lw u(2) Nil.prems(5) by (simp add: buf)
  from full_walk_read [OF _ Nil.prems(4) u(1) this r]
  have "full_walk (blen content) fetch pos =
      Inr (take (nat (header_bytes_of ext + blen p)) (drop (nat pos) content))"
    using Nil.prems(5) by simp
  also have "take (nat (header_bytes_of ext + blen p)) (drop (nat pos) content) =
      write_box (ext, ''moov'', p)"
    unfolding buf Nil.prems(5) lw [symmetric] by simp
  finally show ?case .
next
  case (Cons b bs)
  obtain e t q where b: "b = (e, t, q)" by (cases b)
  let ?post = "concat (map write_box bs) @ write_box (ext, ''moov'', p) @ post"
  have buf: "content = pre @ write_box (e, t, q) @ ?post" using Cons.prems(1) by (simp add: b)
  have ok: "box_ok (e, t, q)" "t \<noteq> ''moov''" using Cons.prems(2) b by auto
  then have lw: "blen (write_box (e, t, q)) = header_bytes_of e + blen q"
    by (intro length_write_box) (simp add: box_ok.simps)
  obtain s32 where u: "unpack_u32 content pos = Inr s32" "header_bytes_needed s32 = header_bytes_of e"
    using probe_write_box [OF ok(1) buf Cons.prems(4,5)] by blast
  have r: "read_box_header content pos (blen content) =
      Inr (t, header_bytes_of e + blen q, header_bytes_of e)"
    by (rule read_box_header_write_box [OF ok(1) buf Cons.prems(4,5)])
  have "pos + header_bytes_needed s32 \<le> blen content"
    using lw u(2) Cons.prems(5) by (simp add: buf)
  from full_walk_read [OF _ Cons.prems(4) u(1) this r]
  have "full_walk (blen content) fetch pos =
      full_walk (blen content) fetch (pos + (header_bytes_of e + blen q))"
    using Cons.prems(5) ok(2) by (simp add: header_bytes_of_def)
  also have "\<dots> = Inr (write_box (ext, ''moov'', p))"
    using Cons.prems lw buf
    by (intro Cons.IH [of "pre @ write_box (e, t, q)"]) simp_all
  finally show ?case .
qed

lemma head_attempts_well_formed:
  assumes "content = concat (map write_box bs) @ write_box (ext, ''moov'', p) @ post"
    and "\<forall>b \<in> set bs. box_ok b \<and> fst (snd b) \<noteq> ''moov''" "box_ok (ext, ''moov'', p)"
    and "blen content < 2 ^ 63" "0 \<le> initial"
    and "me = blen (concat (map write_box bs)) + blen (write_box (ext, ''moov'', p))"
  shows "head_attempts (Suc k) (blen content) fetch initial mult =
    (if me \<le> initial then Inr (Some (write_box (ext, ''moov'', p)))
     else if blen content \<le> initial then Inr None
     else head_attempts k (blen content) fetch (initial * mult) mult)"
proof -
  let ?hb = "min initial (blen content)" and ?ms = "blen (concat (map write_box bs))"
  have hb: "0 \<le> ?hb" "nat ?hb \<le> length content" using assms(5) by auto
  have head: "fetch 0 ?hb = take (nat ?hb) content" using fetch_slice [of 0 ?hb] hb(1) by simp
  have me: "me \<le> blen content" by (simp add: assms(1,6))
  have "leading_loop (take (nat ?hb) content) 0 =
      Inr (if me \<le> int (nat ?hb) then Some (?ms, me) else None)"
    by (rule leading_loop_well_formed [where pre = "[]" and bs = bs and ext = ext and p = p and post = post])
      (use assms hb in simp_all)
  then have f: "find_leading_moov_in_head (fetch 0 ?hb) =
      Inr (if me \<le> initial then Some (?ms, me) else None)"
    using hb(1) me by (simp add: find_leading_moov_in_head_def head)
  have "py_slice (fetch 0 ?hb) ?ms me = take (nat (me - ?ms)) (drop (nat ?ms) content)"
    if "me \<le> initial"
  proof -
    have "min me ?hb = me" using that me by simp
    with slice_of_fetch [of 0 ?hb ?ms me] hb(1) assms(6) show ?thesis
      by simp
  qed
  then have "py_slice (fetch 0 ?hb) ?ms me = write_box (ext, ''moov'', p)" if "me \<le> initial"
    using that by (simp add: assms(1,6))
  with f show ?thesis
    using me by (auto simp: Let_def min_def)
qed

lemma head_guess_well_formed:
  assumes "content = concat (map write_box bs) @ write_box (ext, ''moov'', p) @ post"
    and "\<forall>b \<in> set bs. box_ok b \<and> fst (snd b) \<noteq> ''moov''" "box_ok (ext, ''moov'', p)"
    and "blen content < 2 ^ 63" "0 \<le> initial" "0 \<le> mult"
    and "me = blen (concat (map write_box bs)) + blen (write_box (ext, ''moov'', p))"
  shows "get_moov_head_guess (blen content) fetch initial mult =
    Inr (if me \<le> initial \<or> me \<le> initial * mult then Some (write_box (ext, ''moov'', p)) else None)"
proof -
  have "me \<le> blen content" by (simp add: assms(1,7))
  moreover have "initial * mult \<ge> 0" using assms(5,6) by simp
  ultimately show ?thesis
    using head_attempts_well_formed [OF assms(1-4) assms(5) assms(7)]
      head_attempts_well_formed [OF assms(1-4) _ assms(7), of "initial * mult"]
    by (simp add: get_moov_head_guess_def numeral_2_eq_2 del: head_attempts.simps(2))
qed

lemma auto_moov_slice:
  assumes "get_moov_auto (blen content) fetch = Inr b"
  shows "moov_slice content b"
  using assms head_guess_moov_slice tail_guess_moov_slice
  by (auto simp: get_moov_auto_def result_simps DEFAULT_INITIAL_GUESS_BYTES_def
      DEFAULT_GUESS_RETRY_MULTIPLIER_def split: option.splits)

end

interpretation mfr: range_source "make_fetch_range content" content for content
  by unfold_locales (simp add: make_fetch_range_def)

section \<open>Properties\<close>

text \<open>Whatever the file holds, when the head-tail-walk cascade returns bytes, they are a run of
  the file's own bytes of at least a header's length whose type field reads \<^verbatim>\<open>moov\<close>.\<close>

theorem moov_auto_returns_file_bytes:
  assumes "get_moov_auto (blen content) (make_fetch_range content) = Inr b"
  shows "(\<exists>pos n. b = take n (drop pos content)) \<and> 8 \<le> length b \<and>
         decode_ascii (take 4 (drop 4 b)) = ''moov''"
  using mfr.auto_moov_slice [OF assms]
  by (auto simp: moov_slice_def moov_tag_def decode_encode_ascii str_isascii_def)

definition sample_file :: bytes where
  "sample_file = write_box (False, ''ftyp'', [1, 2]) @ write_box (False, ''moov'', [3]) @
     write_box (True, ''mdat'', [4, 5, 6])"

theorem moov_auto_returns_file_bytes_witness:
  "get_moov_auto (blen sample_file) (make_fetch_range sample_file) =
     Inr (write_box (False, ''moov'', [3])) \<and>
   (\<exists>pos n. write_box (False, ''moov'', [3]) = take n (drop pos sample_file)) \<and>
   8 \<le> length (write_box (False, ''moov'', [3])) \<and>
   decode_ascii (take 4 (drop 4 (write_box (False, ''moov'', [3])))) = ''moov''"
proof -
  have h: "get_moov_auto (blen sample_file) (make_fetch_range sample_file) =
      Inr (write_box (False, ''moov'', [3]))"
    by code_simp
  with moov_auto_returns_file_bytes [OF h] show ?thesis by blast
qed

text \<open>C32: On a file of well-formed top-level boxes whose first \<^verbatim>\<open>moov\<close> follows the boxes \<open>bs\<close>, whatever comes
  after it, the full walk returns exactly that box; the head guess returns the same bytes when one of its two windows
  holds them whole and is inconclusive otherwise: it never returns anything else and never raises; and the cascade
  returns exactly that box when its head windows reach the end of it.\<close>

theorem moov_guess_and_walk_exact:
  assumes "content = concat (map write_box bs) @ write_box (ext, ''moov'', p) @ post"
    and "\<forall>b \<in> set bs. box_ok b \<and> fst (snd b) \<noteq> ''moov''" "box_ok (ext, ''moov'', p)"
    and "blen content < 2 ^ 63" "0 \<le> initial" "0 \<le> mult"
    and "me = blen (concat (map write_box bs)) + blen (write_box (ext, ''moov'', p))"
  shows "get_moov_full_walk (blen content) (make_fetch_range content) =
           Inr (write_box (ext, ''moov'', p)) \<and>
         get_moov_head_guess (blen content) (make_fetch_range content) initial mult =
           Inr (if me \<le> initial \<or> me \<le> initial * mult
                then Some (write_box (ext, ''moov'', p)) else None) \<and>
         (me \<le> DEFAULT_INITIAL_GUESS_BYTES * DEFAULT_GUESS_RETRY_MULTIPLIER \<longrightarrow>
          get_moov_auto (blen content) (make_fetch_range content) = Inr (write_box (ext, ''moov'', p)))"
  using mfr.full_walk_well_formed [of content "[]" bs ext p post 0] mfr.head_guess_well_formed [OF assms] assms
    mfr.head_guess_well_formed [OF assms(1-4), of DEFAULT_INITIAL_GUESS_BYTES DEFAULT_GUESS_RETRY_MULTIPLIER me]
  by (simp add: get_moov_full_walk_def get_moov_auto_def DEFAULT_INITIAL_GUESS_BYTES_def DEFAULT_GUESS_RETRY_MULTIPLIER_def)

theorem moov_guess_and_walk_exact_witness:
  "get_moov_full_walk (blen sample_file) (make_fetch_range sample_file) =
     Inr (write_box (False, ''moov'', [3])) \<and>
   get_moov_head_guess (blen sample_file) (make_fetch_range sample_file) 10 2 = Inr (Some (write_box (False, ''moov'', [3]))) \<and>
   get_moov_auto (blen sample_file) (make_fetch_range sample_file) = Inr (write_box (False, ''moov'', [3]))"
proof -
  have layout: "sample_file = concat (map write_box [(False, ''ftyp'', [1, 2])]) @
      write_box (False, ''moov'', [3]) @ write_box (True, ''mdat'', [4, 5, 6])"
    by (simp add: sample_file_def)
  have "\<forall>b \<in> set [(False, ''ftyp'', [1, 2])]. box_ok b \<and> fst (snd b) \<noteq> ''moov''" "box_ok (False, ''moov'', [3])"
    "blen sample_file < 2 ^ 63"
    "19 = blen (concat (map write_box [(False, ''ftyp'', [1, 2])])) + blen (write_box (False, ''moov'', [3]))"
    by code_simp+
  from moov_guess_and_walk_exact [OF layout this(1-3), of 10 2 19] this(4) show ?thesis
    by (simp add: DEFAULT_INITIAL_GUESS_BYTES_def DEFAULT_GUESS_RETRY_MULTIPLIER_def)
qed

text \<open>A \<^verbatim>\<open>moov\<close> of the size-0 form runs to the end of the file, and the full walk returns it
  whole; the head guess resolves the same header against the bytes it happened to fetch, and returns
  a truncated \<^verbatim>\<open>moov\<close> for every initial window smaller than the file.\<close>

theorem head_guess_truncates_to_end_moov:
  assumes "content = be_bytes 4 0 @ encode_ascii ''moov'' @ p" "blen content < 2 ^ 63"
    and "8 \<le> initial" "initial < blen content"
  shows "get_moov_full_walk (blen content) (make_fetch_range content) = Inr content \<and>
         get_moov_head_guess (blen content) (make_fetch_range content) initial mult =
           Inr (Some (take (nat initial) content))"
proof
  have enc: "length (encode_ascii ''moov'') = 4" by simp
  have dec: "decode_ascii (encode_ascii ''moov'') = ''moov''"
    by (rule decode_encode_ascii) (simp add: str_isascii_def)
  have read: "unpack_u32 (take n content) 0 = Inr 0 \<and>
      read_box_header (take n content) 0 stop = Inr (''moov'', stop, 8)" if "8 \<le> n" for n stop
  proof -
    have t: "take n content = be_bytes 4 0 @ encode_ascii ''moov'' @ take (n - 8) p"
      using that by (simp add: assms(1) enc)
    have u: "unpack_u32 (take n content) 0 = Inr 0"
      using be_int_be_bytes [of 0 4] by (simp add: t unpack_uint_in)
    moreover have "py_slice (take n content) 4 8 = encode_ascii ''moov''"
      by (simp add: t py_slice_nonneg enc)
    ultimately show ?thesis by (simp add: read_box_header_def header_consts dec)
  qed
  have full: "take (length content) content = content" by simp
  have len: "8 \<le> length content" by (simp add: assms(1) enc)
  have "unpack_u32 content 0 = Inr 0"
    "read_box_header content 0 (blen content) = Inr (''moov'', blen content, 8)"
    using read [OF len, of "blen content"] by simp_all
  from mfr.full_walk_read [OF _ assms(2) this(1) _ this(2)] len
  show "get_moov_full_walk (blen content) (make_fetch_range content) = Inr content"
    by (simp add: get_moov_full_walk_def header_bytes_needed_def header_consts)
  let ?head = "take (nat initial) content"
  have h: "blen ?head = initial" using assms(3,4) by simp
  have "find_leading_moov_in_head ?head = Inr (Some (0, initial))"
    using read [of "nat initial" initial] assms(3,4)
    by (simp add: find_leading_moov_in_head_def leading_loop.simps h header_bytes_needed_def
        header_consts)
  then show "get_moov_head_guess (blen content) (make_fetch_range content) initial mult =
      Inr (Some ?head)"
    using assms(3,4) py_slice_all [of ?head] unfolding h
    by (simp add: get_moov_head_guess_def numeral_2_eq_2 Let_def make_fetch_range_def)
qed

theorem head_guess_truncates_to_end_moov_witness:
  "get_moov_full_walk 12 (make_fetch_range (be_bytes 4 0 @ encode_ascii ''moov'' @ [1, 2, 3, 4])) =
     Inr (be_bytes 4 0 @ encode_ascii ''moov'' @ [1, 2, 3, 4]) \<and>
   get_moov_head_guess 12 (make_fetch_range (be_bytes 4 0 @ encode_ascii ''moov'' @ [1, 2, 3, 4])) 9 4 =
     Inr (Some (be_bytes 4 0 @ encode_ascii ''moov'' @ [1]))"
  using head_guess_truncates_to_end_moov [OF refl, of "[1, 2, 3, 4]" 9 4]
  by (simp add: encode_ascii_def)

text \<open>The tail guess does not only report absence: on a file of well-formed boxes, a payload that
  reads \<^verbatim>\<open>moov\<close> and is followed by a 32-bit field between 2 and 7 makes it raise.\<close>

lemma tail_guess_raises_on_well_formed_file:
  "get_moov_tail_guess (blen (write_box (False, ''moov'', [3]) @
       write_box (False, ''mdat'', be_bytes 4 8 @ encode_ascii ''moov'' @ be_bytes 4 2 @ be_bytes 8 0)))
     (make_fetch_range (write_box (False, ''moov'', [3]) @
       write_box (False, ''mdat'', be_bytes 4 8 @ encode_ascii ''moov'' @ be_bytes 4 2 @ be_bytes 8 0)))
     100 4 = Inl MalformedBoxHeaderError"
  by code_simp

end
