(* ===== verification/MoofWalk.thy ===== *)
theory MoofWalk
  imports BoxPrimitives
begin

text \<open>
  \<^verbatim>\<open>core/sensors/mp4/moof_walk.py\<close>: the one-pass walk over a stream that yields every top-level
  \<^verbatim>\<open>moof\<close>. A stream is the list of the results of its \<^verbatim>\<open>read\<close> calls, the end of file being an empty
  result or the end of the list; a generator's run is the list of what it yields and the exception
  that ends it, if any. The lemmas show that the run does not depend on how the reads cut the file.
\<close>

section \<open>Definitions\<close>

definition consume_skip :: "bytes \<Rightarrow> int \<Rightarrow> bytes \<times> int" where
  "consume_skip fetched skip_remaining =
     (if skip_remaining = 0 then (fetched, 0)
      else let skip_now = min skip_remaining (blen fetched)
        in (py_slice fetched skip_now (blen fetched), skip_remaining - skip_now))"

type_synonym moof = "int \<times> bytes"

text \<open>The inner loop over one buffer: what it yields, and the \<open>cursor\<close> and \<open>skip_remaining\<close> it leaves
  behind or the exception it raises.\<close>

function parse_buffer :: "bytes \<Rightarrow> int \<Rightarrow> int \<Rightarrow> int \<Rightarrow> int \<Rightarrow> moof list \<times> (int \<times> int) res" where
  "parse_buffer buf buf_base file_end_in_buf skip cursor =
     (if cursor + STANDARD_HEADER_BYTES \<le> blen buf then
        case unpack_u32 buf cursor of
          Inl e \<Rightarrow> ([], Inl e)
        | Inr size32 \<Rightarrow>
            if cursor + header_bytes_needed size32 > blen buf then ([], Inr (cursor, skip))
            else case read_box_header buf cursor file_end_in_buf of
              Inl e \<Rightarrow> ([], Inl e)
            | Inr (box_type, box_size, _) \<Rightarrow>
                if box_size \<le> 0 then ([], Inr (cursor, skip))
                else if cursor + box_size > blen buf then
                  if box_type = ''moof'' then ([], Inr (cursor, skip))
                  else ([], Inr (blen buf, box_size - (blen buf - cursor)))
                else
                  let found = (if box_type = ''moof''
                        then [(buf_base + cursor, py_slice buf cursor (cursor + box_size))] else []);
                      (more, r) = parse_buffer buf buf_base file_end_in_buf skip (cursor + box_size)
                  in (found @ more, r)
      else ([], Inr (cursor, skip)))"
  by pat_completeness auto
termination
  by (relation "measure (\<lambda>(buf, base, fe, skip, cursor). nat (blen buf - cursor))")
    (auto simp: header_consts)

declare parse_buffer.simps [simp del]

type_synonym moof_run = "moof list \<times> mp4_error option"

fun walk_chunks :: "int \<Rightarrow> bytes list \<Rightarrow> bytes \<Rightarrow> int \<Rightarrow> int \<Rightarrow> moof_run" where
  "walk_chunks file_size [] leftover leftover_start skip = ([], None)"
| "walk_chunks file_size (fetched # reads) leftover leftover_start skip =
     (if fetched = [] then ([], None)
      else
        let (unskipped, skip') = consume_skip fetched skip;
            buf_base = leftover_start + (blen fetched - blen unskipped)
        in
          if unskipped = [] then walk_chunks file_size reads leftover buf_base skip'
          else
            let buf = leftover @ unskipped
            in case parse_buffer buf buf_base (file_size - buf_base) skip' 0 of
                 (found, Inl e) \<Rightarrow> (found, Some e)
               | (found, Inr (cursor, skip'')) \<Rightarrow>
                   let (more, r) = walk_chunks file_size reads (py_slice buf cursor (blen buf))
                                     (buf_base + cursor) skip''
                   in (found @ more, r))"

definition walk_moofs :: "int \<Rightarrow> bytes list \<Rightarrow> moof_run" where
  "walk_moofs file_size reads = walk_chunks file_size reads [] 0 0"

section \<open>The run on the whole file\<close>

definition moofs_from :: "int \<Rightarrow> bytes \<Rightarrow> int \<Rightarrow> moof_run" where
  "moofs_from file_size content pos =
     (case parse_buffer content 0 file_size 0 pos of
        (found, Inl e) \<Rightarrow> (found, Some e) | (found, Inr _) \<Rightarrow> (found, None))"

definition yields :: "moof list \<Rightarrow> moof_run \<Rightarrow> moof_run" where
  "yields found run = (found @ fst run, snd run)"

lemma yields_simps [simp]:
  "yields [] run = run" "yields xs (yields ys run) = yields (xs @ ys) run"
  "yields xs (ys, e) = (xs @ ys, e)"
  by (simp_all add: yields_def)

text \<open>A header that is buffered whole reads as the file has it.\<close>

lemma read_box_header_at:
  assumes "0 \<le> off" "0 \<le> i" "nat off + m \<le> length buf" "blen buf < 2 ^ 63"
    and "unpack_u32 (take m (drop (nat off) buf)) i = Inr s32"
    and "i + header_bytes_needed s32 \<le> int m"
  shows "unpack_u32 buf (off + i) = Inr s32 \<and>
     read_box_header (take m (drop (nat off) buf)) i (stop - off) = read_box_header buf (off + i) stop"
proof -
  have off: "i + 8 \<le> int m"
    using assms(6) by (simp add: header_bytes_needed_def header_consts split: if_splits)
  have lt: "off + i + 8 < 2 ^ 63" using assms off by linarith
  have u: "unpack_u32 buf (off + i) = unpack_u32 (take m (drop (nat off) buf)) i"
    using unpack_window_at [of off i 4 m buf] assms off by (simp add: unpack_uint_def)
  have p: "py_slice (take m (drop (nat off) buf)) (i + 4) (i + 8) = py_slice buf (off + i + 4) (off + i + 8)"
  proof -
    have "4 \<le> m - nat (i + 4)" using off assms(2) by linarith
    then show ?thesis
      using assms off by (simp add: py_slice_nonneg drop_take nat_add_distrib add.commute add.left_commute min_def)
  qed
  have w: "unpack_u64 (take m (drop (nat off) buf)) (i + 8) = unpack_u64 buf (off + i + 8)" if "s32 = 1"
    using unpack_window_at [of off "i + 8" 8 m buf] assms that lt
    by (simp add: unpack_uint_def header_bytes_needed_def header_consts add.assoc)
  show ?thesis
    using u p w assms(5) by (simp add: read_box_header_def header_consts Let_def)
qed

lemma moofs_from_end: "blen content < p + 8 \<Longrightarrow> moofs_from fs content p = ([], None)"
  by (simp add: moofs_from_def parse_buffer.simps header_consts)

lemma moofs_from_step:
  assumes "unpack_u32 content p = Inr s32" "p + header_bytes_needed s32 \<le> blen content"
  shows "moofs_from fs content p =
    (case read_box_header content p fs of
       Inl e \<Rightarrow> ([], Some e)
     | Inr (t, sz, _) \<Rightarrow>
         if sz \<le> 0 \<or> p + sz > blen content then ([], None)
         else yields (if t = ''moof'' then [(p, py_slice content p (p + sz))] else [])
                (moofs_from fs content (p + sz)))"
proof -
  have "p + 8 \<le> blen content"
    using assms(2) by (simp add: header_bytes_needed_def header_consts split: if_splits)
  with assms show ?thesis
    unfolding moofs_from_def
    by (subst parse_buffer.simps) (auto simp: header_consts yields_def Let_def not_less
        split: sum.splits prod.splits)
qed

text \<open>What a pass over one buffer leaves is what the whole-file run still has to do.\<close>

lemma parse_buffer_window:
  assumes "buf = take m (drop (nat base) content)" "0 \<le> base" "nat base + m \<le> length content"
    and "blen content < 2 ^ 63" "0 \<le> cursor" "cursor \<le> int m"
    and "parse_buffer buf base (fs - base) 0 cursor = (found, r)"
  shows "case r of Inl e \<Rightarrow> moofs_from fs content (base + cursor) = (found, Some e)
    | Inr (cursor', skip) \<Rightarrow> 0 \<le> cursor' \<and> cursor' \<le> int m \<and> 0 \<le> skip \<and>
        (skip \<noteq> 0 \<longrightarrow> cursor' = int m) \<and>
        (nat base + m = length content \<longrightarrow> moofs_from fs content (base + cursor' + skip) = ([], None)) \<and>
        moofs_from fs content (base + cursor) =
          yields found (moofs_from fs content (base + cursor' + skip))"
  using assms(5-7)
proof (induction "nat (int m - cursor)" arbitrary: cursor found rule: less_induct)
  case less
  have len: "blen buf = int m" using assms(1,3) by simp
  show ?case
  proof (cases "cursor + 8 \<le> int m")
    case False
    with less.prems assms(2) show ?thesis
      by (subst (asm) parse_buffer.simps) (auto simp: header_consts len intro!: moofs_from_end)
  next
    case True
    obtain s32 where s32: "unpack_u32 buf cursor = Inr s32"
      using True len assms(3,4) less.prems(1) by (auto simp: unpack_uint_in)
    show ?thesis
    proof (cases "cursor + header_bytes_needed s32 > int m")
      case True
      moreover have "moofs_from fs content (base + cursor) = ([], None)"
        if "nat base + m = length content"
      proof -
        have "unpack_u32 content (base + cursor) = Inr s32"
          using s32 that assms(1,2) less.prems(1) \<open>cursor + 8 \<le> int m\<close> assms(4)
            unpack_window_at [of base cursor 4 m content] by (simp add: unpack_uint_def)
        moreover have "base + cursor + header_bytes_needed s32 > blen content"
          using True that assms(2) by linarith
        ultimately show ?thesis by (simp add: moofs_from_def parse_buffer.simps)
      qed
      ultimately show ?thesis
        using \<open>cursor + 8 \<le> int m\<close> less.prems s32
        by (subst (asm) parse_buffer.simps) (auto simp: header_consts len)
    next
      case need: False
      have at: "unpack_u32 content (base + cursor) = Inr s32"
        "read_box_header buf cursor (fs - base) = read_box_header content (base + cursor) fs"
        using read_box_header_at [of base cursor m content s32 fs] assms less.prems(1) s32 need
        by simp_all
      have "base + cursor + header_bytes_needed s32 \<le> blen content"
        using need assms(2,3) by linarith
      note step = moofs_from_step [OF at(1) this, of fs]
      show ?thesis
      proof (cases "read_box_header content (base + cursor) fs")
        case (Inl e)
        with step at s32 need True less.prems(3) show ?thesis
          by (subst (asm) parse_buffer.simps) (auto simp: header_consts len)
      next
        case (Inr h)
        obtain t sz hdr where h: "h = (t, sz, hdr)" by (cases h)
        consider "sz \<le> 0" | "0 < sz" "cursor + sz > int m" | "0 < sz" "cursor + sz \<le> int m"
          by linarith
        then show ?thesis
        proof cases
          case 1
          with step Inr h at s32 need True less.prems show ?thesis
            by (subst (asm) parse_buffer.simps) (auto simp: header_consts len)
        next
          case 2
          have "yields [] (moofs_from fs content (base + int m + (sz - (int m - cursor)))) =
              moofs_from fs content (base + cursor)" if "t \<noteq> ''moof''"
          proof (cases "base + cursor + sz > blen content")
            case True
            then show ?thesis using step Inr h by (simp add: moofs_from_end algebra_simps)
          next
            case False
            then show ?thesis using step Inr h 2 that by (simp add: algebra_simps)
          qed
          moreover have "moofs_from fs content (base + cursor) = ([], None) \<and>
              moofs_from fs content (base + int m + (sz - (int m - cursor))) = ([], None)"
            if "nat base + m = length content"
            using step Inr h 2 that assms(2) by (simp add: moofs_from_end)
          ultimately show ?thesis
            using 2 Inr h at s32 need True less.prems
            by (subst (asm) parse_buffer.simps) (auto simp: header_consts len split: if_splits)
        next
          case 3
          let ?f = "if t = ''moof'' then [(base + cursor, py_slice buf cursor (cursor + sz))] else []"
          obtain more where more: "parse_buffer buf base (fs - base) 0 (cursor + sz) = (more, r)"
            "found = ?f @ more"
            using 3 Inr h at s32 need True less.prems(3)
            by (subst (asm) parse_buffer.simps) (auto simp: header_consts len split: prod.splits)
          have "nat (int m - (cursor + sz)) < nat (int m - cursor)" using 3 by linarith
          note IH = less.hyps [OF this _ 3(2) more(1)]
          have slice: "py_slice buf cursor (cursor + sz) =
              py_slice content (base + cursor) (base + cursor + sz)"
          proof -
            have "nat sz \<le> m - nat cursor" using 3 less.prems(1) by linarith
            with 3 less.prems(1) assms(2) show ?thesis
              by (simp add: assms(1) py_slice_nonneg drop_take nat_add_distrib add.commute min_def)
          qed
          have "base + cursor + sz \<le> blen content" using 3 assms(2,3) by linarith
          with step Inr h 3 have "moofs_from fs content (base + cursor) =
              yields ?f (moofs_from fs content (base + (cursor + sz)))"
            by (simp add: slice add.assoc)
          with IH 3 less.prems(1) more(2) show ?thesis
            by (auto simp: add.assoc split: sum.splits)
        qed
      qed
    qed
  qed
qed

section \<open>Independence of the reads\<close>

lemma consume_skip_eq:
  "0 \<le> skip \<Longrightarrow> consume_skip fetched skip = (drop (nat skip) fetched, max 0 (skip - blen fetched))"
  by (auto simp: consume_skip_def Let_def py_slice_nonneg min_def max_def)

text \<open>Between two reads, the first \<open>pos\<close> bytes have been read: either the bytes from
  \<open>leftover_start\<close> on are kept, or all are consumed and some of the bytes to come are skipped.\<close>

definition walk_state :: "bytes \<Rightarrow> nat \<Rightarrow> bytes \<Rightarrow> int \<Rightarrow> int \<Rightarrow> bool" where
  "walk_state content pos leftover ls skip \<longleftrightarrow>
     0 \<le> ls \<and> ls \<le> int pos \<and> pos \<le> length content \<and> 0 \<le> skip \<and>
     leftover = take (pos - nat ls) (drop (nat ls) content) \<and> (skip \<noteq> 0 \<longrightarrow> ls = int pos)"

lemma walk_chunks_eq_moofs_from:
  assumes "[] \<notin> set reads" "blen content < 2 ^ 63" "walk_state content pos leftover ls skip"
    and "concat reads = drop pos content"
    and "reads = [] \<Longrightarrow> moofs_from fs content (ls + skip) = ([], None)"
  shows "walk_chunks fs reads leftover ls skip = moofs_from fs content (ls + skip)"
  using assms
proof (induction reads arbitrary: pos leftover ls skip)
  case Nil
  then show ?case by simp
next
  case (Cons fetched reads)
  let ?pos = "pos + length fetched"
  from Cons.prems have f: "fetched \<noteq> []" and no: "[] \<notin> set reads" by auto
  from Cons.prems(3) have st: "0 \<le> ls" "ls \<le> int pos" "pos \<le> length content" "0 \<le> skip"
    "leftover = take (pos - nat ls) (drop (nat ls) content)" "skip \<noteq> 0 \<Longrightarrow> ls = int pos"
    by (auto simp: walk_state_def)
  have split: "drop pos content = fetched @ concat reads" using Cons.prems(4) by simp
  then have pos': "?pos \<le> length content" "concat reads = drop ?pos content"
    by (metis (no_types, lifting) length_append length_drop add_diff_inverse_nat add_le_cancel_left le_add1 linorder_not_less st(3),
        metis add.commute append_eq_conv_conj drop_drop)
  have at_end: "?pos = length content" if "reads = []" using that split st(3)
    by (metis append_Nil2 concat.simps(1) le_add_diff_inverse length_drop)
  have fetched: "fetched = take (length fetched) (drop pos content)" using split by simp
  show ?case
  proof (cases "blen fetched \<le> skip")
    case True
    with f have "skip \<noteq> 0" by auto
    with st have ls: "ls = int pos" "leftover = []" by auto
    have "walk_chunks fs (fetched # reads) leftover ls skip =
        walk_chunks fs reads [] (ls + blen fetched) (skip - blen fetched)"
      using True f ls by (simp add: consume_skip_eq)
    also have "\<dots> = moofs_from fs content (ls + blen fetched + (skip - blen fetched))"
    proof (rule Cons.IH [OF no Cons.prems(2)])
      show "walk_state content ?pos [] (ls + blen fetched) (skip - blen fetched)"
        using True ls pos' by (simp add: walk_state_def nat_add_distrib)
      show "moofs_from fs content (ls + blen fetched + (skip - blen fetched)) = ([], None)"
        if "reads = []" using at_end [OF that] True ls by (intro moofs_from_end) simp
    qed (rule pos'(2))
    finally show ?thesis by simp
  next
    case False
    let ?base = "ls + skip" and ?m = "?pos - nat (ls + skip)"
    have m: "nat ?base + ?m = ?pos" using False st by (cases "skip = 0") auto
    have buf: "leftover @ drop (nat skip) fetched = take ?m (drop (nat ?base) content)"
    proof (cases "skip = 0")
      case True
      have "leftover @ fetched = take (pos - nat ls) (drop (nat ls) content) @
          take (length fetched) (drop (nat ls + (pos - nat ls)) content)"
        using st fetched by simp
      also have "\<dots> = take ?m (drop (nat ?base) content)"
      proof -
        have "nat ls \<le> pos" using st(1,2) by linarith
        then have "pos - nat ls + length fetched = ?m" using True by simp
        with True show ?thesis unfolding take_drop_append by simp
      qed
      finally show ?thesis using True by simp
    next
      case False
      then have "leftover = []" "nat ?base = nat skip + pos" "?m = length fetched - nat skip"
        using st by (auto simp: nat_add_distrib)
      then show ?thesis by (subst fetched) (simp add: drop_take)
    qed
    obtain found r where pb: "parse_buffer (take ?m (drop (nat ?base) content)) ?base (fs - ?base) 0 0 = (found, r)"
      by (cases "parse_buffer (take ?m (drop (nat ?base) content)) ?base (fs - ?base) 0 0")
    have step: "walk_chunks fs (fetched # reads) leftover ls skip =
      (case r of Inl e \<Rightarrow> (found, Some e)
       | Inr (cursor, skip') \<Rightarrow>
           yields found (walk_chunks fs reads
             (py_slice (take ?m (drop (nat ?base) content)) cursor (int ?m)) (?base + cursor) skip'))"
    proof -
      have sk: "drop (nat skip) fetched \<noteq> []" "max 0 (skip - blen fetched) = 0"
        "blen fetched - blen (drop (nat skip) fetched) = skip"
        using False st(4) by auto
      have len: "blen (take ?m (drop (nat ?base) content)) = int ?m" using m pos' by simp
      show ?thesis
        unfolding walk_chunks.simps if_not_P [OF f] consume_skip_eq [OF st(4)] sk(2) Let_def prod.case
          sk(3) if_not_P [OF sk(1)] buf pb len yields_def
        by (auto split: sum.splits prod.splits)
    qed
    note window = parse_buffer_window [OF refl _ _ Cons.prems(2) _ _ pb]
    show ?thesis
    proof (cases r)
      case (Inl e)
      with window st m pos' step show ?thesis by simp
    next
      case (Inr cs)
      obtain cursor skip' where cs: "cs = (cursor, skip')" by (cases cs)
      have w: "0 \<le> cursor" "cursor \<le> int ?m" "0 \<le> skip'" "skip' \<noteq> 0 \<Longrightarrow> cursor = int ?m"
        "?pos = length content \<Longrightarrow> moofs_from fs content (?base + cursor + skip') = ([], None)"
        "moofs_from fs content ?base = yields found (moofs_from fs content (?base + cursor + skip'))"
        using window st m pos' Inr cs by auto
      have "walk_chunks fs reads (py_slice (take ?m (drop (nat ?base) content)) cursor (int ?m))
          (?base + cursor) skip' = moofs_from fs content (?base + cursor + skip')"
      proof (rule Cons.IH [OF no Cons.prems(2) _ pos'(2)])
        show "walk_state content ?pos (py_slice (take ?m (drop (nat ?base) content)) cursor (int ?m))
            (?base + cursor) skip'"
          unfolding walk_state_def
        proof (intro conjI impI)
          show "py_slice (take ?m (drop (nat ?base) content)) cursor (int ?m) =
              take (?pos - nat (?base + cursor)) (drop (nat (?base + cursor)) content)"
            using w st m by (simp add: py_slice_nonneg drop_take nat_add_distrib add.commute
                add.left_commute nat_diff_distrib')
        qed (use w st m pos' in auto)
        show "moofs_from fs content (?base + cursor + skip') = ([], None)" if "reads = []"
          using w(5) at_end that by simp
      qed
      with step Inr cs w(6) show ?thesis by simp
    qed
  qed
qed

lemma walk_moofs_eq_moofs_from:
  assumes "[] \<notin> set reads" "blen (concat reads) < 2 ^ 63"
  shows "walk_moofs fs reads = moofs_from fs (concat reads) 0"
proof -
  have "walk_chunks fs reads [] 0 0 = moofs_from fs (concat reads) (0 + 0)"
    by (rule walk_chunks_eq_moofs_from [OF assms, of 0])
      (simp_all add: walk_state_def moofs_from_end)
  then show ?thesis by (simp add: walk_moofs_def)
qed

text \<open>The \<^verbatim>\<open>moof\<close> boxes of a sequence of boxes laid out from offset \<open>pos\<close>.\<close>

fun moof_layout :: "int \<Rightarrow> box_spec list \<Rightarrow> moof list" where
  "moof_layout pos [] = []"
| "moof_layout pos ((ext, t, p) # bs) =
     (if t = ''moof'' then [(pos, write_box (ext, t, p))] else []) @
     moof_layout (pos + blen (write_box (ext, t, p))) bs"

lemma moofs_from_well_formed:
  assumes "content = pre @ concat (map write_box bs)" "\<forall>b \<in> set bs. box_ok b"
    and "blen content < 2 ^ 63" "pos = blen pre"
  shows "moofs_from fs content pos = (moof_layout pos bs, None)"
  using assms
proof (induction bs arbitrary: pre pos)
  case Nil
  then show ?case by (simp add: moofs_from_end)
next
  case (Cons b bs)
  obtain e t q where b: "b = (e, t, q)" by (cases b)
  let ?W = "write_box (e, t, q)"
  have buf: "content = pre @ ?W @ concat (map write_box bs)"
    using Cons.prems(1) by (simp add: b del: write_box.simps)
  have ok: "box_ok (e, t, q)" using Cons.prems(2) b by (simp del: box_ok.simps)
  then have lw: "blen ?W = header_bytes_of e + blen q" by (intro length_write_box) simp
  obtain s32 where u: "unpack_u32 content pos = Inr s32" "header_bytes_needed s32 = header_bytes_of e"
    using probe_write_box [OF ok buf Cons.prems(3,4)] by blast
  have r: "read_box_header content pos fs = Inr (t, blen ?W, header_bytes_of e)"
    unfolding lw by (rule read_box_header_write_box [OF ok buf Cons.prems(3,4)])
  have fit: "pos + header_bytes_needed s32 \<le> blen content" "pos + blen ?W \<le> blen content" "0 < blen ?W"
    using lw u(2) Cons.prems(4) by (simp_all add: buf header_bytes_of_def del: write_box.simps)
  have "py_slice content pos (pos + blen ?W) = ?W"
    using Cons.prems(4) by (simp add: buf py_slice_nonneg del: write_box.simps)
  moreover have "moofs_from fs content (pos + blen ?W) = (moof_layout (pos + blen ?W) bs, None)"
    by (rule Cons.IH [of "pre @ ?W"])
      (use Cons.prems buf in \<open>simp_all del: write_box.simps box_ok.simps\<close>)
  ultimately show ?case
    using moofs_from_step [OF u(1) fit(1), of fs] r fit(2,3)
    by (auto simp: b simp del: write_box.simps)
qed

section \<open>Properties\<close>

text \<open>C33: What the walk yields, and whether and where it raises, depends on the bytes of the stream
  only: two sequences of non-empty reads that deliver the same bytes give the same run, for any
  content, well formed or not.\<close>

theorem walk_moofs_read_independent:
  assumes "concat reads = concat reads'" "[] \<notin> set reads" "[] \<notin> set reads'"
    and "blen (concat reads) < 2 ^ 63"
  shows "walk_moofs file_size reads = walk_moofs file_size reads'"
  using walk_moofs_eq_moofs_from [of reads] walk_moofs_eq_moofs_from [of reads'] assms by simp

definition sample_stream :: bytes where
  "sample_stream = write_box (False, ''moof'', [1, 2, 3]) @ write_box (False, ''mdat'', [4, 5]) @
     be_bytes 4 0 @ encode_ascii ''moof'' @ [6, 7]"

theorem walk_moofs_read_independent_witness:
  "walk_moofs 31 [take 5 sample_stream, take 9 (drop 5 sample_stream), drop 14 sample_stream] =
     ([(0, write_box (False, ''moof'', [1, 2, 3])),
       (21, be_bytes 4 0 @ encode_ascii ''moof'' @ [6, 7])], None) \<and>
   walk_moofs 31 [take 5 sample_stream, take 9 (drop 5 sample_stream), drop 14 sample_stream] =
   walk_moofs 31 [sample_stream]"
proof -
  let ?r = "[take 5 sample_stream, take 9 (drop 5 sample_stream), drop 14 sample_stream]"
  have "concat ?r = concat [sample_stream]" by code_simp
  moreover have "[] \<notin> set ?r" by code_simp
  moreover have "[] \<notin> set [sample_stream]" by code_simp
  moreover have "blen (concat ?r) < 2 ^ 63" by code_simp
  ultimately have "walk_moofs 31 ?r = walk_moofs 31 [sample_stream]"
    by (rule walk_moofs_read_independent)
  moreover have "walk_moofs 31 ?r = ([(0, write_box (False, ''moof'', [1, 2, 3])),
       (21, be_bytes 4 0 @ encode_ascii ''moof'' @ [6, 7])], None)"
    by code_simp
  ultimately show ?thesis by simp
qed

text \<open>On a stream of well-formed boxes, however its reads are cut, the walk yields exactly the
  \<^verbatim>\<open>moof\<close> boxes, each with its start offset and its bytes verbatim, in file order, and ends without
  an exception.\<close>

theorem walk_moofs_yields_all_moofs:
  assumes "concat reads = concat (map write_box bs)" "\<forall>b \<in> set bs. box_ok b"
    and "[] \<notin> set reads" "blen (concat reads) < 2 ^ 63"
  shows "walk_moofs file_size reads = (moof_layout 0 bs, None)"
proof -
  have "walk_moofs file_size reads = moofs_from file_size (concat reads) 0"
    by (rule walk_moofs_eq_moofs_from [OF assms(3,4)])
  also have "\<dots> = (moof_layout 0 bs, None)"
    by (rule moofs_from_well_formed [where pre = "[]"]) (use assms in simp_all)
  finally show ?thesis .
qed

theorem walk_moofs_yields_all_moofs_witness:
  "walk_moofs 0 [be_bytes 4 9, encode_ascii ''moof'', 5 # be_bytes 4 8 @ encode_ascii ''free''] =
     (moof_layout 0 [(False, ''moof'', [5]), (False, ''free'', [])], None)"
proof (rule walk_moofs_yields_all_moofs)
  show "concat [be_bytes 4 9, encode_ascii ''moof'', 5 # be_bytes 4 8 @ encode_ascii ''free''] =
      concat (map write_box [(False, ''moof'', [5]), (False, ''free'', [])])"
    by code_simp
qed code_simp+

end
