(* ===== verification/MoovTrack.thy ===== *)
theory MoovTrack
  imports BoxTraversal
begin

text \<open>
  \<^verbatim>\<open>core/sensors/mp4/moov_track.py\<close>: the decoders of \<^verbatim>\<open>mvhd\<close>, \<^verbatim>\<open>tkhd\<close>, \<^verbatim>\<open>mdhd\<close> and \<^verbatim>\<open>stsd\<close>, the
  choice of the video track's scopes, and the \<^verbatim>\<open>VideoTrack\<close> record with its validator. Parsers that
  read through a \<^verbatim>\<open>BoxTraversal\<close> are traversal operations; the others are functions of the buffer.
  NumPy arrays are lists of integers.
\<close>

section \<open>Definitions\<close>

definition byte_at :: "bytes \<Rightarrow> int \<Rightarrow> int res" where
  "byte_at buf i = rbind (py_index IndexError buf i) (\<lambda>b. Inr (uint b))"

definition trak_track_id :: "bytes \<Rightarrow> int \<Rightarrow> int \<Rightarrow> int res" where
  "trak_track_id buf trak_start trak_end =
     rbind (find_box buf [''tkhd''] trak_start trak_end) (\<lambda>(tkhd_start, _).
     rbind (byte_at buf tkhd_start) (\<lambda>version.
     unpack_u32 buf (tkhd_start + (if version = 1 then 20 else 12))))"

definition video_track_scopes ::
  "bytes \<Rightarrow> box_scope \<Rightarrow> (box_scope \<times> box_scope \<times> box_scope \<times> string) res" where
  "video_track_scopes buf moov_scope =
     rbind (find_video_trak buf (sc_start moov_scope) (sc_end moov_scope))
       (\<lambda>(trak_start, trak_end, stbl_start, stbl_end, stsd_start, stsd_end, fourcc).
     rbind (trak_track_id buf trak_start trak_end) (\<lambda>track_id.
     let trak_scope = \<lparr>sc_start = trak_start, sc_end = trak_end, sc_path = sc_path moov_scope @ [''trak''],
                       sc_track_id = Some track_id, sc_fragment_index = None\<rparr>;
         stbl_scope = \<lparr>sc_start = stbl_start, sc_end = stbl_end,
                       sc_path = sc_path trak_scope @ [''mdia'', ''minf'', ''stbl''],
                       sc_track_id = Some track_id, sc_fragment_index = None\<rparr>;
         stsd_scope = \<lparr>sc_start = stsd_start, sc_end = stsd_end, sc_path = sc_path stbl_scope @ [''stsd''],
                       sc_track_id = Some track_id, sc_fragment_index = None\<rparr>
     in Inr (trak_scope, stbl_scope, stsd_scope, fourcc)))"

definition VISUAL_SAMPLE_ENTRY_FIXED_BYTES :: int where "VISUAL_SAMPLE_ENTRY_FIXED_BYTES = 86"
definition WIDTH_OFFSET_IN_ENTRY :: int where "WIDTH_OFFSET_IN_ENTRY = 32"
definition AVCC_PROFILE_BYTE :: int where "AVCC_PROFILE_BYTE = 1"
definition AVCC_CONSTRAINT_BYTE :: int where "AVCC_CONSTRAINT_BYTE = 2"
definition AVCC_LEVEL_BYTE :: int where "AVCC_LEVEL_BYTE = 3"
definition AVCC_LENGTH_SIZE_BYTE :: int where "AVCC_LENGTH_SIZE_BYTE = 4"
definition AVCC_NUM_SPS_BYTE :: int where "AVCC_NUM_SPS_BYTE = 5"
definition AVCC_SPS_ARRAY_START :: int where "AVCC_SPS_ARRAY_START = 6"
definition AVCC_HIGH_PROFILE_MIN :: int where "AVCC_HIGH_PROFILE_MIN = 100"
definition AVCC_EXTENSION_FIELD_BYTES :: int where "AVCC_EXTENSION_FIELD_BYTES = 4"
definition TKHD_FIXED_TAIL_BYTES :: int where "TKHD_FIXED_TAIL_BYTES = 16"
definition TKHD_MATRIX_BYTES :: int where "TKHD_MATRIX_BYTES = 36"

lemmas avcc_consts =
  VISUAL_SAMPLE_ENTRY_FIXED_BYTES_def WIDTH_OFFSET_IN_ENTRY_def AVCC_PROFILE_BYTE_def
  AVCC_CONSTRAINT_BYTE_def AVCC_LEVEL_BYTE_def AVCC_LENGTH_SIZE_BYTE_def AVCC_NUM_SPS_BYTE_def
  AVCC_SPS_ARRAY_START_def AVCC_HIGH_PROFILE_MIN_def AVCC_EXTENSION_FIELD_BYTES_def
  TKHD_FIXED_TAIL_BYTES_def TKHD_MATRIX_BYTES_def

fun walk_length_prefixed_entries :: "bytes \<Rightarrow> int \<Rightarrow> nat \<Rightarrow> int option res" where
  "walk_length_prefixed_entries data position 0 = Inr (Some position)"
| "walk_length_prefixed_entries data position (Suc count) =
     (if position + 2 > blen data then Inr None
      else rbind (unpack_u16 data position) (\<lambda>entry_length.
        let position' = position + (2 + entry_length) in
        if position' > blen data then Inr None
        else walk_length_prefixed_entries data position' count))"

definition avcc_extension_offset :: "bytes \<Rightarrow> int option res" where
  "avcc_extension_offset extradata =
     (if blen extradata \<le> AVCC_NUM_SPS_BYTE then Inr None
      else rbind (byte_at extradata AVCC_NUM_SPS_BYTE) (\<lambda>b.
        rbind (walk_length_prefixed_entries extradata AVCC_SPS_ARRAY_START (nat (b AND 0x1F)))
          (\<lambda>found. case found of
            None \<Rightarrow> Inr None
          | Some position \<Rightarrow>
              if position \<ge> blen extradata then Inr None
              else rbind (byte_at extradata position) (\<lambda>num_pps.
                walk_length_prefixed_entries extradata (position + 1) (nat num_pps)))))"

record stsd_box =
  sd_fourcc :: string
  sd_width :: int
  sd_height :: int
  sd_extradata :: bytes
  sd_avc_profile_idc :: "int option"
  sd_avc_constraint_flags :: "int option"
  sd_avc_level_idc :: "int option"
  sd_nal_length_size :: "int option"
  sd_chroma_format_idc :: "int option"
  sd_bit_depth_luma_minus8 :: "int option"
  sd_bit_depth_chroma_minus8 :: "int option"
  sd_buffer_size_db :: "int option"
  sd_max_bitrate_bps :: "int option"
  sd_avg_bitrate_bps :: "int option"
  sd_extension_boxes :: "(bytes \<times> bytes) list"

text \<open>The \<^verbatim>\<open>avcC\<close> fields of the last return: profile, constraint flags, level, length size, and the
  three fields of the High-profile extension.\<close>

definition avcc_fields :: "bytes \<Rightarrow>
  (int \<times> int \<times> int \<times> int option \<times> int option \<times> int option \<times> int option) res" where
  "avcc_fields extradata =
     rbind (byte_at extradata AVCC_PROFILE_BYTE) (\<lambda>avc_profile_idc.
     rbind (if blen extradata > AVCC_LENGTH_SIZE_BYTE
            then rbind (byte_at extradata AVCC_LENGTH_SIZE_BYTE) (\<lambda>b. Inr (Some ((b AND 0x03) + 1)))
            else Inr None) (\<lambda>nal_length_size.
     rbind (avcc_extension_offset extradata) (\<lambda>extension_offset.
     rbind (case extension_offset of
              None \<Rightarrow> Inr (None, None, None)
            | Some off \<Rightarrow>
                if avc_profile_idc \<ge> AVCC_HIGH_PROFILE_MIN \<and>
                   blen extradata - off \<ge> AVCC_EXTENSION_FIELD_BYTES
                then rbind (byte_at extradata off) (\<lambda>c.
                     rbind (byte_at extradata (off + 1)) (\<lambda>l.
                     rbind (byte_at extradata (off + 2)) (\<lambda>k.
                     Inr (Some (c AND 0x03), Some (l AND 0x07), Some (k AND 0x07)))))
                else Inr (None, None, None)) (\<lambda>(chroma, luma8, chroma8).
     rbind (byte_at extradata AVCC_CONSTRAINT_BYTE) (\<lambda>constraint.
     rbind (byte_at extradata AVCC_LEVEL_BYTE) (\<lambda>level.
     Inr (avc_profile_idc, constraint, level, nal_length_size, chroma, luma8, chroma8)))))))"

text \<open>\<^verbatim>\<open>try: find_bounds; unpack ">III" except BoxNotFoundError\<close>.\<close>

definition btrt_fields :: "bytes \<Rightarrow> box_scope \<Rightarrow>
  ('w, int option \<times> int option \<times> int option) traversal_op" where
  "btrt_fields buf entry_scope =
     scatch
       (sbind (find_bounds entry_scope [''btrt'']) (\<lambda>(btrt_start, _).
        sbind (slift (unpack_uints 4 3 buf btrt_start)) (\<lambda>fields.
        sreturn (Some (fields ! 0), Some (fields ! 1), Some (fields ! 2)))))
       (\<lambda>e. if e = BoxNotFoundError then sreturn (None, None, None) else sraise e)"

text \<open>\<^verbatim>\<open>try: find_bounds(entry_scope, (box_name,)) except BoxNotFoundError\<close>: the config box, if any.\<close>

definition optional_bounds :: "box_scope \<Rightarrow> string list \<Rightarrow> ('w, (int \<times> int) option) traversal_op" where
  "optional_bounds scope path =
     scatch (sbind (find_bounds scope path) (\<lambda>b. sreturn (Some b)))
       (\<lambda>e. if e = BoxNotFoundError then sreturn None else sraise e)"

definition StsdBox_parse :: "bytes \<Rightarrow> box_scope \<Rightarrow> string \<Rightarrow> ('w, stsd_box) traversal_op" where
  "StsdBox_parse buf scope fourcc =
     sbind (slift (unpack_u32 buf (sc_start scope + 4))) (\<lambda>entry_count.
     if entry_count > 1 then sraise AmbiguousSampleDescriptionError
     else
       let entry_start = sc_start scope + 8 in
       sbind (slift (unpack_u32 buf entry_start)) (\<lambda>entry_size.
       let entry_end = entry_start + entry_size in
       sbind (slift (unpack_uints 2 2 buf (entry_start + WIDTH_OFFSET_IN_ENTRY))) (\<lambda>wh.
       let config_start = entry_start + VISUAL_SAMPLE_ENTRY_FIXED_BYTES;
           entry_scope = \<lparr>sc_start = config_start, sc_end = entry_end,
                          sc_path = sc_path scope @ [fourcc], sc_track_id = sc_track_id scope,
                          sc_fragment_index = sc_fragment_index scope\<rparr> in
       sbind (btrt_fields buf entry_scope) (\<lambda>(buffer_size_db, max_bitrate_bps, avg_bitrate_bps).
       sbind (extension_boxes entry_scope) (\<lambda>stsd_extension_boxes.
       let is_avc = fourcc \<in> {''avc1'', ''avc3''};
           box_name = (if is_avc then ''avcC'' else ''hvcC'');
           bare = (\<lambda>extradata.
             \<lparr>sd_fourcc = fourcc, sd_width = wh ! 0, sd_height = wh ! 1, sd_extradata = extradata,
              sd_avc_profile_idc = None, sd_avc_constraint_flags = None, sd_avc_level_idc = None,
              sd_nal_length_size = None, sd_chroma_format_idc = None,
              sd_bit_depth_luma_minus8 = None, sd_bit_depth_chroma_minus8 = None,
              sd_buffer_size_db = buffer_size_db, sd_max_bitrate_bps = max_bitrate_bps,
              sd_avg_bitrate_bps = avg_bitrate_bps, sd_extension_boxes = stsd_extension_boxes\<rparr>) in
       sbind (optional_bounds entry_scope [box_name]) (\<lambda>config.
       case config of
         None \<Rightarrow> sreturn (bare [])
       | Some (config_content_start, config_content_end) \<Rightarrow>
           let extradata = py_slice buf config_content_start config_content_end in
           if \<not> is_avc \<or> blen extradata \<le> AVCC_LEVEL_BYTE then sreturn (bare extradata)
           else sbind (slift (avcc_fields extradata))
             (\<lambda>(profile, constraint, level, nal_length_size, chroma, luma8, chroma8).
             sreturn ((bare extradata)\<lparr>sd_avc_profile_idc := Some profile,
               sd_avc_constraint_flags := Some constraint, sd_avc_level_idc := Some level,
               sd_nal_length_size := nal_length_size, sd_chroma_format_idc := chroma,
               sd_bit_depth_luma_minus8 := luma8, sd_bit_depth_chroma_minus8 := chroma8\<rparr>))))))))"

record ctts_box =
  cb_sample_counts :: "int list"
  cb_sample_offsets :: "int list"

record movie_header =
  mv_creation_time :: int
  mv_modification_time :: int

text \<open>Creation and modification time of a version-0 or version-1 full box.\<close>

definition header_times :: "bytes \<Rightarrow> int \<Rightarrow> int \<Rightarrow> int list res" where
  "header_times buf start version =
     (if version = 1 then unpack_uints 8 2 buf (start + 4) else unpack_uints 4 2 buf (start + 4))"

definition MovieHeader_parse :: "bytes \<Rightarrow> int \<Rightarrow> int \<Rightarrow> movie_header res" where
  "MovieHeader_parse buf start stop =
     rbind (byte_at buf start) (\<lambda>version.
     rbind (header_times buf start version) (\<lambda>times.
     Inr \<lparr>mv_creation_time = times ! 0, mv_modification_time = times ! 1\<rparr>))"

record track_header =
  tk_creation_time :: int
  tk_modification_time :: int
  tk_matrix :: "int list"
  tk_width :: int
  tk_height :: int

definition TrackHeader_parse :: "bytes \<Rightarrow> int \<Rightarrow> int \<Rightarrow> track_header res" where
  "TrackHeader_parse buf start stop =
     rbind (byte_at buf start) (\<lambda>version.
     rbind (header_times buf start version) (\<lambda>times.
     let after_duration = (if version = 1 then start + 4 + 8 + 8 + 4 + 4 + 8
                           else start + 4 + 4 + 4 + 4 + 4 + 4);
         matrix_start = after_duration + TKHD_FIXED_TAIL_BYTES in
     rbind (unpack_uints 4 9 buf matrix_start) (\<lambda>matrix.
     rbind (unpack_uints 4 2 buf (matrix_start + TKHD_MATRIX_BYTES)) (\<lambda>wh.
     Inr \<lparr>tk_creation_time = times ! 0, tk_modification_time = times ! 1,
          tk_matrix = map to_i32 matrix, tk_width = wh ! 0, tk_height = wh ! 1\<rparr>))))"

record media_header =
  md_timescale :: int
  md_duration :: int

definition MediaHeader_parse :: "bytes \<Rightarrow> int \<Rightarrow> int \<Rightarrow> media_header res" where
  "MediaHeader_parse buf start stop =
     rbind (byte_at buf start) (\<lambda>version.
     if version = 1 then
       rbind (unpack_u32 buf (start + 4 + 8 + 8)) (\<lambda>timescale.
       rbind (unpack_u64 buf (start + 4 + 8 + 8 + 4)) (\<lambda>duration.
       Inr \<lparr>md_timescale = timescale, md_duration = duration\<rparr>))
     else
       rbind (unpack_u32 buf (start + 4 + 4 + 4)) (\<lambda>timescale.
       rbind (unpack_u32 buf (start + 4 + 4 + 4 + 4)) (\<lambda>duration.
       Inr \<lparr>md_timescale = timescale, md_duration = duration\<rparr>)))"

record video_track =
  vt_timescale :: int
  vt_duration :: int
  vt_sample_description :: stsd_box
  vt_movie_header :: movie_header
  vt_track_header :: track_header
  vt_moov_extension_boxes :: "(bytes \<times> bytes) list"
  vt_elst_bytes :: "bytes option"
  vt_dts_ticks :: "int list"
  vt_offset :: "int list"
  vt_size :: "int list"
  vt_is_keyframe :: "bool list option"
  vt_composition_offsets :: "ctts_box option"

text \<open>The \<^verbatim>\<open>VideoTrack\<close> constructor: \<^verbatim>\<open>_nonempty_sample_table\<close> is the validator that can fail.\<close>

definition nonempty_sample_table :: "int list \<Rightarrow> unit res" where
  "nonempty_sample_table value = (if length value = 0 then Inl EmptySampleTableError else Inr ())"

definition make_video_track :: "video_track \<Rightarrow> video_track res" where
  "make_video_track track = rbind (nonempty_sample_table (vt_dts_ticks track)) (\<lambda>_. Inr track)"

section \<open>The avcC record and its encoder\<close>

definition length_prefixed :: "bytes \<Rightarrow> bytes" where
  "length_prefixed unit = be_bytes 2 (blen unit) @ unit"

definition write_avcc :: "byte \<Rightarrow> byte \<Rightarrow> byte \<Rightarrow> byte \<Rightarrow> bytes list \<Rightarrow> bytes list \<Rightarrow> bytes \<Rightarrow> bytes" where
  "write_avcc profile constraint level lengths sps pps ext =
     [1, profile, constraint, level, lengths, word_of_int (0xE0 + int (length sps))] @
     concat (map length_prefixed sps) @ [word_of_int (int (length pps))] @
     concat (map length_prefixed pps) @ ext"

lemma walk_length_prefixed_write:
  assumes "\<forall>u \<in> set units. length u < 65536" "data = pre @ concat (map length_prefixed units) @ post"
    and "pos = blen pre" "blen data < 2 ^ 63"
  shows "walk_length_prefixed_entries data pos (length units) =
    Inr (Some (pos + blen (concat (map length_prefixed units))))"
  using assms
proof (induction units arbitrary: pre pos)
  case Nil
  then show ?case by simp
next
  case (Cons u units)
  have "be_int (be_bytes 2 (blen u)) = blen u"
    using Cons.prems(1) by (intro be_int_be_bytes) auto
  then have "unpack_u16 data pos = Inr (blen u)"
    using Cons.prems by (simp add: unpack_uint_in length_prefixed_def)
  moreover have "walk_length_prefixed_entries data (pos + (2 + blen u)) (length units) =
      Inr (Some (pos + (2 + blen u) + blen (concat (map length_prefixed units))))"
    by (rule Cons.IH [of "pre @ length_prefixed u"])
      (use Cons.prems in \<open>simp_all add: length_prefixed_def\<close>)
  ultimately show ?case
    using Cons.prems(2,3) by (simp add: Let_def) (simp add: length_prefixed_def)
qed

lemma byte_at_in: "0 \<le> i \<Longrightarrow> i < blen buf \<Longrightarrow> byte_at buf i = Inr (uint (buf ! nat i))"
  by (simp add: byte_at_def py_index_in)

lemma uint_byte_of_int: "0 \<le> v \<Longrightarrow> v < 256 \<Longrightarrow> uint (word_of_int v :: byte) = v"
  by (simp add: unsigned_of_int take_bit_eq_mod)

lemma num_sps_byte:
  assumes "n < 32"
  shows "nat (uint (word_of_int (0xE0 + int n) :: byte) AND 0x1F) = n"
proof -
  have "uint (word_of_int (0xE0 + int n) :: byte) = 0xE0 + int n"
    using assms by (intro uint_byte_of_int) simp_all
  moreover have "(0xE0 + int n) AND 0x1F = (0xE0 + int n) mod 32"
    using take_bit_eq_mask [of 5 "0xE0 + int n"] by (simp add: take_bit_eq_mod mask_eq_exp_minus_1)
  moreover have "(0xE0 + int n) mod 32 = int n"
    using assms mod_mult_self1 [of "int n" 7 32] by (simp add: add.commute)
  ultimately show ?thesis by simp
qed

lemma avcc_extension_offset_write:
  assumes "length sps < 32" "length pps < 256" "\<forall>u \<in> set sps \<union> set pps. length u < 65536"
    and "data = write_avcc profile constraint level lengths sps pps ext" "blen data < 2 ^ 63"
  shows "avcc_extension_offset data = Inr (Some (blen data - blen ext))"
proof -
  let ?S = "concat (map length_prefixed sps)" and ?P = "concat (map length_prefixed pps)"
  let ?head = "[1, profile, constraint, level, lengths, word_of_int (0xE0 + int (length sps))]"
  have data: "data = ?head @ ?S @ [word_of_int (int (length pps))] @ ?P @ ext"
    by (simp add: assms(4) write_avcc_def)
  have b5: "byte_at data AVCC_NUM_SPS_BYTE = Inr (uint (word_of_int (0xE0 + int (length sps)) :: byte))"
    by (simp add: byte_at_in data avcc_consts)
  have w1: "walk_length_prefixed_entries data AVCC_SPS_ARRAY_START (length sps) = Inr (Some (6 + blen ?S))"
    using walk_length_prefixed_write [OF _ data, of AVCC_SPS_ARRAY_START] assms(3,5)
    by (simp add: avcc_consts)
  have "byte_at data (6 + blen ?S) = Inr (uint (word_of_int (int (length pps)) :: byte))"
    by (simp add: byte_at_in data nat_add_distrib nth_append)
  moreover have "uint (word_of_int (int (length pps)) :: byte) = int (length pps)"
    using assms(2) by (intro uint_byte_of_int) simp_all
  ultimately have bp: "byte_at data (6 + blen ?S) = Inr (int (length pps))" by simp
  have w2: "walk_length_prefixed_entries data (6 + blen ?S + 1) (length pps) =
      Inr (Some (6 + blen ?S + 1 + blen ?P))"
    by (rule walk_length_prefixed_write [where
          pre = "?head @ ?S @ [word_of_int (int (length pps))]" and post = ext])
      (use assms(3,5) data in simp_all)
  have len: "blen data = 7 + blen ?S + blen ?P + blen ext" by (simp add: data)
  show ?thesis
    using b5 w1 bp w2 len num_sps_byte [OF assms(1)]
    by (simp add: avcc_extension_offset_def avcc_consts)
qed

section \<open>Properties\<close>

text \<open>The \<^verbatim>\<open>avcC\<close> decoder recovers the fields of an encoded decoder configuration record: profile,
  constraint flags, level, length size, and, past the two arrays of length-prefixed parameter sets
  whatever their contents, the three fields of the extension, exactly when the profile is at least
  100 and at least four extension bytes are present.\<close>

theorem avcc_fields_roundtrip:
  assumes "length sps < 32" "length pps < 256" "\<forall>u \<in> set sps \<union> set pps. length u < 65536"
    and "data = write_avcc profile constraint level lengths sps pps ext" "blen data < 2 ^ 63"
  shows "avcc_fields data = Inr (uint profile, uint constraint, uint level, Some ((uint lengths AND 3) + 1),
    (if 100 \<le> uint profile \<and> 4 \<le> length ext
     then (Some (uint (ext ! 0) AND 3), Some (uint (ext ! 1) AND 7), Some (uint (ext ! 2) AND 7))
     else (None, None, None)))"
proof -
  let ?off = "blen data - blen ext"
  obtain head where head: "data = head @ ext" "7 \<le> length head"
    "take 5 head = [1, profile, constraint, level, lengths]"
    by (rule that [of "[1, profile, constraint, level, lengths, word_of_int (0xE0 + int (length sps))] @
      concat (map length_prefixed sps) @ [word_of_int (int (length pps))] @
      concat (map length_prefixed pps)"]) (simp_all add: assms(4) write_avcc_def)
  then have t5: "take 5 data = [1, profile, constraint, level, lengths]" by simp
  have nth: "data ! i = [1, profile, constraint, level, lengths] ! i" if "i < 5" for i
    using that nth_take [of i 5 data] t5 by simp
  have b: "byte_at data 1 = Inr (uint profile)" "byte_at data 2 = Inr (uint constraint)"
    "byte_at data 3 = Inr (uint level)" "byte_at data 4 = Inr (uint lengths)"
    using head(1,2) nth [of 1] nth [of 2] nth [of 3] nth [of 4] by (simp_all add: byte_at_in)
  have e: "byte_at data (?off + int i) = Inr (uint (ext ! i))" if "i < length ext" for i
    using that by (simp add: byte_at_in head(1) nat_add_distrib nth_append)
  have ne: "4 \<le> length ext \<Longrightarrow> ext \<noteq> []" by auto
  show ?thesis
    using b e [of 0] e [of 1] e [of 2] ne head(1,2) avcc_extension_offset_write [OF assms]
    by (auto simp: avcc_fields_def avcc_consts)
qed

theorem avcc_fields_roundtrip_witness:
  "avcc_fields (write_avcc 100 0 31 0xFF [[0x67, 1, 2]] [[0x68]] [0xFD, 0xF8, 0xF8, 0]) =
     Inr (uint (100 :: byte), uint (0 :: byte), uint (31 :: byte), Some ((uint (0xFF :: byte) AND 3) + 1),
       (if 100 \<le> uint (100 :: byte) \<and> 4 \<le> length [0xFD, 0xF8, 0xF8, 0 :: byte]
        then (Some (uint ([0xFD, 0xF8, 0xF8, 0 :: byte] ! 0) AND 3),
              Some (uint ([0xFD, 0xF8, 0xF8, 0 :: byte] ! 1) AND 7),
              Some (uint ([0xFD, 0xF8, 0xF8, 0 :: byte] ! 2) AND 7))
        else (None, None, None)))"
proof (rule avcc_fields_roundtrip [OF _ _ _ refl])
  show "blen (write_avcc 100 0 31 0xFF [[0x67, 1, 2]] [[0x68]] [0xFD, 0xF8, 0xF8, 0]) < 2 ^ 63"
    by code_simp
qed simp_all

end
