(* ===== verification/Moov.thy ===== *)
theory Moov
  imports MoovTrack
begin

text \<open>
  \<^verbatim>\<open>core/sensors/mp4/moov.py\<close>: the decoders of the sample tables of a non-fragmented file, their
  expansion to one value per sample, and \<^verbatim>\<open>parse_video_track\<close>. The lemmas relate each decoder to an
  encoder, each expansion to a reference that works sample by sample, and show what every decoded
  track satisfies.
\<close>

section \<open>Definitions\<close>

text \<open>\<^verbatim>\<open>list(zip(xs[0::2], xs[1::2], strict=True))\<close> of an even-length list, and its three-way form.\<close>

fun pairs_of :: "'a list \<Rightarrow> ('a \<times> 'a) list" where
  "pairs_of (a # b # xs) = (a, b) # pairs_of xs"
| "pairs_of _ = []"

fun triples_of :: "'a list \<Rightarrow> ('a \<times> 'a \<times> 'a) list" where
  "triples_of (a # b # c # xs) = (a, b, c) # triples_of xs"
| "triples_of _ = []"

definition parse_stts :: "bytes \<Rightarrow> int \<Rightarrow> int \<Rightarrow> (int \<times> int) list res" where
  "parse_stts buf start stop =
     rbind (unpack_u32 buf (start + 4)) (\<lambda>entry_count.
     rbind (unpack_uints 4 (nat (2 * entry_count)) buf (start + 8)) (\<lambda>pairs. Inr (pairs_of pairs)))"

definition parse_ctts :: "bytes \<Rightarrow> int \<Rightarrow> int \<Rightarrow> (int \<times> int) list res" where
  "parse_ctts buf start stop =
     rbind (unpack_u32 buf (start + 4)) (\<lambda>entry_count.
     rbind (unpack_uints 4 (nat (2 * entry_count)) buf (start + 8)) (\<lambda>pairs.
     Inr (pairs_of (map to_i32 pairs))))"

definition parse_stss :: "bytes \<Rightarrow> int \<Rightarrow> int \<Rightarrow> int set res" where
  "parse_stss buf start stop =
     rbind (unpack_u32 buf (start + 4)) (\<lambda>entry_count.
     rbind (unpack_uints 4 (nat entry_count) buf (start + 8)) (\<lambda>numbers. Inr (set numbers)))"

definition parse_stsz :: "bytes \<Rightarrow> int \<Rightarrow> int \<Rightarrow> int list res" where
  "parse_stsz buf start stop =
     rbind (unpack_uints 4 2 buf (start + 4)) (\<lambda>fields.
     let sample_size = fields ! 0; sample_count = fields ! 1 in
     if sample_size \<noteq> 0 then Inr (replicate (nat sample_count) sample_size)
     else unpack_uints 4 (nat sample_count) buf (start + 12))"

definition parse_stco :: "bytes \<Rightarrow> int \<Rightarrow> int \<Rightarrow> int list res" where
  "parse_stco buf start stop =
     rbind (unpack_u32 buf (start + 4)) (\<lambda>entry_count.
     unpack_uints 4 (nat entry_count) buf (start + 8))"

definition parse_co64 :: "bytes \<Rightarrow> int \<Rightarrow> int \<Rightarrow> int list res" where
  "parse_co64 buf start stop =
     rbind (unpack_u32 buf (start + 4)) (\<lambda>entry_count.
     unpack_uints 8 (nat entry_count) buf (start + 8))"

definition parse_stsc :: "bytes \<Rightarrow> int \<Rightarrow> int \<Rightarrow> (int \<times> int \<times> int) list res" where
  "parse_stsc buf start stop =
     rbind (unpack_u32 buf (start + 4)) (\<lambda>entry_count.
     rbind (unpack_uints 4 (nat (3 * entry_count)) buf (start + 8)) (\<lambda>triples.
     Inr (triples_of triples)))"

text \<open>\<^verbatim>\<open>tick + np.arange(sample_count, dtype=np.int64) * sample_delta\<close>: the products and sums wrap;
  a \<^verbatim>\<open>tick\<close> that is no \<^verbatim>\<open>int64\<close> raises.\<close>

definition dts_run :: "int \<Rightarrow> int \<Rightarrow> int \<Rightarrow> int list res" where
  "dts_run tick sample_count sample_delta =
     (if is_i64 tick
      then Inr (map (\<lambda>i. wrap_i64 (tick + wrap_i64 (int i * sample_delta))) [0..<nat sample_count])
      else Inl OverflowError)"

fun dts_runs :: "int \<Rightarrow> (int \<times> int) list \<Rightarrow> int list list res" where
  "dts_runs tick [] = Inr []"
| "dts_runs tick ((sample_count, sample_delta) # stts) =
     rbind (dts_run tick sample_count sample_delta) (\<lambda>run.
     rbind (dts_runs (tick + sample_count * sample_delta) stts) (\<lambda>runs. Inr (run # runs)))"

definition expand_dts_ticks :: "(int \<times> int) list \<Rightarrow> int list res" where
  "expand_dts_ticks stts = rbind (dts_runs 0 stts) (\<lambda>runs. Inr (concat runs))"

definition chunk_offsets_op :: "bytes \<Rightarrow> box_scope \<Rightarrow> ('w, int list) traversal_op" where
  "chunk_offsets_op buf scope =
     scatch
       (sbind (find_bounds scope [''stco'']) (\<lambda>(start, stop). slift (parse_stco buf start stop)))
       (\<lambda>e. if e = BoxNotFoundError
            then sbind (find_bounds scope [''co64'']) (\<lambda>(start, stop). slift (parse_co64 buf start stop))
            else sraise e)"

text \<open>The three nested loops of \<^verbatim>\<open>_expand_sample_offsets\<close>, inside out: the samples of a chunk, the
  chunks of a group, the groups. Each returns the offsets it appends and the next sample index.\<close>

fun expand_chunk :: "int list \<Rightarrow> nat \<Rightarrow> int \<Rightarrow> nat \<Rightarrow> (int list \<times> nat) res" where
  "expand_chunk sample_sizes sample_idx running_offset 0 = Inr ([], sample_idx)"
| "expand_chunk sample_sizes sample_idx running_offset (Suc n) =
     rbind (py_index IndexError sample_sizes (int sample_idx)) (\<lambda>sz.
     rbind (expand_chunk sample_sizes (Suc sample_idx) (running_offset + sz) n) (\<lambda>(offsets, idx).
     Inr (running_offset # offsets, idx)))"

fun expand_chunks :: "int list \<Rightarrow> int list \<Rightarrow> int \<Rightarrow> nat \<Rightarrow> int list \<Rightarrow> (int list \<times> nat) res" where
  "expand_chunks chunk_offsets sample_sizes samples_per_chunk sample_idx [] = Inr ([], sample_idx)"
| "expand_chunks chunk_offsets sample_sizes samples_per_chunk sample_idx (chunk_number # numbers) =
     rbind (py_index IndexError chunk_offsets (chunk_number - 1)) (\<lambda>running_offset.
     rbind (expand_chunk sample_sizes sample_idx running_offset (nat samples_per_chunk)) (\<lambda>(offsets, idx).
     rbind (expand_chunks chunk_offsets sample_sizes samples_per_chunk idx numbers) (\<lambda>(more, idx').
     Inr (offsets @ more, idx'))))"

fun expand_groups :: "int list \<Rightarrow> int list \<Rightarrow> nat \<Rightarrow> (int \<times> int \<times> int) list \<Rightarrow> int list res" where
  "expand_groups chunk_offsets sample_sizes sample_idx [] = Inr []"
| "expand_groups chunk_offsets sample_sizes sample_idx ((first_chunk, samples_per_chunk, desc) # stsc) =
     (let next_first_chunk =
        (case stsc of (next, _, _) # _ \<Rightarrow> next | [] \<Rightarrow> int (length chunk_offsets) + 1) in
      rbind (expand_chunks chunk_offsets sample_sizes samples_per_chunk sample_idx
               [first_chunk..next_first_chunk - 1]) (\<lambda>(offsets, idx).
      rbind (expand_groups chunk_offsets sample_sizes idx stsc) (\<lambda>more. Inr (offsets @ more))))"

definition expand_sample_offsets ::
  "(int \<times> int \<times> int) list \<Rightarrow> int list \<Rightarrow> int list \<Rightarrow> int list res" where
  "expand_sample_offsets stsc chunk_offsets sample_sizes =
     rbind (expand_groups chunk_offsets sample_sizes 0 stsc) np_array_i64"

definition check_sample_count :: "int \<Rightarrow> int \<Rightarrow> unit res" where
  "check_sample_count actual frame_count =
     (if actual \<noteq> frame_count then Inl MalformedSampleTableError else Inr ())"

text \<open>The \<^verbatim>\<open>stss\<close> and \<^verbatim>\<open>ctts\<close> blocks of \<^verbatim>\<open>_parse_video_track\<close>.\<close>

definition keyframes_op :: "bytes \<Rightarrow> box_scope \<Rightarrow> nat \<Rightarrow> ('w, bool list option) traversal_op" where
  "keyframes_op buf stbl_scope frame_count =
     scatch
       (sbind (find_bounds stbl_scope [''stss'']) (\<lambda>(stss_start, stss_end).
        sbind (slift (parse_stss buf stss_start stss_end)) (\<lambda>keyframe_numbers.
        sreturn (Some (map (\<lambda>i. int i + 1 \<in> keyframe_numbers) [0..<frame_count])))))
       (\<lambda>e. if e = BoxNotFoundError then sreturn None else sraise e)"

definition composition_op :: "bytes \<Rightarrow> box_scope \<Rightarrow> nat \<Rightarrow> ('w, ctts_box option) traversal_op" where
  "composition_op buf stbl_scope frame_count =
     sbind (scan_children stbl_scope) (\<lambda>boxes.
     case filter (\<lambda>box. bl_box_type box = ''ctts'') boxes of
       box # _ \<Rightarrow>
         sbind (slift (parse_ctts buf (bl_content_start box) (bl_end box))) (\<lambda>ctts_pairs.
         if sum_list (map fst ctts_pairs) \<noteq> int frame_count then sraise MalformedCompositionOffsetError
         else sbind (slift (np_array_i64 (map fst ctts_pairs))) (\<lambda>counts.
              sbind (slift (np_array_i64 (map snd ctts_pairs))) (\<lambda>offsets.
              sreturn (Some \<lparr>cb_sample_counts = counts, cb_sample_offsets = offsets\<rparr>))))
     | [] \<Rightarrow> sreturn None)"

text \<open>The part of \<^verbatim>\<open>_parse_video_track\<close> that decodes \<^verbatim>\<open>stbl\<close>: decode times, keyframes, composition
  offsets, sizes and offsets.\<close>

type_synonym sample_tables =
  "int list \<times> bool list option \<times> ctts_box option \<times> int list \<times> int list"

definition sample_tables_op :: "bytes \<Rightarrow> box_scope \<Rightarrow> ('w, sample_tables) traversal_op" where
  "sample_tables_op buf stbl_scope =
     sbind (find_bounds stbl_scope [''stts'']) (\<lambda>(stts_start, stts_end).
     sbind (slift (rbind (parse_stts buf stts_start stts_end) expand_dts_ticks)) (\<lambda>dts_ticks.
     let frame_count = length dts_ticks in
     sbind (keyframes_op buf stbl_scope frame_count) (\<lambda>is_keyframe.
     sbind (composition_op buf stbl_scope frame_count) (\<lambda>composition_offsets.
     sbind (find_bounds stbl_scope [''stsz'']) (\<lambda>(stsz_start, stsz_end).
     sbind (slift (parse_stsz buf stsz_start stsz_end)) (\<lambda>sample_sizes.
     sbind (slift (check_sample_count (int (length sample_sizes)) (int frame_count))) (\<lambda>_.
     sbind (find_bounds stbl_scope [''stsc'']) (\<lambda>(stsc_start, stsc_end).
     sbind (slift (parse_stsc buf stsc_start stsc_end)) (\<lambda>stsc.
     sbind (chunk_offsets_op buf stbl_scope) (\<lambda>chunk_offsets.
     sbind (slift (expand_sample_offsets stsc chunk_offsets sample_sizes)) (\<lambda>offsets.
     sbind (slift (check_sample_count (int (length offsets)) (int frame_count))) (\<lambda>_.
     sbind (slift (np_array_i64 sample_sizes)) (\<lambda>sizes.
     sreturn (dts_ticks, is_keyframe, composition_offsets, sizes, offsets))))))))))))))"

text \<open>\<^verbatim>\<open>_parse_video_track\<close> from the \<^verbatim>\<open>moov\<close> scope on.\<close>

definition parse_moov_scope :: "bytes \<Rightarrow> box_scope \<Rightarrow> ('w, video_track) traversal_op" where
  "parse_moov_scope buf moov_scope =
     sbind (slift (video_track_scopes buf moov_scope)) (\<lambda>(trak_scope, stbl_scope, stsd_scope, fourcc).
     sbind (traversal_find trak_scope [''mdia'', ''minf'', ''stbl'']) (\<lambda>_.
     sbind (scan_children stbl_scope) (\<lambda>_.
     sbind (find_bounds moov_scope [''mvhd'']) (\<lambda>(mvhd_start, mvhd_end).
     sbind (slift (MovieHeader_parse buf mvhd_start mvhd_end)) (\<lambda>movie_header.
     sbind (extension_boxes moov_scope) (\<lambda>moov_extension_boxes.
     sbind (find_bounds trak_scope [''tkhd'']) (\<lambda>(tkhd_start, tkhd_end).
     sbind (slift (TrackHeader_parse buf tkhd_start tkhd_end)) (\<lambda>track_header.
     sbind (scatch (sbind (find_bytes trak_scope [''edts'', ''elst'']) (\<lambda>b. sreturn (Some b)))
              (\<lambda>e. if e = BoxNotFoundError then sreturn None else sraise e)) (\<lambda>elst_bytes.
     sbind (find_bounds trak_scope [''mdia'', ''mdhd'']) (\<lambda>(mdhd_start, mdhd_end).
     sbind (slift (MediaHeader_parse buf mdhd_start mdhd_end)) (\<lambda>media_header.
     sbind (StsdBox_parse buf stsd_scope fourcc) (\<lambda>sample_description.
     sbind (sample_tables_op buf stbl_scope) (\<lambda>(dts_ticks, is_keyframe, composition_offsets, sizes, offsets).
     slift (make_video_track
       \<lparr>vt_timescale = md_timescale media_header, vt_duration = md_duration media_header,
        vt_sample_description = sample_description, vt_movie_header = movie_header,
        vt_track_header = track_header, vt_moov_extension_boxes = moov_extension_boxes,
        vt_elst_bytes = elst_bytes, vt_dts_ticks = dts_ticks, vt_offset = offsets,
        vt_size = sizes, vt_is_keyframe = is_keyframe,
        vt_composition_offsets = composition_offsets\<rparr>))))))))))))))"

text \<open>\<^verbatim>\<open>_parse_video_track\<close> and \<^verbatim>\<open>parse_video_track\<close>: the result and the caller's world after it.\<close>

definition moov_scope_of :: "int \<Rightarrow> int \<Rightarrow> box_scope" where
  "moov_scope_of moov_start moov_end =
     \<lparr>sc_start = moov_start, sc_end = moov_end, sc_path = [''moov''], sc_track_id = None,
      sc_fragment_index = None\<rparr>"

definition parse_video_track_raw ::
  "bytes \<Rightarrow> 'w uuid_handler list \<Rightarrow> 'w \<Rightarrow> video_track res \<times> 'w" where
  "parse_video_track_raw buf uuid_handlers w =
     (case rbind (read_box_header buf 0 (blen buf)) (\<lambda>(box_type, box_size, header_len).
           if box_type \<noteq> ''moov'' then Inl BoxNotFoundError
           else rbind (make_traversal buf uuid_handlers w) (\<lambda>t. Inr (header_len, box_size, t))) of
        Inl e \<Rightarrow> (Inl e, w)
      | Inr (moov_start, moov_end, t) \<Rightarrow>
          let (r, t') = parse_moov_scope buf (moov_scope_of moov_start moov_end) t
          in (r, bt_world t'))"

definition parse_video_track ::
  "bytes \<Rightarrow> 'w uuid_handler list \<Rightarrow> 'w \<Rightarrow> video_track res \<times> 'w" where
  "parse_video_track buf uuid_handlers w =
     (case parse_video_track_raw buf uuid_handlers w of
        (Inl e, w') \<Rightarrow> (Inl (if e \<in> {StructError, IndexError} then MalformedBoxHeaderError else e), w')
      | (Inr track, w') \<Rightarrow> (Inr track, w'))"

section \<open>The sample tables and their encoders\<close>

definition be_fields :: "nat \<Rightarrow> int list \<Rightarrow> bytes" where
  "be_fields w vs = concat (map (be_bytes w) vs)"

lemma length_be_fields [simp]: "length (be_fields w vs) = w * length vs"
  by (induction vs) (simp_all add: be_fields_def)

lemma be_ints_be_fields:
  "\<forall>v \<in> set vs. 0 \<le> v \<and> v < 256 ^ w \<Longrightarrow> be_ints w (length vs) (be_fields w vs @ post) = vs"
  by (induction vs) (simp_all add: be_fields_def be_int_be_bytes)

lemma unpack_uints_be_fields:
  assumes "\<forall>v \<in> set vs. 0 \<le> v \<and> v < 256 ^ w" "n = length vs"
    and "buf = pre @ be_fields w vs @ post" "off = blen pre" "blen buf < 2 ^ 63"
  shows "unpack_uints w n buf off = Inr vs"
proof -
  have len: "blen buf = blen pre + int (w * n) + blen post" using assms(2,3) by simp
  have "unpack_window (w * n) buf off = Inr (take (w * n) (drop (nat off) buf))"
    by (rule unpack_window_in) (use len assms(4,5) in linarith)+
  also have "take (w * n) (drop (nat off) buf) = be_fields w vs" using assms(2-4) by simp
  finally have "unpack_window (w * n) buf off = Inr (be_fields w vs)" .
  with be_ints_be_fields [OF assms(1), of "[]"] assms(2) show ?thesis
    by (simp add: unpack_uints_def)
qed

lemma unpack_u32_be_bytes:
  assumes "0 \<le> v" "v < 2 ^ 32" "buf = pre @ be_bytes 4 v @ post" "off = blen pre" "blen buf < 2 ^ 63"
  shows "unpack_u32 buf off = Inr v"
  using assms by (simp add: unpack_uint_in be_int_be_bytes)

lemma pairs_of_concat: "pairs_of (concat (map (\<lambda>(a, b). [a, b]) ps)) = ps"
  by (induction ps) auto

lemma triples_of_concat: "triples_of (concat (map (\<lambda>(a, b, c). [a, b, c]) ps)) = ps"
  by (induction ps) auto

lemma pairs_of_map: "pairs_of (map f xs) = map (map_prod f f) (pairs_of xs)"
  by (induction xs rule: pairs_of.induct) auto

text \<open>A table after its version and flags: the number of entries, then \<open>k\<close> fields per entry.\<close>

definition write_table :: "nat \<Rightarrow> nat \<Rightarrow> int list \<Rightarrow> bytes" where
  "write_table w k vs = be_bytes 4 (int (length vs div k)) @ be_fields w vs"

lemma read_table:
  assumes "buf = pre @ vf @ write_table w k vs @ post" "length vf = 4" "start = blen pre"
    and "blen buf < 2 ^ 63" "\<forall>v \<in> set vs. 0 \<le> v \<and> v < 256 ^ w"
    and "k dvd length vs" "0 < k" "int (length vs div k) < 2 ^ 32"
  shows "unpack_u32 buf (start + 4) = Inr (int (length vs div k)) \<and>
    unpack_uints w (nat (int k * int (length vs div k))) buf (start + 8) = Inr vs"
proof
  show "unpack_u32 buf (start + 4) = Inr (int (length vs div k))"
    by (rule unpack_u32_be_bytes [where pre = "pre @ vf" and post = "be_fields w vs @ post"])
      (use assms in \<open>simp_all add: write_table_def\<close>)
  have "nat (int k * int (length vs div k)) = length vs"
    using assms(6,7) by (metis dvd_mult_div_cancel nat_int of_nat_mult)
  moreover have "unpack_uints w (length vs) buf (start + 8) = Inr vs"
    by (rule unpack_uints_be_fields [where
          pre = "pre @ vf @ be_bytes 4 (int (length vs div k))" and post = post])
      (use assms in \<open>simp_all add: write_table_def\<close>)
  ultimately show "unpack_uints w (nat (int k * int (length vs div k))) buf (start + 8) = Inr vs"
    by simp
qed

section \<open>Decode times\<close>

text \<open>One delta per sample.\<close>

definition sample_deltas :: "(int \<times> int) list \<Rightarrow> int list" where
  "sample_deltas stts = concat (map (\<lambda>(count, delta). replicate (nat count) delta) stts)"

definition stts_total :: "(int \<times> int) list \<Rightarrow> int" where
  "stts_total stts = sum_list (map (\<lambda>(count, delta). count * delta) stts)"

lemma stts_total_nonneg: "\<forall>(c, d) \<in> set stts. 0 \<le> c \<and> 0 \<le> d \<Longrightarrow> 0 \<le> stts_total stts"
  unfolding stts_total_def by (rule sum_list_nonneg) auto

lemma dts_run_starts:
  assumes "0 \<le> tick" "0 \<le> count" "0 \<le> delta" "tick + count * delta < 2 ^ 63"
  shows "dts_run tick count delta = Inr (starts tick (replicate (nat count) delta))"
proof -
  have "wrap_i64 (tick + wrap_i64 (int i * delta)) = tick + int i * delta" if "i < nat count" for i
  proof -
    have "int i * delta \<le> count * delta"
      using that assms(3) by (intro mult_right_mono) auto
    moreover have "0 \<le> int i * delta" using assms(3) by simp
    ultimately have "is_i64 (int i * delta)" "is_i64 (tick + int i * delta)"
      unfolding is_i64_def using assms by linarith+
    then show ?thesis by (simp add: wrap_i64_id)
  qed
  moreover have "is_i64 tick"
    unfolding is_i64_def using assms mult_nonneg_nonneg [OF assms(2,3)] by linarith
  ultimately show ?thesis by (simp add: dts_run_def starts_replicate)
qed

lemma dts_runs_starts:
  assumes "0 \<le> tick" "\<forall>(c, d) \<in> set stts. 0 \<le> c \<and> 0 \<le> d" "tick + stts_total stts < 2 ^ 63"
  shows "\<exists>runs. dts_runs tick stts = Inr runs \<and> concat runs = starts tick (sample_deltas stts)"
  using assms
proof (induction stts arbitrary: tick)
  case Nil
  then show ?case by (simp add: sample_deltas_def)
next
  case (Cons r stts)
  obtain c d where r: "r = (c, d)" by (cases r)
  have nn: "0 \<le> c" "0 \<le> d" "0 \<le> c * d" "0 \<le> stts_total stts"
    using Cons.prems(2) stts_total_nonneg [of stts] by (auto simp: r)
  have tot: "stts_total (r # stts) = c * d + stts_total stts" by (simp add: stts_total_def r)
  have run: "dts_run tick c d = Inr (starts tick (replicate (nat c) d))"
    using nn Cons.prems tot by (intro dts_run_starts) auto
  have "0 \<le> tick + c * d" "tick + c * d + stts_total stts < 2 ^ 63"
    using Cons.prems nn tot by auto
  then obtain runs where "dts_runs (tick + c * d) stts = Inr runs"
    "concat runs = starts (tick + c * d) (sample_deltas stts)"
    using Cons.IH [of "tick + c * d"] Cons.prems(2) by auto
  with run nn show ?case
    by (simp add: r sample_deltas_def starts_append sum_list_replicate)
qed

section \<open>Sample offsets\<close>

text \<open>The number of samples of each chunk from the first group's first chunk on.\<close>

fun chunk_counts :: "nat \<Rightarrow> (int \<times> int \<times> int) list \<Rightarrow> nat list" where
  "chunk_counts num_chunks [] = []"
| "chunk_counts num_chunks ((first_chunk, n, desc) # stsc) =
     replicate (nat ((case stsc of (next, _, _) # _ \<Rightarrow> next | [] \<Rightarrow> int num_chunks + 1) - first_chunk)) (nat n)
     @ chunk_counts num_chunks stsc"

text \<open>A conformant \<^verbatim>\<open>stsc\<close>: the groups start at increasing chunk numbers, within the chunk table.\<close>

fun stsc_from :: "nat \<Rightarrow> int \<Rightarrow> (int \<times> int \<times> int) list \<Rightarrow> bool" where
  "stsc_from num_chunks first [] = (first = int num_chunks + 1)"
| "stsc_from num_chunks first ((first_chunk, n, desc) # stsc) =
     (first_chunk = first \<and> 0 \<le> n \<and> first \<le> int num_chunks \<and>
      (case stsc of (next, _, _) # _ \<Rightarrow> first < next \<and> stsc_from num_chunks next stsc | [] \<Rightarrow> True))"

text \<open>The reference: chunk by chunk, samples packed from the chunk's offset on.\<close>

fun pack_chunks :: "int list \<Rightarrow> nat list \<Rightarrow> int list \<Rightarrow> int list" where
  "pack_chunks (off # offs) (n # ns) sizes = starts off (take n sizes) @ pack_chunks offs ns (drop n sizes)"
| "pack_chunks _ _ sizes = []"

lemma expand_chunk_starts:
  "idx + n \<le> length sizes \<Longrightarrow>
   expand_chunk sizes idx off n = Inr (starts off (take n (drop idx sizes)), idx + n)"
proof (induction n arbitrary: idx off)
  case 0
  then show ?case by simp
next
  case (Suc n)
  then have "drop idx sizes = sizes ! idx # drop (Suc idx) sizes"
    by (simp add: Cons_nth_drop_Suc)
  with Suc show ?case by (simp add: py_index_in)
qed

lemma expand_chunks_pack:
  "1 \<le> first \<Longrightarrow> nat (first - 1) + k \<le> length offs \<Longrightarrow> idx + k * n \<le> length sizes \<Longrightarrow>
   expand_chunks offs sizes (int n) idx [first..first + int k - 1] =
     Inr (pack_chunks (take k (drop (nat (first - 1)) offs)) (replicate k n) (drop idx sizes), idx + k * n)"
proof (induction k arbitrary: first idx)
  case 0
  then show ?case by simp
next
  case (Suc k)
  have upto: "[first..first + int (Suc k) - 1] = first # [first + 1..(first + 1) + int k - 1]"
    by (simp add: upto_rec1)
  have lt: "nat (first - 1) < length offs" using Suc.prems by simp
  then have d: "drop (nat (first - 1)) offs = offs ! nat (first - 1) # drop (nat first) offs"
    using Suc.prems(1) by (simp add: Cons_nth_drop_Suc [symmetric] Suc_nat_eq_nat_zadd1)
  have ix: "py_index IndexError offs (first - 1) = Inr (offs ! nat (first - 1))"
    using Suc.prems(1) lt by (intro py_index_in) auto
  have IH: "expand_chunks offs sizes (int n) (idx + n) [first + 1..(first + 1) + int k - 1] =
      Inr (pack_chunks (take k (drop (nat first) offs)) (replicate k n) (drop (idx + n) sizes), idx + n + k * n)"
    using Suc.IH [of "first + 1" "idx + n"] Suc.prems by (simp add: algebra_simps)
  have "expand_chunk sizes idx (offs ! nat (first - 1)) n =
      Inr (starts (offs ! nat (first - 1)) (take n (drop idx sizes)), idx + n)"
    using Suc.prems by (intro expand_chunk_starts) simp
  with IH ix show ?case unfolding upto by (simp add: d algebra_simps)
qed

lemma pack_chunks_append:
  "length ns \<le> length offs \<Longrightarrow>
   pack_chunks offs (ns @ ms) sizes =
     pack_chunks (take (length ns) offs) ns sizes @
     pack_chunks (drop (length ns) offs) ms (drop (sum_list ns) sizes)"
proof (induction offs ns sizes rule: pack_chunks.induct)
  case (1 off offs n ns sizes)
  then show ?case by (simp add: add.commute)
qed (simp_all split: list.splits)

lemma pack_chunks_take: "pack_chunks (take (length ns) offs) ns sizes = pack_chunks offs ns sizes"
  by (induction offs ns sizes rule: pack_chunks.induct) (auto simp: take_Cons')

lemma expand_groups_pack:
  "stsc_from (length offs) first stsc \<Longrightarrow> stsc \<noteq> [] \<Longrightarrow> 1 \<le> first \<Longrightarrow>
   idx + sum_list (chunk_counts (length offs) stsc) \<le> length sizes \<Longrightarrow>
   expand_groups offs sizes idx stsc =
     Inr (pack_chunks (drop (nat (first - 1)) offs) (chunk_counts (length offs) stsc) (drop idx sizes))"
proof (induction stsc arbitrary: first idx)
  case Nil
  then show ?case by simp
next
  case (Cons g stsc)
  obtain f n desc where g: "g = (f, n, desc)" by (cases g)
  define next_f where "next_f = (case stsc of (nx, _, _) # _ \<Rightarrow> nx | [] \<Rightarrow> int (length offs) + 1)"
  define k where "k = nat (next_f - first)"
  define m where "m = nat n"
  have f: "f = first" "n = int m" "first \<le> int (length offs)"
    using Cons.prems(1) by (auto simp: g m_def)
  have nxt: "first < next_f" "next_f \<le> int (length offs) + 1"
    "stsc \<noteq> [] \<Longrightarrow> stsc_from (length offs) next_f stsc"
    using Cons.prems(1) by (cases stsc; auto simp: g next_f_def)+
  have k: "next_f = first + int k" "nat (first - 1) + k \<le> length offs"
    using nxt Cons.prems(3) by (auto simp: k_def)
  have counts: "chunk_counts (length offs) (g # stsc) = replicate k m @ chunk_counts (length offs) stsc"
    by (simp add: g f(1) k_def m_def next_f_def)
  have chunks: "expand_chunks offs sizes n idx [f..next_f - 1] =
      Inr (pack_chunks (take k (drop (nat (first - 1)) offs)) (replicate k m) (drop idx sizes), idx + k * m)"
    unfolding f k(1) using Cons.prems(3,4) k(2) by (intro expand_chunks_pack) (auto simp: counts sum_list_replicate)
  have rest: "expand_groups offs sizes (idx + k * m) stsc =
      Inr (pack_chunks (drop k (drop (nat (first - 1)) offs)) (chunk_counts (length offs) stsc)
             (drop (idx + k * m) sizes))"
  proof (cases "stsc = []")
    case True
    then show ?thesis by simp
  next
    case False
    have "nat (next_f - 1) = k + nat (first - 1)" using k(1) Cons.prems(3) by simp
    with Cons.IH [OF nxt(3) [OF False] False, of "idx + k * m"] Cons.prems(3,4) nxt show ?thesis
      by (simp add: counts sum_list_replicate)
  qed
  have le: "length (replicate k m) \<le> length (drop (nat (first - 1)) offs)" using k(2) by simp
  have "expand_groups offs sizes idx (g # stsc) =
      rbind (expand_chunks offs sizes n idx [f..next_f - 1]) (\<lambda>(offsets, idx).
      rbind (expand_groups offs sizes idx stsc) (\<lambda>more. Inr (offsets @ more)))"
    by (simp add: g next_f_def)
  also have "\<dots> = Inr (pack_chunks (drop (nat (first - 1)) offs)
      (replicate k m @ chunk_counts (length offs) stsc) (drop idx sizes))"
    unfolding chunks pack_chunks_append [OF le] by (simp add: rest sum_list_replicate add.commute)
  finally show ?case unfolding counts .
qed

section \<open>What a decoded track satisfies\<close>

definition track_ok :: "video_track \<Rightarrow> bool" where
  "track_ok track \<longleftrightarrow>
     (let n = length (vt_dts_ticks track) in
      0 < n \<and> length (vt_offset track) = n \<and> length (vt_size track) = n \<and>
      list_all is_i64 (vt_dts_ticks track) \<and> list_all is_i64 (vt_offset track) \<and>
      list_all (\<lambda>s. 0 \<le> s \<and> s < 2 ^ 32) (vt_size track) \<and>
      (\<forall>ks. vt_is_keyframe track = Some ks \<longrightarrow> length ks = n) \<and>
      (\<forall>c. vt_composition_offsets track = Some c \<longrightarrow>
         length (cb_sample_counts c) = length (cb_sample_offsets c) \<and>
         sum_list (cb_sample_counts c) = int n))"

lemma be_ints_bounds: "x \<in> set (be_ints w n bs) \<Longrightarrow> w * n \<le> length bs \<Longrightarrow> 0 \<le> x \<and> x < 256 ^ w"
proof (induction w n bs rule: be_ints.induct)
  case (2 w n bs)
  then show ?case using be_int_bounds [of "take w bs"] by auto
qed simp

lemma unpack_uints_Inr:
  assumes "unpack_uints w n buf off = Inr vs"
  shows "length vs = n \<and> (\<forall>v \<in> set vs. 0 \<le> v \<and> v < 256 ^ w)"
proof -
  from assms obtain x where x: "unpack_window (w * n) buf off = Inr x" "vs = be_ints w n x"
    by (auto simp: unpack_uints_def result_simps)
  with unpack_window_length [OF x(1)] show ?thesis by (auto dest: be_ints_bounds)
qed

lemma parse_stsz_Inr:
  assumes "parse_stsz buf s e = Inr sizes"
  shows "list_all (\<lambda>s. 0 \<le> s \<and> s < 2 ^ 32) sizes"
proof -
  from assms obtain fields where f: "unpack_uints 4 2 buf (s + 4) = Inr fields"
    and r: "if fields ! 0 \<noteq> 0 then sizes = replicate (nat (fields ! 1)) (fields ! 0)
            else unpack_uints 4 (nat (fields ! 1)) buf (s + 12) = Inr sizes"
    by (auto simp: parse_stsz_def result_simps Let_def split: if_splits)
  have f0: "0 \<le> fields ! 0 \<and> fields ! 0 < 2 ^ 32"
    using unpack_uints_Inr [OF f] by simp
  show ?thesis
  proof (cases "fields ! 0 = 0")
    case True
    with r unpack_uints_Inr show ?thesis by (fastforce simp: list_all_iff)
  next
    case False
    with r f0 show ?thesis by (auto simp: list_all_iff)
  qed
qed

lemma dts_run_i64: "dts_run tick c d = Inr run \<Longrightarrow> list_all is_i64 run"
  unfolding dts_run_def by (auto simp: list_all_iff is_i64_wrap split: if_splits)

lemma dts_runs_i64: "dts_runs tick stts = Inr runs \<Longrightarrow> list_all is_i64 (concat runs)"
proof (induction tick stts arbitrary: runs rule: dts_runs.induct)
  case (1 tick)
  then show ?case by simp
next
  case (2 tick c d stts)
  then obtain run rest where "dts_run tick c d = Inr run"
    "dts_runs (tick + c * d) stts = Inr rest" "runs = run # rest"
    by (simp add: result_simps) blast
  with "2.IH" dts_run_i64 show ?case by simp
qed

lemma i64_returns: "returns (\<lambda>ys. ys = xs) (slift (np_array_i64 xs))"
  unfolding returns_simple np_array_i64_def by simp

lemma keyframes_returns:
  "returns (\<lambda>k. \<forall>ks. k = Some ks \<longrightarrow> length ks = n) (keyframes_op buf scope n)"
  unfolding keyframes_op_def
  by (rule returns_scatch)
    ((rule returns_sbind_any | simp only: split_paired_all prod.case)+, simp_all add: returns_simple)

lemma composition_returns:
  "returns (\<lambda>c. \<forall>b. c = Some b \<longrightarrow> length (cb_sample_counts b) = length (cb_sample_offsets b) \<and>
     sum_list (cb_sample_counts b) = int n) (composition_op buf scope n)"
proof -
  let ?P = "\<lambda>c. \<forall>b. c = Some b \<longrightarrow> length (cb_sample_counts b) = length (cb_sample_offsets b) \<and>
     sum_list (cb_sample_counts b) = int n"
  have "returns ?P
      (if sum_list (map fst pairs) \<noteq> int n then sraise MalformedCompositionOffsetError
       else sbind (slift (np_array_i64 (map fst pairs))) (\<lambda>counts.
            sbind (slift (np_array_i64 (map snd pairs))) (\<lambda>offsets.
            sreturn (Some \<lparr>cb_sample_counts = counts, cb_sample_offsets = offsets\<rparr>))))" for pairs
    by (cases "sum_list (map fst pairs) = int n")
      (auto simp: returns_simple intro!: returns_sbind [OF i64_returns])
  then show ?thesis
    unfolding composition_op_def
    by (intro returns_sbind_any) (auto simp: returns_simple split: list.split intro!: returns_sbind_any)
qed

definition tables_ok :: "sample_tables \<Rightarrow> bool" where
  "tables_ok = (\<lambda>(dts, keyframes, ctts, sizes, offsets).
     length offsets = length dts \<and> length sizes = length dts \<and>
     list_all is_i64 dts \<and> list_all is_i64 offsets \<and> list_all (\<lambda>s. 0 \<le> s \<and> s < 2 ^ 32) sizes \<and>
     (\<forall>ks. keyframes = Some ks \<longrightarrow> length ks = length dts) \<and>
     (\<forall>c. ctts = Some c \<longrightarrow> length (cb_sample_counts c) = length (cb_sample_offsets c) \<and>
        sum_list (cb_sample_counts c) = int (length dts)))"

lemma dts_returns: "returns (list_all is_i64) (slift (rbind (parse_stts buf s e) expand_dts_ticks))"
  using dts_runs_i64 by (fastforce simp: returns_simple expand_dts_ticks_def result_simps)

lemma stsz_returns:
  "returns (list_all (\<lambda>s. 0 \<le> s \<and> s < 2 ^ 32)) (slift (parse_stsz buf s e))"
  using parse_stsz_Inr by (auto simp: returns_simple)

lemma check_returns: "returns (\<lambda>_. actual = count) (slift (check_sample_count actual count))"
  by (simp add: returns_simple check_sample_count_def)

lemma offsets_returns: "returns (list_all is_i64) (slift (expand_sample_offsets stsc offs sizes))"
  by (auto simp: returns_simple expand_sample_offsets_def result_simps)

lemmas table_returns =
  returns_sbind [OF dts_returns] returns_sbind [OF keyframes_returns]
  returns_sbind [OF composition_returns] returns_sbind [OF stsz_returns]
  returns_sbind [OF check_returns] returns_sbind [OF offsets_returns] returns_sbind [OF i64_returns]

lemma sample_tables_returns: "returns tables_ok (sample_tables_op buf scope)"
  unfolding sample_tables_op_def Let_def
  by (rule table_returns | rule returns_sbind_any | simp only: split_paired_all prod.case)+
    (simp add: returns_simple tables_ok_def)

lemma parse_moov_scope_returns: "returns track_ok (parse_moov_scope buf scope)"
  unfolding parse_moov_scope_def Let_def
  by (rule returns_sbind [OF sample_tables_returns] | rule returns_sbind_any
      | simp only: split_paired_all prod.case)+
    (auto simp: returns_simple tables_ok_def track_ok_def make_video_track_def
      nonempty_sample_table_def result_simps split: if_splits)

section \<open>Which exceptions a decode can end with\<close>

text \<open>\<open>ValueError\<close> is the traversal's own misuse error. No decoder raises it.\<close>

definition no_misuse :: "'a res \<Rightarrow> bool" where
  "no_misuse r \<longleftrightarrow> r \<noteq> Inl ValueError"

named_theorems no_misuse_intros

lemma no_misuse_rbind [no_misuse_intros]:
  "no_misuse m \<Longrightarrow> (\<And>x. no_misuse (f x)) \<Longrightarrow> no_misuse (rbind m f)"
  by (auto simp: no_misuse_def result_simps)

lemma no_misuse_basic [no_misuse_intros]:
  "no_misuse (Inr x)" "e \<noteq> ValueError \<Longrightarrow> no_misuse (Inl e)"
  "no_misuse (unpack_uint n buf off)" "no_misuse (unpack_uints w n buf off)"
  "no_misuse (byte_at buf off)" "no_misuse (py_index IndexError xs i)"
  "no_misuse (read_box_header buf off stop)" "no_misuse (iter_child_boxes buf off stop)"
  "no_misuse (np_array_i64 vs)"
  by (auto simp: no_misuse_def byte_at_def unpack_uints_def py_index_def np_array_i64_def result_simps Let_def
      dest: unpack_uint_error unpack_window_error read_box_header_error iter_child_boxes_error split: if_splits)

lemma no_misuse_if [no_misuse_intros]:
  "(c \<Longrightarrow> no_misuse x) \<Longrightarrow> (\<not> c \<Longrightarrow> no_misuse y) \<Longrightarrow> no_misuse (if c then x else y)"
  by simp

lemma no_misuse_option [no_misuse_intros]:
  "(no_misuse x) \<Longrightarrow> (\<And>y. no_misuse (f y)) \<Longrightarrow> no_misuse (case r of None \<Rightarrow> x | Some y \<Rightarrow> f y)"
  by (cases r) simp_all

lemma no_misuse_prod [no_misuse_intros]:
  "(\<And>a b. no_misuse (f a b)) \<Longrightarrow> no_misuse (case p of (a, b) \<Rightarrow> f a b)"
  by (cases p) simp

lemma no_misuse_catch:
  "no_misuse r \<Longrightarrow> (\<And>e. e \<noteq> ValueError \<Longrightarrow> no_misuse (f e)) \<Longrightarrow> (\<And>x. no_misuse (g x)) \<Longrightarrow>
   no_misuse (case r of Inl e \<Rightarrow> f e | Inr x \<Rightarrow> g x)"
  by (cases r) (auto simp: no_misuse_def)

lemma no_misuse_list:
  "no_misuse x \<Longrightarrow> (\<And>y ys. no_misuse (f y ys)) \<Longrightarrow> no_misuse (case r of [] \<Rightarrow> x | y # ys \<Rightarrow> f y ys)"
  by (cases r) simp_all

lemma find_box_no_misuse [no_misuse_intros]: "no_misuse (find_box buf path s e)"
  by (induction path arbitrary: s e) (auto intro!: no_misuse_intros)

lemma find_video_trak_no_misuse [no_misuse_intros]: "no_misuse (find_video_trak buf s e)"
proof -
  have "no_misuse (video_trak_match buf trak)" for trak
    unfolding video_trak_match_def
    by (cases trak) (auto intro!: no_misuse_catch no_misuse_intros simp del: find_box.simps)
  then have "no_misuse (video_trak_matches buf traks)" for traks
    by (induction traks) (auto intro!: no_misuse_intros)
  then show ?thesis
    unfolding find_video_trak_def find_all_boxes_def
    by (auto intro!: no_misuse_intros no_misuse_list)
qed

lemma walk_entries_no_misuse [no_misuse_intros]: "no_misuse (walk_length_prefixed_entries data p n)"
  by (induction n arbitrary: p) (auto simp: Let_def intro!: no_misuse_intros)

lemma avcc_fields_no_misuse [no_misuse_intros]: "no_misuse (avcc_fields data)"
  unfolding avcc_fields_def avcc_extension_offset_def by (intro no_misuse_intros)

lemma headers_no_misuse [no_misuse_intros]:
  "no_misuse (trak_track_id buf s e)" "no_misuse (video_track_scopes buf scope)"
  "no_misuse (MovieHeader_parse buf s e)" "no_misuse (TrackHeader_parse buf s e)"
  "no_misuse (MediaHeader_parse buf s e)" "no_misuse (make_video_track track)"
  unfolding trak_track_id_def video_track_scopes_def MovieHeader_parse_def TrackHeader_parse_def
    MediaHeader_parse_def make_video_track_def nonempty_sample_table_def header_times_def Let_def
  by (intro no_misuse_intros; simp)+

lemma dts_runs_no_misuse [no_misuse_intros]: "no_misuse (dts_runs tick stts)"
  by (induction stts arbitrary: tick) (auto simp: dts_run_def intro!: no_misuse_intros)

lemma expand_no_misuse [no_misuse_intros]:
  "no_misuse (expand_chunk sizes idx off n)" "no_misuse (expand_chunks offs sizes spc idx numbers)"
  "no_misuse (expand_groups offs sizes idx stsc)"
proof -
  show 1: "no_misuse (expand_chunk sizes idx off n)" for idx off n
    by (induction n arbitrary: idx off) (auto intro!: no_misuse_intros)
  show 2: "no_misuse (expand_chunks offs sizes spc idx numbers)" for spc idx numbers
    by (induction numbers arbitrary: idx) (auto intro!: no_misuse_intros 1)
  show "no_misuse (expand_groups offs sizes idx stsc)"
    by (induction stsc arbitrary: idx) (auto simp: Let_def intro!: no_misuse_intros 2)
qed

lemma tables_no_misuse [no_misuse_intros]:
  "no_misuse (parse_stts buf s e)" "no_misuse (parse_ctts buf s e)" "no_misuse (parse_stss buf s e)"
  "no_misuse (parse_stsz buf s e)" "no_misuse (parse_stco buf s e)" "no_misuse (parse_co64 buf s e)"
  "no_misuse (parse_stsc buf s e)" "no_misuse (expand_dts_ticks stts)"
  "no_misuse (expand_sample_offsets stsc offs sizes)" "no_misuse (check_sample_count a b)"
  unfolding parse_stts_def parse_ctts_def parse_stss_def parse_stsz_def parse_stco_def parse_co64_def
    parse_stsc_def expand_dts_ticks_def expand_sample_offsets_def check_sample_count_def Let_def
  by (intro no_misuse_intros; simp)+

text \<open>The traversal operations, on non-empty paths.\<close>

abbreviation sound_op :: "('w, 'a) traversal_op \<Rightarrow> bool" where
  "sound_op \<equiv> raises (\<lambda>e. e \<noteq> ValueError)"

lemma sound_slift: "no_misuse r \<Longrightarrow> sound_op (slift r)"
  by (auto simp: raises_simple no_misuse_def)

lemma dispatch_sound: "sound_op (dispatch loc)"
  by (auto simp: raises_def dispatch_def Let_def split: option.splits prod.splits if_splits)

lemma scan_loop_sound: "sound_op (scan_loop buf scope offset)"
proof (induction buf scope offset rule: scan_loop.induct)
  case (1 buf scope offset)
  have "no_misuse (scan_location buf scope offset)"
    unfolding scan_location_def by (intro no_misuse_intros) (auto simp: rguard_def no_misuse_def)
  then show ?case
    by (subst scan_loop.simps)
      (auto split: sum.splits simp: raises_simple no_misuse_def intro!: raises_sbind dispatch_sound "1.IH")
qed

lemma scan_children_sound: "sound_op (scan_children scope)"
  using scan_loop_sound unfolding raises_def scan_children_def
  by (fastforce simp: sbind_def split: option.splits if_splits prod.splits sum.splits)

lemma traversal_find_sound: "path \<noteq> [] \<Longrightarrow> sound_op (traversal_find scope path)"
  by (induction path arbitrary: scope)
    (auto simp: raises_simple split: option.split intro!: raises_sbind scan_children_sound)

lemma traversal_ops_sound:
  "path \<noteq> [] \<Longrightarrow> sound_op (find_bounds scope path)"
  "path \<noteq> [] \<Longrightarrow> sound_op (find_bytes scope path)"
  "sound_op (extension_boxes scope)"
  unfolding find_bounds_def find_bytes_def extension_boxes_def
  by (auto intro!: raises_sbind traversal_find_sound scan_children_sound simp: raises_simple)
    (auto simp: raises_def)

lemma sound_if: "sound_op x \<Longrightarrow> sound_op y \<Longrightarrow> sound_op (if c then x else y)"
  by simp

lemma sound_catch:
  "sound_op m \<Longrightarrow> sound_op h \<Longrightarrow>
   sound_op (scatch m (\<lambda>e. if e = BoxNotFoundError then h else sraise e))"
  by (rule raises_scatch [where D = "\<lambda>e. e \<noteq> ValueError"]) (auto simp: raises_simple)

lemma sound_prod: "(\<And>a b. sound_op (f a b)) \<Longrightarrow> sound_op (case p of (a, b) \<Rightarrow> f a b)"
  by (cases p) simp

lemma sound_option:
  "sound_op m \<Longrightarrow> (\<And>y. sound_op (f y)) \<Longrightarrow> sound_op (case r of None \<Rightarrow> m | Some y \<Rightarrow> f y)"
  by (cases r) simp_all

lemma sound_list:
  "sound_op m \<Longrightarrow> (\<And>y ys. sound_op (f y ys)) \<Longrightarrow> sound_op (case r of [] \<Rightarrow> m | y # ys \<Rightarrow> f y ys)"
  by (cases r) simp_all

lemma sound_simple: "sound_op (sreturn x)" "e \<noteq> ValueError \<Longrightarrow> sound_op (sraise e)"
  by (simp_all add: raises_simple)

lemmas sound_intros = raises_sbind sound_catch sound_if sound_prod sound_option sound_list
  sound_simple traversal_ops_sound traversal_find_sound scan_children_sound sound_slift no_misuse_intros

lemma StsdBox_parse_sound: "sound_op (StsdBox_parse buf scope fourcc)"
  unfolding StsdBox_parse_def btrt_fields_def optional_bounds_def Let_def
  by (intro sound_intros; simp)

lemma sample_tables_sound: "sound_op (sample_tables_op buf scope)"
  unfolding sample_tables_op_def keyframes_op_def composition_op_def chunk_offsets_op_def Let_def
  by (intro sound_intros; simp)

lemma parse_moov_scope_sound: "sound_op (parse_moov_scope buf scope)"
  unfolding parse_moov_scope_def
  by (intro sound_intros StsdBox_parse_sound sample_tables_sound; simp)

section \<open>Tables in a buffer\<close>

text \<open>A table of \<open>k\<close> fields per entry stands as the content of a full box at \<open>start\<close>.\<close>

definition table_at :: "bytes \<Rightarrow> int \<Rightarrow> nat \<Rightarrow> nat \<Rightarrow> int list \<Rightarrow> bool" where
  "table_at buf start w k vs \<longleftrightarrow>
     (\<exists>pre vf post. buf = pre @ vf @ write_table w k vs @ post \<and> length vf = 4 \<and> start = blen pre) \<and>
     blen buf < 2 ^ 63 \<and> (\<forall>v \<in> set vs. 0 \<le> v \<and> v < 256 ^ w) \<and> int (length vs div k) < 2 ^ 32"

lemma table_at_read:
  assumes "table_at buf start w k vs" "k dvd length vs" "0 < k"
  shows "unpack_u32 buf (start + 4) = Inr (int (length vs div k))"
    "unpack_uints w (nat (int k * int (length vs div k))) buf (start + 8) = Inr vs"
  using assms unfolding table_at_def by (metis read_table)+

definition flat2 :: "(int \<times> int) list \<Rightarrow> int list" where
  "flat2 ps = concat (map (\<lambda>(a, b). [a, b]) ps)"

definition flat3 :: "(int \<times> int \<times> int) list \<Rightarrow> int list" where
  "flat3 ps = concat (map (\<lambda>(a, b, c). [a, b, c]) ps)"

lemma length_flat [simp]: "length (flat2 ps) = 2 * length ps" "length (flat3 ts) = 3 * length ts"
  by (induction ps, auto simp: flat2_def) (induction ts, auto simp: flat3_def)

text \<open>The unsigned field a signed 32-bit value is stored in.\<close>

definition of_i32 :: "int \<Rightarrow> int" where
  "of_i32 v = v mod 2 ^ 32"

lemma to_i32_of_i32: "- (2 ^ 31) \<le> v \<Longrightarrow> v < 2 ^ 31 \<Longrightarrow> to_i32 (of_i32 v) = v"
proof (cases "0 \<le> v")
  case False
  assume "- (2 ^ 31) \<le> v"
  with False have "(v + 2 ^ 32) mod 2 ^ 32 = v + 2 ^ 32" by (intro mod_pos_pos_trivial) auto
  with False \<open>- (2 ^ 31) \<le> v\<close> show ?thesis by (simp add: of_i32_def to_i32_def)
qed (simp add: of_i32_def to_i32_def)

lemma pairs_of_flat2: "pairs_of (flat2 ps) = ps"
  by (simp add: flat2_def pairs_of_concat)

lemma triples_of_flat3: "triples_of (flat3 ps) = ps"
  by (simp add: flat3_def triples_of_concat)

lemma flat2_to_i32:
  "\<forall>(a, b) \<in> set ps. - (2 ^ 31) \<le> a \<and> a < 2 ^ 31 \<and> - (2 ^ 31) \<le> b \<and> b < 2 ^ 31 \<Longrightarrow>
   map to_i32 (map of_i32 (flat2 ps)) = flat2 ps"
  by (induction ps) (auto simp: flat2_def to_i32_of_i32)

section \<open>Properties\<close>

text \<open>C34: The decoders of \<^verbatim>\<open>stts\<close>, \<^verbatim>\<open>ctts\<close>, \<^verbatim>\<open>stss\<close>, \<^verbatim>\<open>stsc\<close>, \<^verbatim>\<open>stco\<close> and \<^verbatim>\<open>co64\<close> invert the
  encoding of their tables (version and flags, entry count, big-endian fields), wherever the box
  content stands in the buffer.\<close>

theorem sample_tables_roundtrip:
  "(table_at buf start 4 2 (flat2 stts) \<longrightarrow> parse_stts buf start stop = Inr stts) \<and>
   (table_at buf start 4 2 (map of_i32 (flat2 ctts)) \<and>
      (\<forall>(a, b) \<in> set ctts. - (2 ^ 31) \<le> a \<and> a < 2 ^ 31 \<and> - (2 ^ 31) \<le> b \<and> b < 2 ^ 31) \<longrightarrow>
      parse_ctts buf start stop = Inr ctts) \<and>
   (table_at buf start 4 1 stss \<longrightarrow> parse_stss buf start stop = Inr (set stss)) \<and>
   (table_at buf start 4 3 (flat3 stsc) \<longrightarrow> parse_stsc buf start stop = Inr stsc) \<and>
   (table_at buf start 4 1 stco \<longrightarrow> parse_stco buf start stop = Inr stco) \<and>
   (table_at buf start 8 1 co64 \<longrightarrow> parse_co64 buf start stop = Inr co64)"
proof (intro conjI impI)
  assume "table_at buf start 4 2 (flat2 stts)"
  from table_at_read [OF this] show "parse_stts buf start stop = Inr stts"
    by (simp add: parse_stts_def pairs_of_flat2)
next
  assume t: "table_at buf start 4 2 (map of_i32 (flat2 ctts)) \<and>
    (\<forall>(a, b) \<in> set ctts. - (2 ^ 31) \<le> a \<and> a < 2 ^ 31 \<and> - (2 ^ 31) \<le> b \<and> b < 2 ^ 31)"
  from table_at_read [OF conjunct1 [OF t]] flat2_to_i32 [OF conjunct2 [OF t]]
  show "parse_ctts buf start stop = Inr ctts"
    by (simp add: parse_ctts_def pairs_of_flat2 del: map_map)
next
  assume "table_at buf start 4 1 stss"
  from table_at_read [OF this] show "parse_stss buf start stop = Inr (set stss)"
    by (simp add: parse_stss_def)
next
  assume "table_at buf start 4 3 (flat3 stsc)"
  from table_at_read [OF this] show "parse_stsc buf start stop = Inr stsc"
    by (simp add: parse_stsc_def triples_of_flat3)
next
  assume "table_at buf start 4 1 stco"
  from table_at_read [OF this] show "parse_stco buf start stop = Inr stco"
    by (simp add: parse_stco_def)
next
  assume "table_at buf start 8 1 co64"
  from table_at_read [OF this] show "parse_co64 buf start stop = Inr co64"
    by (simp add: parse_co64_def)
qed

theorem sample_tables_roundtrip_witness:
  "parse_stts ([9] @ replicate 4 0 @ write_table 4 2 (flat2 [(3, 512), (1, 256)]) @ [7]) 1 28 =
     Inr [(3, 512), (1, 256)]"
proof -
  let ?buf = "[9] @ replicate 4 0 @ write_table 4 2 (flat2 [(3, 512), (1, 256)]) @ [7]"
  have "table_at ?buf 1 4 2 (flat2 [(3, 512), (1, 256)])"
    unfolding table_at_def
  proof (intro conjI)
    show "\<exists>pre vf post. ?buf = pre @ vf @ write_table 4 2 (flat2 [(3, 512), (1, 256)]) @ post \<and>
        length vf = 4 \<and> 1 = blen pre"
      by (intro exI [of _ "[9]"] exI [of _ "replicate 4 0"] exI [of _ "[7]"]) simp
  qed (code_simp+)
  then show ?thesis using sample_tables_roundtrip [of ?buf 1 "[(3, 512), (1, 256)]" 28] by blast
qed

text \<open>Decode times expand one run per \<^verbatim>\<open>stts\<close> entry to one tick per sample, where each sample
  starts when the deltas of all samples before it have passed, as long as the track's total duration
  is below \<^verbatim>\<open>2**63\<close> ticks.\<close>

theorem expand_dts_ticks_cumulative:
  assumes "\<forall>(count, delta) \<in> set stts. 0 \<le> count \<and> 0 \<le> delta" "stts_total stts < 2 ^ 63"
  shows "expand_dts_ticks stts = Inr (starts 0 (sample_deltas stts))"
  using dts_runs_starts [of 0 stts] assms by (auto simp: expand_dts_ticks_def)

theorem expand_dts_ticks_cumulative_witness:
  "expand_dts_ticks [(2, 512), (0, 7), (3, 256)] = Inr (starts 0 (sample_deltas [(2, 512), (0, 7), (3, 256)])) \<and>
   starts 0 (sample_deltas [(2, 512), (0, 7), (3, 256)]) = [0, 512, 1024, 1280, 1536]"
proof
  show "expand_dts_ticks [(2, 512), (0, 7), (3, 256)] = Inr (starts 0 (sample_deltas [(2, 512), (0, 7), (3, 256)]))"
    by (rule expand_dts_ticks_cumulative) (auto simp: stts_total_def)
qed code_simp

text \<open>C35: For a conformant \<^verbatim>\<open>stsc\<close> (groups at increasing chunk numbers from 1 on, within the chunk
  table) whose chunks hold no more samples than \<^verbatim>\<open>stsz\<close> lists, the nested loops place every sample
  right after the one before it in its chunk, the first of a chunk at the chunk's offset; the result
  is refused only if an offset is no 64-bit integer.\<close>

theorem expand_sample_offsets_packs_chunks:
  assumes "stsc_from (length chunk_offsets) 1 stsc" "stsc \<noteq> []"
    and "sum_list (chunk_counts (length chunk_offsets) stsc) \<le> length sample_sizes"
  shows "expand_sample_offsets stsc chunk_offsets sample_sizes =
    np_array_i64 (pack_chunks chunk_offsets (chunk_counts (length chunk_offsets) stsc) sample_sizes)"
  using expand_groups_pack [OF assms(1,2), of 0 sample_sizes] assms(3)
  by (simp add: expand_sample_offsets_def)

theorem expand_sample_offsets_packs_chunks_witness:
  "expand_sample_offsets [(1, 2, 1), (3, 1, 1)] [100, 200, 300] [10, 11, 12, 13, 14] =
     np_array_i64 (pack_chunks [100, 200, 300] (chunk_counts 3 [(1, 2, 1), (3, 1, 1)]) [10, 11, 12, 13, 14]) \<and>
   pack_chunks [100, 200, 300] (chunk_counts 3 [(1, 2, 1), (3, 1, 1)]) [10, 11, 12, 13, 14] =
     [100, 110, 200, 212, 300]"
proof
  show "expand_sample_offsets [(1, 2, 1), (3, 1, 1)] [100, 200, 300] [10, 11, 12, 13, 14] =
     np_array_i64 (pack_chunks [100, 200, 300] (chunk_counts 3 [(1, 2, 1), (3, 1, 1)]) [10, 11, 12, 13, 14])"
    using expand_sample_offsets_packs_chunks
      [of "[100, 200, 300]" "[(1, 2, 1), (3, 1, 1)]" "[10, 11, 12, 13, 14]"]
    by (simp add: sum_list_replicate)
qed code_simp

text \<open>C36: Whatever the buffer and the handlers, a track that is decoded has at least one sample; its
  decode times, offsets and sizes, and where present its keyframe flags, have one entry per sample;
  its composition runs cover exactly its samples; its times and offsets are 64-bit integers and its
  sizes 32-bit.\<close>

theorem parse_video_track_consistent:
  fixes w :: 'w
  assumes "parse_video_track buf uuid_handlers w = (Inr track, w')"
  shows "track_ok track"
proof -
  from assms obtain s e and t t' :: "'w box_traversal" where
    "parse_moov_scope buf (moov_scope_of s e) t = (Inr track, t')"
    by (auto simp: parse_video_track_def parse_video_track_raw_def Let_def
        split: sum.splits prod.splits)
  with parse_moov_scope_returns show ?thesis unfolding returns_def by blast
qed

text \<open>The smallest \<^verbatim>\<open>moov\<close> that decodes: most headers read on into the boxes that follow.\<close>

definition full_box :: "string \<Rightarrow> bytes \<Rightarrow> bytes" where
  "full_box t p = write_box (False, t, replicate 4 0 @ p)"

definition tiny_moov :: "bytes \<Rightarrow> bytes" where
  "tiny_moov chunk_table = write_box (False, ''moov'',
     write_box (False, ''mvhd'', []) @
     write_box (False, ''trak'',
       write_box (False, ''tkhd'', []) @
       write_box (False, ''mdia'',
         write_box (False, ''mdhd'', []) @
         write_box (False, ''minf'', write_box (False, ''stbl'',
           full_box ''stsd'' (be_bytes 4 1 @ be_bytes 4 86 @ encode_ascii ''avc1'') @
           full_box ''stts'' (write_table 4 2 [2, 512]) @
           full_box ''stsz'' (be_bytes 4 10 @ be_bytes 4 2) @
           full_box ''stsc'' (write_table 4 3 [1, 2, 1]) @
           chunk_table)))))"

definition no_handlers :: "unit uuid_handler list" where
  "no_handlers = []"

theorem parse_video_track_consistent_witness:
  "\<exists>track. parse_video_track (tiny_moov (full_box ''stco'' (write_table 4 1 [1000]))) no_handlers () =
       (Inr track, ()) \<and>
     vt_dts_ticks track = [0, 512] \<and> vt_offset track = [1000, 1010] \<and> track_ok track"
proof -
  let ?run = "parse_video_track (tiny_moov (full_box ''stco'' (write_table 4 1 [1000]))) no_handlers ()"
  have "map_sum id (\<lambda>t. (vt_dts_ticks t, vt_offset t)) (fst ?run) = Inr ([0, 512], [1000, 1010])"
    by code_simp
  then obtain track where run: "?run = (Inr track, ())"
    and "vt_dts_ticks track = [0, 512]" "vt_offset track = [1000, 1010]"
    by (cases ?run; cases "fst ?run") auto
  with parse_video_track_consistent [OF run] show ?thesis by blast
qed

text \<open>C37: A decode ends with one of the package's errors for an unindexable file, with the wrapped
  exception of a handler, or with \<open>OverflowError\<close>; a \<open>ValueError\<close> means that two handlers claim the
  same boxes. No \<^verbatim>\<open>struct.error\<close> and no \<open>IndexError\<close> escapes.\<close>

theorem parse_video_track_errors:
  fixes w :: 'w
  assumes "parse_video_track buf uuid_handlers w = (Inl e, w')"
  shows "unindexable e \<or> (\<exists>exc. e = UuidCallbackError exc) \<or> e = OverflowError \<or>
         e = ValueError \<and> register_handlers uuid_handlers Map.empty = Inl ValueError"
proof -
  obtain e' w'' where raw: "parse_video_track_raw buf uuid_handlers w = (Inl e', w'')"
    and e: "e = (if e' \<in> {StructError, IndexError} then MalformedBoxHeaderError else e')"
    using assms by (auto simp: parse_video_track_def split: sum.splits prod.splits)
  have "e' \<noteq> ValueError" if "register_handlers uuid_handlers Map.empty \<noteq> Inl ValueError"
  proof
    note no_clash = that
    assume "e' = ValueError"
    with raw obtain s en and t t' :: "'w box_traversal" where "parse_moov_scope buf (moov_scope_of s en) t = (Inl ValueError, t')"
      using no_clash read_box_header_error [of buf 0 "blen buf" ValueError]
      by (auto simp: parse_video_track_raw_def make_traversal_def Let_def result_simps
          split: sum.splits prod.splits if_splits)
    with parse_moov_scope_sound show False unfolding raises_def by blast
  qed
  then show ?thesis using e by (cases e') auto
qed

theorem parse_video_track_errors_witness:
  "parse_video_track (tiny_moov (full_box ''co64'' (write_table 8 1 [2 ^ 63]))) no_handlers () =
     (Inl OverflowError, ()) \<and>
   (unindexable OverflowError \<or> (\<exists>exc. OverflowError = UuidCallbackError exc) \<or>
    OverflowError = OverflowError \<or>
    OverflowError = ValueError \<and> register_handlers no_handlers Map.empty = Inl ValueError)"
proof -
  have run: "parse_video_track (tiny_moov (full_box ''co64'' (write_table 8 1 [2 ^ 63]))) no_handlers () =
      (Inl OverflowError, ())"
    by code_simp
  with parse_video_track_errors [OF run] show ?thesis by blast
qed

text \<open>A group whose first chunk is 0 is not refused: Python's negative index makes it read the last
  chunk's offset.\<close>

lemma expand_sample_offsets_chunk_zero:
  "expand_sample_offsets [(0, 1, 1)] [100, 200] [5, 6, 7] = Inr [200, 100, 200]"
  by code_simp

end
