(* ===== verification/FragmentTable.thy ===== *)
theory FragmentTable
  imports Moov
begin

text \<open>
  \<^verbatim>\<open>core/sensors/mp4/fragment_table.py\<close>: the decoder of a fragmented file, from its \<^verbatim>\<open>moov\<close> and its
  list of \<^verbatim>\<open>moof\<close> rows to a \<^verbatim>\<open>VideoTrack\<close>. Each \<^verbatim>\<open>moof\<close> gets a traversal of its own; the world of the
  handlers' callbacks is passed on from one to the next. A fragment's generator is the list of the
  samples it yields, or the exception that ends the decode.
\<close>

section \<open>Definitions\<close>

definition TFHD_BASE_DATA_OFFSET_PRESENT :: int where "TFHD_BASE_DATA_OFFSET_PRESENT = 0x000001"
definition TFHD_SAMPLE_DESCRIPTION_INDEX_PRESENT :: int where "TFHD_SAMPLE_DESCRIPTION_INDEX_PRESENT = 0x000002"
definition TFHD_DEFAULT_SAMPLE_DURATION_PRESENT :: int where "TFHD_DEFAULT_SAMPLE_DURATION_PRESENT = 0x000008"
definition TFHD_DEFAULT_SAMPLE_SIZE_PRESENT :: int where "TFHD_DEFAULT_SAMPLE_SIZE_PRESENT = 0x000010"
definition TFHD_DEFAULT_SAMPLE_FLAGS_PRESENT :: int where "TFHD_DEFAULT_SAMPLE_FLAGS_PRESENT = 0x000020"
definition TFHD_DEFAULT_BASE_IS_MOOF :: int where "TFHD_DEFAULT_BASE_IS_MOOF = 0x020000"
definition TRUN_DATA_OFFSET_PRESENT :: int where "TRUN_DATA_OFFSET_PRESENT = 0x000001"
definition TRUN_FIRST_SAMPLE_FLAGS_PRESENT :: int where "TRUN_FIRST_SAMPLE_FLAGS_PRESENT = 0x000004"
definition TRUN_SAMPLE_DURATION_PRESENT :: int where "TRUN_SAMPLE_DURATION_PRESENT = 0x000100"
definition TRUN_SAMPLE_SIZE_PRESENT :: int where "TRUN_SAMPLE_SIZE_PRESENT = 0x000200"
definition TRUN_SAMPLE_FLAGS_PRESENT :: int where "TRUN_SAMPLE_FLAGS_PRESENT = 0x000400"
definition TRUN_SAMPLE_COMPOSITION_TIME_OFFSETS_PRESENT :: int where
  "TRUN_SAMPLE_COMPOSITION_TIME_OFFSETS_PRESENT = 0x000800"
definition SAMPLE_IS_NON_SYNC_SAMPLE_BIT :: int where "SAMPLE_IS_NON_SYNC_SAMPLE_BIT = 0x00010000"
definition MIN_SAMPLES_FOR_A_DURATION_SPAN :: nat where "MIN_SAMPLES_FOR_A_DURATION_SPAN = 2"

lemmas fragment_flags =
  TFHD_BASE_DATA_OFFSET_PRESENT_def TFHD_SAMPLE_DESCRIPTION_INDEX_PRESENT_def
  TFHD_DEFAULT_SAMPLE_DURATION_PRESENT_def TFHD_DEFAULT_SAMPLE_SIZE_PRESENT_def
  TFHD_DEFAULT_SAMPLE_FLAGS_PRESENT_def TFHD_DEFAULT_BASE_IS_MOOF_def TRUN_DATA_OFFSET_PRESENT_def
  TRUN_FIRST_SAMPLE_FLAGS_PRESENT_def TRUN_SAMPLE_DURATION_PRESENT_def TRUN_SAMPLE_SIZE_PRESENT_def
  TRUN_SAMPLE_FLAGS_PRESENT_def TRUN_SAMPLE_COMPOSITION_TIME_OFFSETS_PRESENT_def
  SAMPLE_IS_NON_SYNC_SAMPLE_BIT_def

definition has_flag :: "int \<Rightarrow> int \<Rightarrow> bool" where
  "has_flag flags f \<longleftrightarrow> flags AND f \<noteq> 0"

text \<open>\<^verbatim>\<open>if flags & F: field = unpack(...); pos += n\<close>: the field, if present, and the next position.\<close>

definition optional_field :: "bool \<Rightarrow> nat \<Rightarrow> bytes \<Rightarrow> int \<Rightarrow> (int option \<times> int) res" where
  "optional_field present n buf pos =
     (if present then rbind (unpack_uint n buf pos) (\<lambda>v. Inr (Some v, pos + int n))
      else Inr (None, pos))"

record tfhd_fields =
  tf_base_data_offset :: "int option"
  tf_default_base_is_moof :: bool
  tf_sample_description_index :: "int option"
  tf_default_sample_duration :: "int option"
  tf_default_sample_size :: "int option"
  tf_default_sample_flags :: "int option"

definition parse_tfhd :: "bytes \<Rightarrow> int \<Rightarrow> int \<Rightarrow> int option \<Rightarrow> tfhd_fields res" where
  "parse_tfhd buf0 start stop expected_track_id =
     (let buf = py_slice buf0 start stop; flags = be_int (py_slice buf 1 4) in
      rbind (unpack_u32 buf 4) (\<lambda>track_id.
      if Some track_id \<noteq> expected_track_id then Inl FragmentLayoutUnsupportedError
      else
        rbind (optional_field (has_flag flags TFHD_BASE_DATA_OFFSET_PRESENT) 8 buf 8) (\<lambda>(base_data_offset, pos).
        rbind (optional_field (has_flag flags TFHD_SAMPLE_DESCRIPTION_INDEX_PRESENT) 4 buf pos) (\<lambda>(description, pos).
        rbind (optional_field (has_flag flags TFHD_DEFAULT_SAMPLE_DURATION_PRESENT) 4 buf pos) (\<lambda>(duration, pos).
        rbind (optional_field (has_flag flags TFHD_DEFAULT_SAMPLE_SIZE_PRESENT) 4 buf pos) (\<lambda>(sz, pos).
        rbind (optional_field (has_flag flags TFHD_DEFAULT_SAMPLE_FLAGS_PRESENT) 4 buf pos) (\<lambda>(sample_flags, pos).
        Inr \<lparr>tf_base_data_offset = base_data_offset,
             tf_default_base_is_moof = has_flag flags TFHD_DEFAULT_BASE_IS_MOOF,
             tf_sample_description_index = description, tf_default_sample_duration = duration,
             tf_default_sample_size = sz, tf_default_sample_flags = sample_flags\<rparr>)))))))"

definition parse_tfdt :: "bytes \<Rightarrow> int \<Rightarrow> int res" where
  "parse_tfdt buf start =
     rbind (byte_at buf start) (\<lambda>version.
     if version \<notin> {0, 1} then Inl FragmentLayoutUnsupportedError
     else if version = 1 then unpack_u64 buf (start + 4)
     else unpack_u32 buf (start + 4))"

record track_run =
  tr_sample_count :: int
  tr_data_offset :: "int option"
  tr_first_sample_flags :: "int option"
  tr_durations :: "int list option"
  tr_sizes :: "int list option"
  tr_flags :: "int list option"
  tr_composition_offsets :: "int list option"

definition TRUN_FIELDS :: "int list" where
  "TRUN_FIELDS = [TRUN_SAMPLE_DURATION_PRESENT, TRUN_SAMPLE_SIZE_PRESENT, TRUN_SAMPLE_FLAGS_PRESENT,
     TRUN_SAMPLE_COMPOSITION_TIME_OFFSETS_PRESENT]"

text \<open>One turn of the loop over the entries: each present column gets one more value.\<close>

fun parse_entry :: "bytes \<Rightarrow> int \<Rightarrow> int \<Rightarrow> (int \<times> int list option) list \<Rightarrow> (int list option list \<times> int) res" where
  "parse_entry buf version pos [] = Inr ([], pos)"
| "parse_entry buf version pos ((field, None) # rest) =
     rbind (parse_entry buf version pos rest) (\<lambda>(columns, pos'). Inr (None # columns, pos'))"
| "parse_entry buf version pos ((field, Some column) # rest) =
     rbind (if field = TRUN_SAMPLE_COMPOSITION_TIME_OFFSETS_PRESENT \<and> version = 1
            then unpack_i32 buf pos else unpack_u32 buf pos) (\<lambda>v.
     rbind (parse_entry buf version (pos + 4) rest) (\<lambda>(columns, pos').
     Inr (Some (column @ [v]) # columns, pos')))"

fun parse_entries :: "bytes \<Rightarrow> int \<Rightarrow> nat \<Rightarrow> int \<Rightarrow> int list option list \<Rightarrow> int list option list res" where
  "parse_entries buf version 0 pos columns = Inr columns"
| "parse_entries buf version (Suc n) pos columns =
     rbind (parse_entry buf version pos (zip TRUN_FIELDS columns)) (\<lambda>(columns', pos').
     parse_entries buf version n pos' columns')"

definition parse_sample_columns ::
  "bytes \<Rightarrow> int \<Rightarrow> int \<Rightarrow> int \<Rightarrow> int \<Rightarrow> int list option list res" where
  "parse_sample_columns buf pos count flags version =
     (let columns = map (\<lambda>field. if has_flag flags field then Some [] else None) TRUN_FIELDS;
          entry_size = 4 * int (length (filter (\<lambda>column. column \<noteq> None) columns)) in
      if pos + count * entry_size > blen buf then Inl MalformedBoxHeaderError
      else if entry_size \<noteq> 0 then parse_entries buf version (nat count) pos columns
      else Inr columns)"

definition parse_trun :: "bytes \<Rightarrow> int \<Rightarrow> int \<Rightarrow> track_run res" where
  "parse_trun buf0 start stop =
     (let buf = py_slice buf0 start stop in
      rbind (byte_at buf 0) (\<lambda>version.
      if version \<notin> {0, 1} then Inl FragmentLayoutUnsupportedError
      else
        let flags = be_int (py_slice buf 1 4) in
        rbind (unpack_u32 buf 4) (\<lambda>sample_count.
        if sample_count = 0 then Inl FragmentLayoutUnsupportedError
        else if has_flag flags TRUN_FIRST_SAMPLE_FLAGS_PRESENT \<and> has_flag flags TRUN_SAMPLE_FLAGS_PRESENT
        then Inl FragmentLayoutUnsupportedError
        else
          rbind (optional_field (has_flag flags TRUN_DATA_OFFSET_PRESENT) 4 buf 8) (\<lambda>(data_offset, pos).
          rbind (optional_field (has_flag flags TRUN_FIRST_SAMPLE_FLAGS_PRESENT) 4 buf pos) (\<lambda>(first_flags, pos).
          rbind (parse_sample_columns buf pos sample_count flags version) (\<lambda>columns.
          Inr \<lparr>tr_sample_count = sample_count, tr_data_offset = map_option to_i32 data_offset,
               tr_first_sample_flags = first_flags, tr_durations = columns ! 0,
               tr_sizes = columns ! 1, tr_flags = columns ! 2,
               tr_composition_offsets = columns ! 3\<rparr>))))))"

record trex_defaults =
  tx_default_sample_duration :: "int option"
  tx_default_sample_size :: "int option"
  tx_default_sample_flags :: "int option"

definition parse_trex_defaults :: "bytes \<Rightarrow> int \<Rightarrow> int \<Rightarrow> trex_defaults res" where
  "parse_trex_defaults moov_buf moov_content_start moov_content_end =
     (case find_box moov_buf [''mvex'', ''trex''] moov_content_start moov_content_end of
        Inl e \<Rightarrow>
          if e = BoxNotFoundError
          then Inr \<lparr>tx_default_sample_duration = None, tx_default_sample_size = None,
                    tx_default_sample_flags = None\<rparr>
          else Inl e
      | Inr (trex_start, _) \<Rightarrow>
          rbind (unpack_uints 4 5 moov_buf (trex_start + 4)) (\<lambda>f.
          Inr \<lparr>tx_default_sample_duration = (if f ! 2 = 0 then None else Some (f ! 2)),
               tx_default_sample_size = Some (f ! 3), tx_default_sample_flags = Some (f ! 4)\<rparr>))"

definition find_single_box :: "bytes \<Rightarrow> string \<Rightarrow> int \<Rightarrow> int \<Rightarrow> (int \<times> int) res" where
  "find_single_box buf name start stop =
     rbind (find_all_boxes buf name start stop) (\<lambda>boxes.
     case boxes of
       [] \<Rightarrow> Inl BoxNotFoundError
     | box # _ \<Rightarrow> if length boxes \<noteq> 1 then Inl FragmentLayoutUnsupportedError else Inr box)"

definition sample_value :: "int list option \<Rightarrow> int \<Rightarrow> int option \<Rightarrow> int option \<Rightarrow> int option res" where
  "sample_value column index tfhd_default trex_default =
     (case column of
        Some xs \<Rightarrow> rbind (py_index IndexError xs index) (\<lambda>v. Inr (Some v))
      | None \<Rightarrow> Inr (case tfhd_default of Some v \<Rightarrow> Some v | None \<Rightarrow> trex_default))"

record fragment_sample =
  fs_offset :: int
  fs_size :: int
  fs_keyframe :: bool
  fs_decode_time :: int
  fs_duration :: "int option"

text \<open>The loop of \<^verbatim>\<open>_parse_fragment\<close> over the samples; the last argument counts those left.\<close>

fun fragment_samples ::
  "track_run \<Rightarrow> tfhd_fields \<Rightarrow> trex_defaults \<Rightarrow> int \<Rightarrow> int \<Rightarrow> int \<Rightarrow> nat \<Rightarrow> fragment_sample list res" where
  "fragment_samples trun tfhd trex absolute_offset decode_time index 0 = Inr []"
| "fragment_samples trun tfhd trex absolute_offset decode_time index (Suc n) =
     rbind (sample_value (tr_sizes trun) index (tf_default_sample_size tfhd) (tx_default_sample_size trex)) (\<lambda>sz.
     rbind (sample_value (tr_flags trun) index (tf_default_sample_flags tfhd) (tx_default_sample_flags trex)) (\<lambda>flags0.
     let flags = (if index = 0 \<and> tr_first_sample_flags trun \<noteq> None then tr_first_sample_flags trun else flags0) in
     case (sz, flags) of
       (Some size', Some flags') \<Rightarrow>
         rbind (sample_value (tr_durations trun) index (tf_default_sample_duration tfhd)
                  (tx_default_sample_duration trex)) (\<lambda>duration.
         if duration = None \<and> index + 1 < tr_sample_count trun then Inl FragmentLayoutUnsupportedError
         else
           rbind (fragment_samples trun tfhd trex (absolute_offset + size')
                    (decode_time + (case duration of None \<Rightarrow> 0 | Some d \<Rightarrow> d)) (index + 1) n) (\<lambda>rest.
           Inr (\<lparr>fs_offset = absolute_offset, fs_size = size',
                 fs_keyframe = \<not> has_flag flags' SAMPLE_IS_NON_SYNC_SAMPLE_BIT,
                 fs_decode_time = decode_time, fs_duration = duration\<rparr> # rest)))
     | _ \<Rightarrow> Inl FragmentLayoutUnsupportedError))"

text \<open>\<^verbatim>\<open>_parse_fragment\<close> after the traversal is built.\<close>

definition parse_fragment_scope ::
  "int \<Rightarrow> bytes \<Rightarrow> trex_defaults \<Rightarrow> int \<Rightarrow> int option \<Rightarrow> int \<Rightarrow> int \<Rightarrow>
   ('w, fragment_sample list) traversal_op" where
  "parse_fragment_scope moof_start moof_bytes trex fragment_index expected_track_id header_len box_size =
     (let moof_scope = \<lparr>sc_start = header_len, sc_end = box_size, sc_path = [''moof''],
                        sc_track_id = None, sc_fragment_index = Some fragment_index\<rparr> in
      sbind (traversal_find moof_scope [''traf'']) (\<lambda>traf.
      sbind (slift (find_single_box moof_bytes ''tfhd'' (bl_content_start traf) (bl_end traf))) (\<lambda>(tfhd_start, tfhd_end).
      sbind (slift (parse_tfhd moof_bytes tfhd_start tfhd_end expected_track_id)) (\<lambda>tfhd.
      sbind (slift (unpack_u32 (py_slice moof_bytes tfhd_start tfhd_end) 4)) (\<lambda>track_id.
      sbind (scan_children (child_scope traf (Some track_id))) (\<lambda>_.
      sbind (slift (find_single_box moof_bytes ''tfdt'' (bl_content_start traf) (bl_end traf))) (\<lambda>(tfdt_start, tfdt_end).
      sbind (slift (parse_tfdt (py_slice moof_bytes tfdt_start tfdt_end) 0)) (\<lambda>decode_time.
      sbind (slift (find_single_box moof_bytes ''trun'' (bl_content_start traf) (bl_end traf))) (\<lambda>(trun_start, trun_end).
      sbind (slift (parse_trun moof_bytes trun_start trun_end)) (\<lambda>trun.
      if (case tr_composition_offsets trun of None \<Rightarrow> False | Some xs \<Rightarrow> list_ex (\<lambda>x. x \<noteq> 0) xs)
      then sraise CompositionOffsetUnsupportedError
      else
        sbind (case tf_base_data_offset tfhd of
                 Some base \<Rightarrow> sreturn base
               | None \<Rightarrow> if \<not> tf_default_base_is_moof tfhd then sraise FragmentLayoutUnsupportedError
                         else sreturn moof_start) (\<lambda>base_offset.
        case tr_data_offset trun of
          None \<Rightarrow> sraise FragmentLayoutUnsupportedError
        | Some data_offset \<Rightarrow>
            slift (fragment_samples trun tfhd trex (base_offset + data_offset) decode_time 0
                     (nat (tr_sample_count trun))))))))))))))"

definition parse_fragment ::
  "int \<times> bytes \<Rightarrow> trex_defaults \<Rightarrow> 'w uuid_handler list \<Rightarrow> int \<Rightarrow> int option \<Rightarrow> 'w \<Rightarrow>
   fragment_sample list res \<times> 'w" where
  "parse_fragment moof_row trex uuid_handlers fragment_index expected_track_id w =
     (case moof_row of (moof_start, moof_bytes) \<Rightarrow>
      case rbind (read_box_header moof_bytes 0 (blen moof_bytes)) (\<lambda>(_, box_size, header_len).
           rbind (find_single_box moof_bytes ''traf'' header_len box_size) (\<lambda>_.
           rbind (make_traversal moof_bytes uuid_handlers w) (\<lambda>t. Inr (header_len, box_size, t)))) of
        Inl e \<Rightarrow> (Inl e, w)
      | Inr (header_len, box_size, t) \<Rightarrow>
          let (r, t') = parse_fragment_scope moof_start moof_bytes trex fragment_index expected_track_id
                          header_len box_size t
          in (r, bt_world t'))"

text \<open>The loop over the rows; the samples of all of them in order.\<close>

fun parse_fragments ::
  "(int \<times> bytes) list \<Rightarrow> trex_defaults \<Rightarrow> 'w uuid_handler list \<Rightarrow> int \<Rightarrow> int option \<Rightarrow> 'w \<Rightarrow>
   fragment_sample list res \<times> 'w" where
  "parse_fragments [] trex uuid_handlers fragment_index expected_track_id w = (Inr [], w)"
| "parse_fragments (row # rows) trex uuid_handlers fragment_index expected_track_id w =
     (case parse_fragment row trex uuid_handlers fragment_index expected_track_id w of
        (Inl e, w') \<Rightarrow> (Inl e, w')
      | (Inr samples, w') \<Rightarrow>
          (case parse_fragments rows trex uuid_handlers (fragment_index + 1) expected_track_id w' of
             (Inl e, w'') \<Rightarrow> (Inl e, w'')
           | (Inr rest, w'') \<Rightarrow> (Inr (samples @ rest), w'')))"

definition duration_from_decode_times :: "int list \<Rightarrow> int option list \<Rightarrow> int" where
  "duration_from_decode_times decode_times sample_durations =
     (if length decode_times < MIN_SAMPLES_FOR_A_DURATION_SPAN then
        (case (if sample_durations \<noteq> [] then last sample_durations else None) of
           None \<Rightarrow> 0 | Some d \<Rightarrow> d)
      else
        let span = last decode_times - decode_times ! 0;
            last_interval = (case last sample_durations of
                Some d \<Rightarrow> d | None \<Rightarrow> span div (int (length decode_times) - 1))
        in span + last_interval)"

fun reject_nonempty :: "bytes \<Rightarrow> int \<Rightarrow> (int \<times> int) list \<Rightarrow> unit res" where
  "reject_nonempty buf count_offset [] = Inr ()"
| "reject_nonempty buf count_offset ((start, stop) # boxes) =
     rbind (unpack_u32 (py_slice buf start stop) count_offset) (\<lambda>count.
     if count \<noteq> 0 then Inl FragmentLayoutUnsupportedError else reject_nonempty buf count_offset boxes)"

fun reject_tables :: "bytes \<Rightarrow> box_scope \<Rightarrow> string list \<Rightarrow> unit res" where
  "reject_tables buf stbl_scope [] = Inr ()"
| "reject_tables buf stbl_scope (name # names) =
     rbind (find_all_boxes buf name (sc_start stbl_scope) (sc_end stbl_scope)) (\<lambda>boxes.
     rbind (reject_nonempty buf (if name \<in> {''stsz'', ''stz2''} then 8 else 4) boxes) (\<lambda>_.
     reject_tables buf stbl_scope names))"

definition reject_initial_samples :: "bytes \<Rightarrow> box_scope \<Rightarrow> unit res" where
  "reject_initial_samples buf stbl_scope =
     reject_tables buf stbl_scope [''stts'', ''stsz'', ''stz2'', ''stsc'', ''stco'', ''co64'']"

text \<open>\<^verbatim>\<open>_parse_fragment_table\<close> up to the rows: the track without its samples, the \<^verbatim>\<open>trex\<close> defaults and
  the track ID the fragments must carry.\<close>

definition fragment_moov_op ::
  "bytes \<Rightarrow> box_scope \<Rightarrow> ('w, video_track \<times> trex_defaults \<times> int option) traversal_op" where
  "fragment_moov_op buf moov_scope =
     sbind (slift (video_track_scopes buf moov_scope)) (\<lambda>(trak_scope, stbl_scope, stsd_scope, fourcc).
     sbind (traversal_find trak_scope [''mdia'', ''minf'', ''stbl'']) (\<lambda>_.
     sbind (scan_children stbl_scope) (\<lambda>_.
     sbind (slift (reject_initial_samples buf stbl_scope)) (\<lambda>_.
     sbind (find_bounds moov_scope [''mvhd'']) (\<lambda>(mvhd_start, mvhd_end).
     sbind (slift (MovieHeader_parse buf mvhd_start mvhd_end)) (\<lambda>movie_header.
     sbind (extension_boxes moov_scope) (\<lambda>moov_extension_boxes.
     sbind (find_bounds trak_scope [''tkhd'']) (\<lambda>(tkhd_start, tkhd_end).
     sbind (slift (TrackHeader_parse buf tkhd_start tkhd_end)) (\<lambda>track_header.
     sbind (scatch (sbind (find_bytes trak_scope [''edts'', ''elst'']) (\<lambda>b. sreturn (Some b)))
              (\<lambda>e. if e = BoxNotFoundError then sreturn None else sraise e)) (\<lambda>elst_bytes.
     sbind (find_bounds trak_scope [''mdia'', ''mdhd'']) (\<lambda>(mdhd_start, mdhd_end).
     sbind (slift (MediaHeader_parse buf mdhd_start mdhd_end)) (\<lambda>media_header.
     sbind (StsdBox_parse buf stsd_scope fourcc) (\<lambda>sample_description.
     sbind (slift (parse_trex_defaults buf (sc_start moov_scope) (sc_end moov_scope))) (\<lambda>trex.
     sreturn
       (\<lparr>vt_timescale = md_timescale media_header, vt_duration = 0,
         vt_sample_description = sample_description, vt_movie_header = movie_header,
         vt_track_header = track_header, vt_moov_extension_boxes = moov_extension_boxes,
         vt_elst_bytes = elst_bytes, vt_dts_ticks = [], vt_offset = [], vt_size = [],
         vt_is_keyframe = None, vt_composition_offsets = None\<rparr>,
        trex, sc_track_id trak_scope)))))))))))))))"

text \<open>The return statement: the arguments of \<^verbatim>\<open>VideoTrack(...)\<close> in order, then its validator.\<close>

definition fragment_track :: "video_track \<Rightarrow> fragment_sample list \<Rightarrow> video_track res" where
  "fragment_track track samples =
     rbind (np_array_i64 (map fs_decode_time samples)) (\<lambda>dts_ticks.
     rbind (np_array_i64 (map fs_offset samples)) (\<lambda>offset.
     rbind (np_array_i64 (map fs_size samples)) (\<lambda>sz.
     make_video_track (track\<lparr>
       vt_duration := duration_from_decode_times (map fs_decode_time samples) (map fs_duration samples),
       vt_dts_ticks := dts_ticks, vt_offset := offset, vt_size := sz,
       vt_is_keyframe := Some (map fs_keyframe samples)\<rparr>))))"

definition parse_fragment_table_raw ::
  "bytes \<Rightarrow> (int \<times> bytes) list \<Rightarrow> 'w uuid_handler list \<Rightarrow> 'w \<Rightarrow> video_track res \<times> 'w" where
  "parse_fragment_table_raw moov_bytes moof_rows uuid_handlers w =
     (case rbind (read_box_header moov_bytes 0 (blen moov_bytes)) (\<lambda>(box_type, box_size, header_len).
           if box_type \<noteq> ''moov'' then Inl BoxNotFoundError
           else rbind (find_single_box moov_bytes ''trak'' header_len box_size) (\<lambda>_.
                rbind (make_traversal moov_bytes uuid_handlers w) (\<lambda>t. Inr (header_len, box_size, t)))) of
        Inl e \<Rightarrow> (Inl e, w)
      | Inr (moov_start, moov_end, t) \<Rightarrow>
          (case fragment_moov_op moov_bytes (moov_scope_of moov_start moov_end) t of
             (Inl e, t') \<Rightarrow> (Inl e, bt_world t')
           | (Inr (track, trex, track_id), t') \<Rightarrow>
               (case parse_fragments moof_rows trex uuid_handlers 0 track_id (bt_world t') of
                  (Inl e, w') \<Rightarrow> (Inl e, w')
                | (Inr samples, w') \<Rightarrow> (fragment_track track samples, w'))))"

definition parse_fragment_table ::
  "bytes \<Rightarrow> (int \<times> bytes) list \<Rightarrow> 'w uuid_handler list \<Rightarrow> 'w \<Rightarrow> video_track res \<times> 'w" where
  "parse_fragment_table moov_bytes moof_rows uuid_handlers w =
     (case parse_fragment_table_raw moov_bytes moof_rows uuid_handlers w of
        (Inl e, w') \<Rightarrow> (Inl (if e \<in> {StructError, IndexError} then MalformedBoxHeaderError else e), w')
      | (Inr track, w') \<Rightarrow> (Inr track, w'))"

section \<open>Samples of one fragment\<close>

text \<open>The duration a sample advances the decode time by.\<close>

definition advance :: "fragment_sample \<Rightarrow> int" where
  "advance s = (case fs_duration s of None \<Rightarrow> 0 | Some d \<Rightarrow> d)"

lemma fragment_samples_SucE:
  assumes "fragment_samples trun tfhd trex off dt index (Suc n) = Inr samples"
  obtains sz duration k rest where
    "fragment_samples trun tfhd trex (off + sz)
       (dt + (case duration of None \<Rightarrow> 0 | Some d \<Rightarrow> d)) (index + 1) n = Inr rest"
    "samples = \<lparr>fs_offset = off, fs_size = sz, fs_keyframe = k, fs_decode_time = dt,
       fs_duration = duration\<rparr> # rest"
    "\<not> (duration = None \<and> index + 1 < tr_sample_count trun)"
proof -
  from assms obtain sz flags where
    "(case (sz, flags) of
       (Some size', Some flags') \<Rightarrow>
         rbind (sample_value (tr_durations trun) index (tf_default_sample_duration tfhd)
                  (tx_default_sample_duration trex)) (\<lambda>duration.
         if duration = None \<and> index + 1 < tr_sample_count trun then Inl FragmentLayoutUnsupportedError
         else
           rbind (fragment_samples trun tfhd trex (off + size')
                    (dt + (case duration of None \<Rightarrow> 0 | Some d \<Rightarrow> d)) (index + 1) n) (\<lambda>rest.
           Inr (\<lparr>fs_offset = off, fs_size = size',
                 fs_keyframe = \<not> has_flag flags' SAMPLE_IS_NON_SYNC_SAMPLE_BIT,
                 fs_decode_time = dt, fs_duration = duration\<rparr> # rest)))
     | _ \<Rightarrow> Inl FragmentLayoutUnsupportedError) = Inr samples"
    unfolding fragment_samples.simps Let_def rbind_eq_Inr by blast
  then show ?thesis
    using that by (cases sz; cases flags) (auto simp: result_simps split: if_splits)
qed

lemma fragment_samples_packed:
  "fragment_samples trun tfhd trex off dt index n = Inr samples \<Longrightarrow>
   length samples = n \<and> map fs_offset samples = starts off (map fs_size samples) \<and>
   map fs_decode_time samples = starts dt (map advance samples)"
proof (induction n arbitrary: off dt index samples)
  case 0
  then show ?case by simp
next
  case (Suc n)
  from Suc.prems show ?case
    by (rule fragment_samples_SucE) (use Suc.IH in \<open>auto simp: advance_def\<close>)
qed

text \<open>Only the last sample of a run may lack a duration.\<close>

lemma fragment_samples_durations:
  "fragment_samples trun tfhd trex off dt index n = Inr samples \<Longrightarrow>
   tr_sample_count trun = index + int n \<Longrightarrow> i + 1 < n \<Longrightarrow> fs_duration (samples ! i) \<noteq> None"
proof (induction n arbitrary: off dt index samples i)
  case 0
  then show ?case by simp
next
  case (Suc n)
  from Suc.prems(1) show ?case
  proof (rule fragment_samples_SucE)
    fix sz duration k rest
    assume rest: "fragment_samples trun tfhd trex (off + sz)
        (dt + (case duration of None \<Rightarrow> 0 | Some d \<Rightarrow> d)) (index + 1) n = Inr rest"
      and s: "samples = \<lparr>fs_offset = off, fs_size = sz, fs_keyframe = k, fs_decode_time = dt,
        fs_duration = duration\<rparr> # rest"
      and d: "\<not> (duration = None \<and> index + 1 < tr_sample_count trun)"
    show ?case
    proof (cases i)
      case 0
      with d s Suc.prems show ?thesis by auto
    next
      case (Suc j)
      with s Suc.prems Suc.IH [OF rest, of j] show ?thesis by simp
    qed
  qed
qed

section \<open>What a fragmented track satisfies\<close>

text \<open>The samples of one fragment: each follows the one before it in the file and in time, and only the
  last may lack a duration.\<close>

definition contiguous :: "fragment_sample list \<Rightarrow> bool" where
  "contiguous samples \<longleftrightarrow> samples \<noteq> [] \<and>
     map fs_offset samples = starts (fs_offset (hd samples)) (map fs_size samples) \<and>
     map fs_decode_time samples = starts (fs_decode_time (hd samples)) (map advance samples) \<and>
     (\<forall>s \<in> set (butlast samples). fs_duration s \<noteq> None)"

lemma fragment_samples_contiguous:
  assumes "fragment_samples trun tfhd trex off dt 0 (nat (tr_sample_count trun)) = Inr samples"
    and "0 < tr_sample_count trun"
  shows "contiguous samples \<and> int (length samples) = tr_sample_count trun"
proof -
  note p = fragment_samples_packed [OF assms(1)]
  then have ne: "samples \<noteq> []" using assms(2) by auto
  then obtain s rest where s: "samples = s # rest" by (cases samples) auto
  with p have hd: "fs_offset (hd samples) = off" "fs_decode_time (hd samples) = dt" by auto
  have "fs_duration x \<noteq> None" if "x \<in> set (butlast samples)" for x
  proof -
    from that obtain i where "i < length (butlast samples)" "x = butlast samples ! i"
      by (auto simp: in_set_conv_nth)
    then have "i + 1 < nat (tr_sample_count trun)" "x = samples ! i"
      using p by (auto simp: nth_butlast)
    with fragment_samples_durations [OF assms(1)] assms(2) show ?thesis by simp
  qed
  with p ne hd assms(2) show ?thesis by (auto simp: contiguous_def)
qed

lemma parse_trun_count: "parse_trun buf s e = Inr trun \<Longrightarrow> 0 < tr_sample_count trun"
  unfolding parse_trun_def Let_def rbind_eq_Inr
  by (auto simp: result_simps order_less_le dest: unpack_uint_bounds split: if_splits prod.splits)

text \<open>The fragment a row holds: its one \<^verbatim>\<open>traf\<close> has one \<^verbatim>\<open>tfhd\<close> for the track, one \<^verbatim>\<open>tfdt\<close> and one \<^verbatim>\<open>trun\<close>; the
  samples begin at the data offset from the base, which is that of the \<^verbatim>\<open>tfhd\<close> or the start of the row's box, and at
  the decode time of the \<^verbatim>\<open>tfdt\<close>; there are as many as the run declares, and the size, the flags and the duration of
  each are those of the run, of the \<^verbatim>\<open>tfhd\<close> or of the \<^verbatim>\<open>trex\<close>, in this order.\<close>

definition sample_resolved :: "track_run \<Rightarrow> tfhd_fields \<Rightarrow> trex_defaults \<Rightarrow> int \<Rightarrow> fragment_sample \<Rightarrow> bool" where
  "sample_resolved trun tfhd trex i s \<longleftrightarrow>
     sample_value (tr_sizes trun) i (tf_default_sample_size tfhd) (tx_default_sample_size trex) = Inr (Some (fs_size s)) \<and>
     sample_value (tr_durations trun) i (tf_default_sample_duration tfhd) (tx_default_sample_duration trex) = Inr (fs_duration s) \<and>
     (\<exists>flags. fs_keyframe s = (\<not> has_flag flags SAMPLE_IS_NON_SYNC_SAMPLE_BIT) \<and>
        (if i = 0 \<and> tr_first_sample_flags trun \<noteq> None then tr_first_sample_flags trun = Some flags
         else sample_value (tr_flags trun) i (tf_default_sample_flags tfhd) (tx_default_sample_flags trex) = Inr (Some flags)))"

definition fragment_of_row :: "trex_defaults \<Rightarrow> int option \<Rightarrow> int \<times> bytes \<Rightarrow> fragment_sample list \<Rightarrow> bool" where
  "fragment_of_row trex track_id row samples \<longleftrightarrow>
     (\<exists>name stop header traf_start traf_end tfhd_start tfhd_end tfhd tfdt_start tfdt_end decode_time trun_start trun_end trun data_offset.
        read_box_header (snd row) 0 (blen (snd row)) = Inr (name, stop, header) \<and>
        find_single_box (snd row) ''traf'' header stop = Inr (traf_start, traf_end) \<and>
        find_single_box (snd row) ''tfhd'' traf_start traf_end = Inr (tfhd_start, tfhd_end) \<and>
        parse_tfhd (snd row) tfhd_start tfhd_end track_id = Inr tfhd \<and>
        find_single_box (snd row) ''tfdt'' traf_start traf_end = Inr (tfdt_start, tfdt_end) \<and>
        parse_tfdt (py_slice (snd row) tfdt_start tfdt_end) 0 = Inr decode_time \<and>
        find_single_box (snd row) ''trun'' traf_start traf_end = Inr (trun_start, trun_end) \<and>
        parse_trun (snd row) trun_start trun_end = Inr trun \<and>
        tr_data_offset trun = Some data_offset \<and>
        (tf_base_data_offset tfhd = None \<longrightarrow> tf_default_base_is_moof tfhd) \<and>
        int (length samples) = tr_sample_count trun \<and>
        fs_offset (hd samples) = (case tf_base_data_offset tfhd of Some base \<Rightarrow> base | None \<Rightarrow> fst row) + data_offset \<and>
        fs_decode_time (hd samples) = decode_time \<and>
        (\<forall>i < length samples. sample_resolved trun tfhd trex (int i) (samples ! i)))"

lemma fragment_samples_resolved:
  "fragment_samples trun tfhd trex off dt index n = Inr samples \<Longrightarrow> i < n \<Longrightarrow>
   sample_resolved trun tfhd trex (index + int i) (samples ! i)"
proof (induction n arbitrary: off dt index samples i)
  case (Suc n)
  from Suc.prems(1) obtain sz0 flags0 where
    columns: "sample_value (tr_sizes trun) index (tf_default_sample_size tfhd) (tx_default_sample_size trex) = Inr sz0"
      "sample_value (tr_flags trun) index (tf_default_sample_flags tfhd) (tx_default_sample_flags trex) = Inr flags0"
    and row: "(case (sz0, if index = 0 \<and> tr_first_sample_flags trun \<noteq> None then tr_first_sample_flags trun else flags0) of
       (Some size', Some flags') \<Rightarrow>
         rbind (sample_value (tr_durations trun) index (tf_default_sample_duration tfhd)
                  (tx_default_sample_duration trex)) (\<lambda>duration.
         if duration = None \<and> index + 1 < tr_sample_count trun then Inl FragmentLayoutUnsupportedError
         else
           rbind (fragment_samples trun tfhd trex (off + size')
                    (dt + (case duration of None \<Rightarrow> 0 | Some d \<Rightarrow> d)) (index + 1) n) (\<lambda>rest.
           Inr (\<lparr>fs_offset = off, fs_size = size',
                 fs_keyframe = \<not> has_flag flags' SAMPLE_IS_NON_SYNC_SAMPLE_BIT,
                 fs_decode_time = dt, fs_duration = duration\<rparr> # rest)))
     | _ \<Rightarrow> Inl FragmentLayoutUnsupportedError) = Inr samples"
    unfolding fragment_samples.simps Let_def rbind_eq_Inr by blast
  then obtain sz flags where picked: "sz0 = Some sz"
      "(if index = 0 \<and> tr_first_sample_flags trun \<noteq> None then tr_first_sample_flags trun else flags0) = Some flags"
    by (cases sz0; cases "if index = 0 \<and> tr_first_sample_flags trun \<noteq> None then tr_first_sample_flags trun else flags0") auto
  from row obtain duration rest where
    duration: "sample_value (tr_durations trun) index (tf_default_sample_duration tfhd) (tx_default_sample_duration trex) = Inr duration"
    and rest: "fragment_samples trun tfhd trex (off + sz) (dt + (case duration of None \<Rightarrow> 0 | Some d \<Rightarrow> d)) (index + 1) n = Inr rest"
    and samples: "samples = \<lparr>fs_offset = off, fs_size = sz, fs_keyframe = \<not> has_flag flags SAMPLE_IS_NON_SYNC_SAMPLE_BIT,
       fs_decode_time = dt, fs_duration = duration\<rparr> # rest"
    unfolding picked by (auto simp: result_simps split: if_splits)
  have flags: "if index = 0 \<and> tr_first_sample_flags trun \<noteq> None then tr_first_sample_flags trun = Some flags
      else sample_value (tr_flags trun) index (tf_default_sample_flags tfhd) (tx_default_sample_flags trex) = Inr (Some flags)"
    using columns(2) picked(2) by (auto split: if_splits)
  note sz = columns(1) [unfolded picked(1)]
  show ?case
  proof (cases i)
    case 0
    then show ?thesis using sz flags duration by (auto simp: samples sample_resolved_def)
  next
    case (Suc j)
    then show ?thesis using Suc.IH [OF rest, of j] Suc.prems(2) by (simp add: samples add.assoc)
  qed
qed simp

lemma find_single_box_Inr:
  "find_single_box buf name start stop = Inr box \<Longrightarrow> find_all_boxes buf name start stop = Inr [box]"
  by (cases "find_all_boxes buf name start stop") (auto simp: find_single_box_def length_Suc_conv split: list.splits if_splits)

lemma scan_finds_single_box:
  assumes "traversal_find scope [name] t = (Inr loc, t')" "bt_buffer t = buf" "bt_scopes t = Map.empty"
    and "find_single_box buf name (sc_start scope) (sc_end scope) = Inr (s, e)"
  shows "bl_content_start loc = s \<and> bl_end loc = e"
proof -
  from assms(1,2,3) obtain locs t1 where scan: "scan_loop buf scope (sc_start scope) t = (Inr locs, t1)"
    and found: "find (\<lambda>box. bl_box_type box = name) locs = Some loc"
    by (auto simp: sbind_def scan_children_def sraise_def sreturn_def split: sum.splits prod.splits option.splits if_splits)
  have "find_all_boxes buf name (sc_start scope) (sc_end scope) = Inr [(s, e)]"
    using assms(4) by (rule find_single_box_Inr)
  then have "[(cs, ce). (ty, cs, ce) \<leftarrow> map location_box locs, ty = name] = [(s, e)]"
    using scan_loop_Inr_iter [OF scan] by (simp add: find_all_boxes_def)
  moreover have "loc \<in> set locs" "bl_box_type loc = name" using found by (auto simp: find_Some_iff)
  then have "(bl_content_start loc, bl_end loc) \<in> set [(cs, ce). (ty, cs, ce) \<leftarrow> map location_box locs, ty = name]"
    by (force simp: location_box_def)
  ultimately show ?thesis by simp
qed

lemma parse_fragment_of_row:
  fixes w :: 'w
  assumes "parse_fragment row trex handlers index track_id w = (Inr samples, w')"
  shows "contiguous samples \<and> fragment_of_row trex track_id row samples"
proof -
  obtain ms buf where row: "row = (ms, buf)" by (cases row)
  from assms obtain name bs hl ts te and t t' :: "'w box_traversal" where header: "read_box_header buf 0 (blen buf) = Inr (name, bs, hl)"
    and single: "find_single_box buf ''traf'' hl bs = Inr (ts, te)"
    and t: "make_traversal buf handlers w = Inr t"
    and body: "parse_fragment_scope ms buf trex index track_id hl bs t = (Inr samples, t')"
    by (auto simp: parse_fragment_def row Let_def result_simps split: sum.splits prod.splits)
  let ?scope = "\<lparr>sc_start = hl, sc_end = bs, sc_path = [''moof''], sc_track_id = None, sc_fragment_index = Some index\<rparr>"
  from body obtain traf t1 a b tfhd c d dt e f trun t2 where
    traf: "traversal_find ?scope [''traf''] t = (Inr traf, t1)"
    and tfhd: "find_single_box buf ''tfhd'' (bl_content_start traf) (bl_end traf) = Inr (a, b)" "parse_tfhd buf a b track_id = Inr tfhd"
    and tfdt: "find_single_box buf ''tfdt'' (bl_content_start traf) (bl_end traf) = Inr (c, d)" "parse_tfdt (py_slice buf c d) 0 = Inr dt"
    and trun: "find_single_box buf ''trun'' (bl_content_start traf) (bl_end traf) = Inr (e, f)" "parse_trun buf e f = Inr trun"
    and tail: "(if (case tr_composition_offsets trun of None \<Rightarrow> False | Some xs \<Rightarrow> list_ex (\<lambda>x. x \<noteq> 0) xs)
      then sraise CompositionOffsetUnsupportedError
      else
        sbind (case tf_base_data_offset tfhd of
                 Some base \<Rightarrow> sreturn base
               | None \<Rightarrow> if \<not> tf_default_base_is_moof tfhd then sraise FragmentLayoutUnsupportedError
                         else sreturn ms) (\<lambda>base_offset.
        case tr_data_offset trun of
          None \<Rightarrow> sraise FragmentLayoutUnsupportedError
        | Some data_offset \<Rightarrow>
            slift (fragment_samples trun tfhd trex (base_offset + data_offset) dt 0
                     (nat (tr_sample_count trun))))) t2 = (Inr samples, t')"
    unfolding parse_fragment_scope_def Let_def
    by (simp only: sbind_Pair_Inr slift_Pair split_paired_Ex prod.case) (elim exE conjE, metis)
  from tail obtain off base where
    base: "tf_base_data_offset tfhd = Some base \<or> tf_base_data_offset tfhd = None \<and> tf_default_base_is_moof tfhd \<and> base = ms"
    and off: "tr_data_offset trun = Some off"
    and samples: "fragment_samples trun tfhd trex (base + off) dt 0 (nat (tr_sample_count trun)) = Inr samples"
    by (cases "tf_base_data_offset tfhd"; cases "tr_data_offset trun")
      (auto simp: sbind_Pair_Inr slift_Pair sraise_Pair sreturn_Pair split: if_splits)
  have at: "bl_content_start traf = ts" "bl_end traf = te"
    using scan_finds_single_box [OF traf _ _ , of buf ts te] t single by (auto simp: make_traversal_def result_simps)
  note count = parse_trun_count [OF trun(2)]
  have cont: "contiguous samples" "int (length samples) = tr_sample_count trun" using fragment_samples_contiguous [OF samples count] by auto
  have packed: "map fs_offset samples = starts (base + off) (map fs_size samples)" "map fs_decode_time samples = starts dt (map advance samples)"
    using fragment_samples_packed [OF samples] by auto
  have first: "fs_offset (hd samples) = base + off" "fs_decode_time (hd samples) = dt"
    using packed cont(1) by (cases samples; simp add: contiguous_def)+
  have "sample_resolved trun tfhd trex (int i) (samples ! i)" if "i < length samples" for i
    using fragment_samples_resolved [OF samples, of i] that cont(2) by simp
  then have "fragment_of_row trex track_id row samples"
    unfolding fragment_of_row_def row
    using header single tfhd tfdt trun off base cont(2) first unfolding at by (cases "tf_base_data_offset tfhd") fastforce+
  then show ?thesis using cont(1) by blast
qed

lemma parse_fragments_groups:
  "parse_fragments rows trex handlers index track_id w = (Inr samples, w') \<Longrightarrow>
   \<exists>groups. samples = concat groups \<and> list_all2 (\<lambda>row g. contiguous g \<and> fragment_of_row trex track_id row g) rows groups"
proof (induction rows arbitrary: index w samples)
  case Nil
  then show ?case by simp
next
  case (Cons row rows)
  then obtain g w1 rest where g: "parse_fragment row trex handlers index track_id w = (Inr g, w1)"
    and rest: "parse_fragments rows trex handlers (index + 1) track_id w1 = (Inr rest, w')"
    and s: "samples = g @ rest"
    by (auto split: prod.splits sum.splits)
  from Cons.IH [OF rest] obtain groups where
    "rest = concat groups" "list_all2 (\<lambda>row g. contiguous g \<and> fragment_of_row trex track_id row g) rows groups" by blast
  with s parse_fragment_of_row [OF g] show ?case by (intro exI [of _ "g # groups"]) simp
qed

lemma fragment_moov_result:
  assumes "fragment_moov_op buf scope t = (Inr (track, trex, track_id), t')"
  shows "vt_composition_offsets track = None \<and> parse_trex_defaults buf (sc_start scope) (sc_end scope) = Inr trex \<and>
    (\<exists>trak_scope stbl_scope stsd_scope fourcc.
       video_track_scopes buf scope = Inr (trak_scope, stbl_scope, stsd_scope, fourcc) \<and> track_id = sc_track_id trak_scope)"
  using assms unfolding fragment_moov_op_def
  by (auto simp: sbind_Pair_Inr slift_Pair sreturn_Pair simp del: traversal_find.simps split: prod.splits) metis+

section \<open>Properties\<close>

text \<open>C38: The samples of a decoded fragmented track are those of its rows in order, one group per row. The
  group of a row is what its \<^verbatim>\<open>traf\<close> says, with the defaults of the \<^verbatim>\<open>moov\<close> for its video track: it begins at the
  run's data offset from the base of the fragment and at its decode time, and has the declared number of samples with
  their sizes, flags and durations. Within a group every sample starts at the byte where the one before it ends and at
  the tick the one before it lasts to, and only the last sample of a group may have no duration of its own. The track's
  columns are exactly these samples, there is at least one, every one has a keyframe flag, and the duration is the span
  of the decode times plus the last sample's duration.\<close>

theorem parse_fragment_table_contiguous:
  fixes w :: 'w
  assumes "parse_fragment_table moov_bytes moof_rows uuid_handlers w = (Inr track, w')"
  shows "\<exists>groups trex moov_start moov_end trak_scope stbl_scope stsd_scope fourcc.
    read_box_header moov_bytes 0 (blen moov_bytes) = Inr (''moov'', moov_end, moov_start) \<and>
    parse_trex_defaults moov_bytes moov_start moov_end = Inr trex \<and>
    video_track_scopes moov_bytes (moov_scope_of moov_start moov_end) = Inr (trak_scope, stbl_scope, stsd_scope, fourcc) \<and>
    list_all2 (\<lambda>row g. contiguous g \<and> fragment_of_row trex (sc_track_id trak_scope) row g) moof_rows groups \<and> groups \<noteq> [] \<and>
    vt_offset track = map fs_offset (concat groups) \<and> vt_size track = map fs_size (concat groups) \<and>
    vt_dts_ticks track = map fs_decode_time (concat groups) \<and>
    vt_is_keyframe track = Some (map fs_keyframe (concat groups)) \<and>
    vt_composition_offsets track = None \<and>
    vt_duration track = duration_from_decode_times (map fs_decode_time (concat groups))
      (map fs_duration (concat groups))"
proof -
  from assms have raw: "parse_fragment_table_raw moov_bytes moof_rows uuid_handlers w = (Inr track, w')"
    by (auto simp: parse_fragment_table_def split: prod.splits sum.splits)
  then obtain ms me track0 trex track_id samples w1 and t t' :: "'w box_traversal" where
    header: "read_box_header moov_bytes 0 (blen moov_bytes) = Inr (''moov'', me, ms)"
    and moov: "fragment_moov_op moov_bytes (moov_scope_of ms me) t = (Inr (track0, trex, track_id), t')"
    and frags: "parse_fragments moof_rows trex uuid_handlers 0 track_id w1 = (Inr samples, w')"
    and track: "fragment_track track0 samples = Inr track"
    by (auto simp: parse_fragment_table_raw_def result_simps split: prod.splits sum.splits if_splits)
  from fragment_moov_result [OF moov] obtain trak_scope stbl_scope stsd_scope fourcc where none: "vt_composition_offsets track0 = None"
    and trex: "parse_trex_defaults moov_bytes ms me = Inr trex"
    and scopes: "video_track_scopes moov_bytes (moov_scope_of ms me) = Inr (trak_scope, stbl_scope, stsd_scope, fourcc)" "track_id = sc_track_id trak_scope"
    by (auto simp: moov_scope_of_def)
  obtain groups where groups: "samples = concat groups"
    "list_all2 (\<lambda>row g. contiguous g \<and> fragment_of_row trex track_id row g) moof_rows groups"
    using parse_fragments_groups [OF frags] by blast
  have "groups \<noteq> [] \<and> vt_offset track = map fs_offset (concat groups) \<and> vt_size track = map fs_size (concat groups) \<and>
    vt_dts_ticks track = map fs_decode_time (concat groups) \<and>
    vt_is_keyframe track = Some (map fs_keyframe (concat groups)) \<and>
    vt_composition_offsets track = None \<and>
    vt_duration track = duration_from_decode_times (map fs_decode_time (concat groups)) (map fs_duration (concat groups))"
    using track none groups(1)
    by (auto simp: fragment_track_def make_video_track_def nonempty_sample_table_def result_simps split: if_splits)
  with header trex scopes groups(2) show ?thesis by blast
qed

definition sample_fragment_moov :: bytes where
  "sample_fragment_moov = write_box (False, ''moov'',
     write_box (False, ''mvhd'', []) @
     write_box (False, ''trak'',
       write_box (False, ''tkhd'', []) @
       write_box (False, ''mdia'',
         write_box (False, ''mdhd'', []) @
         write_box (False, ''minf'', write_box (False, ''stbl'',
           full_box ''stsd'' (be_bytes 4 1 @ be_bytes 4 86 @ encode_ascii ''avc1''))))) @
     write_box (False, ''free'', replicate 70 0))"

definition sample_moof :: bytes where
  "sample_moof = write_box (False, ''moof'', write_box (False, ''traf'',
     write_box (False, ''tfhd'', be_bytes 4 0x020038 @ encode_ascii ''mdhd'' @
       be_bytes 4 512 @ be_bytes 4 100 @ be_bytes 4 0) @
     full_box ''tfdt'' (be_bytes 4 7) @
     write_box (False, ''trun'', be_bytes 4 1 @ be_bytes 4 2 @ be_bytes 4 80)))"

theorem parse_fragment_table_contiguous_witness:
  "\<exists>track trex track_id g. parse_fragment_table sample_fragment_moov [(5000, sample_moof)] no_handlers () = (Inr track, ()) \<and>
     vt_offset track = [5080, 5180] \<and> vt_dts_ticks track = [7, 519] \<and>
     contiguous g \<and> fragment_of_row trex track_id (5000, sample_moof) g \<and> vt_offset track = map fs_offset g"
proof -
  let ?run = "parse_fragment_table sample_fragment_moov [(5000, sample_moof)] no_handlers ()"
  have "map_sum id (\<lambda>t. (vt_offset t, vt_dts_ticks t)) (fst ?run) = Inr ([5080, 5180], [7, 519])"
    by code_simp
  then obtain track where run: "?run = (Inr track, ())"
    and "vt_offset track = [5080, 5180]" "vt_dts_ticks track = [7, 519]"
    by (cases ?run; cases "fst ?run") auto
  with parse_fragment_table_contiguous [OF run] show ?thesis by (fastforce simp: list_all2_Cons1)
qed

end
