(* ===== verification/BinaryFile.thy ===== *)
theory BinaryFile
  imports Bytes
begin

text \<open>
  The contract of a readable binary stream, as its clients rely on it: a read returns the bytes from
  the current position on, no more than asked for, fewer only at the end, and moves past them; a read
  that raises may leave any position but keeps the stream usable. \<open>binary_file\<close> is interpreted by
  the sparse file of \<^verbatim>\<open>box_probe.py\<close> and by the caching reader of \<^verbatim>\<open>block_cache_reader.py\<close>.
\<close>

datatype whence = SEEK_SET | SEEK_CUR | SEEK_END | SEEK_OTHER

text \<open>The client loop \<^verbatim>\<open>while chunk := handle.read(n)\<close>: the non-empty results in order, for at most
  \<open>fuel\<close> calls.\<close>

fun read_chunks ::
  "(int \<Rightarrow> 's \<Rightarrow> ('e + bytes) \<times> 's) \<Rightarrow> int \<Rightarrow> nat \<Rightarrow> 's \<Rightarrow> ('e + bytes list) \<times> 's" where
  "read_chunks read n 0 s = (Inr [], s)"
| "read_chunks read n (Suc fuel) s =
     sbind (read n) (\<lambda>chunk.
       if chunk = [] then sreturn []
       else sbind (read_chunks read n fuel) (\<lambda>chunks. sreturn (chunk # chunks))) s"

locale binary_file =
  fixes read :: "int \<Rightarrow> 's \<Rightarrow> ('e + bytes) \<times> 's"
    and position :: "'s \<Rightarrow> nat" and ok :: "'s \<Rightarrow> bool" and content :: bytes
  assumes read_data: "ok s \<Longrightarrow> 0 \<le> n \<Longrightarrow> read n s = (Inr data, s') \<Longrightarrow>
      data = take (nat n) (drop (position s) content) \<and> position s' = position s + length data"
    and read_ok: "ok s \<Longrightarrow> 0 \<le> n \<Longrightarrow> ok (snd (read n s))"
begin

lemma read_chunks_ok: "ok s \<Longrightarrow> 0 \<le> n \<Longrightarrow> ok (snd (read_chunks read n fuel s))"
proof (induction fuel arbitrary: s)
  case 0
  then show ?case by simp
next
  case (Suc fuel)
  obtain r s1 where r: "read n s = (r, s1)" by (cases "read n s")
  with read_ok [OF Suc.prems] have "ok s1" by simp
  with Suc.IH [of s1] Suc.prems show ?case
    by (auto simp: sbind_def sreturn_def r split: sum.splits prod.splits)
qed

text \<open>Reading in pieces delivers the rest of the content, in non-empty pieces.\<close>

lemma read_chunks_content:
  "ok s \<Longrightarrow> 0 < n \<Longrightarrow> length content - position s < fuel \<Longrightarrow>
   read_chunks read n fuel s = (Inr chunks, s') \<Longrightarrow>
   concat chunks = drop (position s) content \<and> [] \<notin> set chunks"
proof (induction fuel arbitrary: s chunks)
  case 0
  then show ?case by simp
next
  case (Suc fuel)
  from Suc.prems(4) obtain data s1 where r: "read n s = (Inr data, s1)"
    and rest: "(if data = [] then sreturn []
       else sbind (read_chunks read n fuel) (\<lambda>chunks. sreturn (data # chunks))) s1 = (Inr chunks, s')"
    by (auto simp: result_simps)
  have data: "data = take (nat n) (drop (position s) content)" "position s1 = position s + length data"
    using read_data [OF Suc.prems(1) _ r] Suc.prems(2) by auto
  have "ok s1" using read_ok [OF Suc.prems(1), of n] r Suc.prems(2) by simp
  show ?case
  proof (cases "data = []")
    case True
    with data Suc.prems(2) have "drop (position s) content = []" by auto
    with True rest show ?thesis by (simp add: result_simps)
  next
    case False
    with rest obtain more where m: "read_chunks read n fuel s1 = (Inr more, s')" "chunks = data # more"
      by (auto simp: result_simps)
    have "0 < length data" "position s < length content" using False data(1) by auto
    then have "length content - position s1 < fuel" using data(2) Suc.prems(3) by linarith
    with Suc.IH [OF \<open>ok s1\<close> Suc.prems(2) _ m(1)]
    have "concat more = drop (position s1) content" "[] \<notin> set more" by auto
    moreover have "drop (position s) content = data @ drop (position s1) content"
      using data by (metis append_take_drop_id drop_drop add.commute length_take drop_take min.commute
          append_eq_conv_conj)
    ultimately show ?thesis using False m(2) by simp
  qed
qed

end

text \<open>A seekable stream: an absolute seek lands where it was told, or, past the end, on the end if the
  stream clamps; a seek to the end returns the size. Seeks that raise keep the stream usable.\<close>

locale seekable_file = binary_file read position ok content
  for read :: "int \<Rightarrow> 's \<Rightarrow> ('e + bytes) \<times> 's"
    and position :: "'s \<Rightarrow> nat" and ok :: "'s \<Rightarrow> bool" and content :: bytes +
  fixes seek :: "int \<Rightarrow> whence \<Rightarrow> 's \<Rightarrow> ('e + int) \<times> 's"
  assumes seek_set: "ok s \<Longrightarrow> 0 \<le> k \<Longrightarrow> seek k SEEK_SET s = (Inr p, s') \<Longrightarrow>
      p = int (position s') \<and> (p = k \<or> blen content \<le> k \<and> p = blen content)"
    and seek_end: "ok s \<Longrightarrow> seek 0 SEEK_END s = (Inr p, s') \<Longrightarrow>
      p = blen content \<and> position s' = length content"
    and seek_set_ok: "ok s \<Longrightarrow> 0 \<le> k \<Longrightarrow> ok (snd (seek k SEEK_SET s))"
    and seek_end_ok: "ok s \<Longrightarrow> ok (snd (seek 0 SEEK_END s))"

end
