(* ===== verification/BoxProbe.thy ===== *)
theory BoxProbe
  imports MoovTrack BinaryFile
begin

text \<open>
  \<^verbatim>\<open>core/sensors/mp4/box_probe.py\<close>: the sparse file that stands for the source when its extracted boxes
  are probed, its layout, the check of the frames' byte ranges, and the choice of the \<^verbatim>\<open>trak\<close> libav
  names. What libav itself computes is not modelled. The lemmas show that the sparse file reads as
  the plain file it describes, and that this file is a sequence of whole boxes.
\<close>

section \<open>Definitions\<close>

definition BOX_HEADER_BYTES :: int where "BOX_HEADER_BYTES = 8"
definition ZEROS_LEN :: int where "ZEROS_LEN = 1048576"
definition LIBAV_TIMESCALE_LIMIT :: int where "LIBAV_TIMESCALE_LIMIT = 2147483648"

definition filler_box_header :: "string \<Rightarrow> int \<Rightarrow> bytes res" where
  "filler_box_header box_type sz =
     (if sz < BOX_HEADER_BYTES then Inl BoxLayoutUnsupportedError
      else if sz < 2 ^ 32 then Inr (be_bytes 4 sz @ encode_ascii box_type)
      else if sz < 2 ^ 64 then Inr (be_bytes 4 1 @ encode_ascii box_type @ be_bytes 8 sz)
      else Inl StructError)"

text \<open>\<^verbatim>\<open>_SparseFile\<close>. Its \<^verbatim>\<open>_starts\<close> are the first components of the segments.\<close>

type_synonym segment = "int \<times> bytes"

record sparse_file =
  sf_size :: int
  sf_segments :: "segment list"
  sf_position :: int

definition make_sparse_file :: "int \<Rightarrow> segment list \<Rightarrow> sparse_file" where
  "make_sparse_file sz segments = \<lparr>sf_size = sz, sf_segments = segments, sf_position = 0\<rparr>"

definition sf_tell :: "sparse_file \<Rightarrow> int" where
  "sf_tell f = sf_position f"

text \<open>The result is \<open>None\<close> where the dictionary of the three bases raises \<^verbatim>\<open>KeyError\<close>.\<close>

definition sf_seek :: "int \<Rightarrow> whence \<Rightarrow> sparse_file \<Rightarrow> int option \<times> sparse_file" where
  "sf_seek offset wh f =
     (case (case wh of SEEK_SET \<Rightarrow> Some 0 | SEEK_CUR \<Rightarrow> Some (sf_position f)
            | SEEK_END \<Rightarrow> Some (sf_size f) | SEEK_OTHER \<Rightarrow> None) of
        None \<Rightarrow> (None, f)
      | Some base \<Rightarrow>
          let position = max (base + offset) 0 in (Some position, f\<lparr>sf_position := position\<rparr>))"

text \<open>\<^verbatim>\<open>bisect.bisect_right\<close> on a list: the standard library's binary search.\<close>

function bisect_right_loop :: "int list \<Rightarrow> int \<Rightarrow> nat \<Rightarrow> nat \<Rightarrow> nat" where
  "bisect_right_loop xs x lo hi =
     (if lo < hi then
        let mid = (lo + hi) div 2 in
        if x < xs ! mid then bisect_right_loop xs x lo mid else bisect_right_loop xs x (mid + 1) hi
      else lo)"
  by pat_completeness auto
termination by (relation "measure (\<lambda>(xs, x, lo, hi). hi - lo)") auto

declare bisect_right_loop.simps [simp del]

definition bisect_right :: "int list \<Rightarrow> int \<Rightarrow> nat" where
  "bisect_right xs x = bisect_right_loop xs x 0 (length xs)"

text \<open>\<^verbatim>\<open>view[i:i + len(data)] = data\<close> inside the view.\<close>

definition write_view :: "bytes \<Rightarrow> int \<Rightarrow> bytes \<Rightarrow> bytes" where
  "write_view view i data = take (nat i) view @ data @ drop (nat i + length data) view"

text \<open>The inner loop: zeros from \<open>filled\<close> up to \<open>zeros_end\<close>, a megabyte at a time.\<close>

function fill_zeros :: "int \<Rightarrow> int \<Rightarrow> int \<Rightarrow> bytes \<Rightarrow> bytes \<times> int" where
  "fill_zeros start zeros_end filled view =
     (if filled < zeros_end then
        let step = min (zeros_end - filled) ZEROS_LEN
        in fill_zeros start zeros_end (filled + step)
             (write_view view (filled - start) (replicate (nat step) 0))
      else (view, filled))"
  by pat_completeness auto
termination
  by (relation "measure (\<lambda>(start, zeros_end, filled, view). nat (zeros_end - filled))")
    (auto simp: ZEROS_LEN_def)

declare fill_zeros.simps [simp del]

lemma fill_zeros_filled: "snd (fill_zeros start ze filled view) = max ze filled"
proof (induction "nat (ze - filled)" arbitrary: filled view rule: less_induct)
  case less
  show ?case
  proof (cases "filled < ze")
    case True
    let ?step = "min (ze - filled) ZEROS_LEN"
    have "0 < ?step" using True by (simp add: ZEROS_LEN_def)
    with True less.hyps [of "filled + ?step"] show ?thesis
      by (subst fill_zeros.simps) (simp add: Let_def)
  qed (simp add: fill_zeros.simps)
qed

text \<open>The outer loop of \<^verbatim>\<open>readinto\<close>: the view when \<open>filled\<close> reaches \<open>stop\<close>.\<close>

function fill_view :: "segment list \<Rightarrow> int \<Rightarrow> int \<Rightarrow> nat \<Rightarrow> int \<Rightarrow> bytes \<Rightarrow> bytes" where
  "fill_view segments start stop index filled view =
     (if filled < stop then
        let (segment_start, data) = (if index < length segments then segments ! index else (stop, []));
            segment_end = segment_start + blen data in
        if segment_end \<le> filled then fill_view segments start stop (index + 1) filled view
        else
          let (view1, filled1) = fill_zeros start (min (max segment_start filled) stop) filled view;
              copy_end = min segment_end stop in
          if filled1 < copy_end then
            fill_view segments start stop (index + 1) copy_end
              (write_view view1 (filled1 - start)
                 (py_slice data (filled1 - segment_start) (copy_end - segment_start)))
          else fill_view segments start stop (index + 1) filled1 view1
      else view)"
  by pat_completeness auto
termination
proof (relation "measure (\<lambda>(segments, start, stop, index, filled, view).
    if filled < stop then Suc (length segments - index) else 0)", goal_cases)
  case (3 segments start stop index filled view x xa y xb xc xd xe xf)
  then show ?case using fill_zeros_filled [of start "min (max xa filled) stop" filled view]
    by (auto split: if_splits)
next
  case (4 segments start stop index filled view x xa y xb xc xd xe xf)
  then show ?case using fill_zeros_filled [of start "min (max xa filled) stop" filled view]
    by (auto split: if_splits)
qed (auto split: if_splits)

declare fill_view.simps [simp del]

definition sf_readinto :: "bytes \<Rightarrow> sparse_file \<Rightarrow> (int \<times> bytes) \<times> sparse_file" where
  "sf_readinto view f =
     (let start = sf_position f; stop = min (start + blen view) (sf_size f) in
      if stop \<le> start then ((0, view), f)
      else
        let index = nat (max (int (bisect_right (map fst (sf_segments f)) start) - 1) 0)
        in ((stop - start, fill_view (sf_segments f) start stop index start view),
            f\<lparr>sf_position := stop\<rparr>))"

text \<open>\<^verbatim>\<open>boxes_only_stream\<close>: the segments, or the layout error.\<close>

fun moof_segments :: "segment list \<Rightarrow> int list \<Rightarrow> segment list res" where
  "moof_segments ((start, moof_bytes) # rows) (next_start # boundaries) =
     (let gap = next_start - start - blen moof_bytes in
      if gap < 0 then Inl BoxLayoutUnsupportedError
      else
        rbind (if gap \<noteq> 0 then rbind (filler_box_header ''mdat'' gap) (\<lambda>h. Inr [(start + blen moof_bytes, h)])
               else Inr []) (\<lambda>filler.
        rbind (moof_segments rows boundaries) (\<lambda>segments.
        Inr ((start, moof_bytes) # filler @ segments))))"
| "moof_segments _ _ = Inr []"

definition boxes_only_stream :: "int \<Rightarrow> bytes \<Rightarrow> segment list \<Rightarrow> sparse_file res" where
  "boxes_only_stream file_size moov_bytes moof_rows =
     (let boundaries = map fst moof_rows @ [file_size];
          gap = hd boundaries - blen moov_bytes in
      if hd boundaries < blen moov_bytes then Inl BoxLayoutUnsupportedError
      else
        rbind (if gap \<noteq> 0 then rbind (filler_box_header ''free'' gap) (\<lambda>h. Inr [(blen moov_bytes, h)])
               else Inr []) (\<lambda>filler.
        rbind (moof_segments moof_rows (tl boundaries)) (\<lambda>segments.
        Inr (make_sparse_file file_size ((0, moov_bytes) # filler @ segments)))))"

text \<open>\<^verbatim>\<open>check_frame_byte_ranges\<close> on the frames' \<open>int64\<close> offset and size columns, frame by frame.\<close>

definition frame_range_invalid :: "int \<Rightarrow> int \<times> int \<Rightarrow> bool" where
  "frame_range_invalid file_size = (\<lambda>(offset, sz).
     let remaining = wrap_i64 (file_size - max offset 0)
     in offset < 0 \<or> sz < 0 \<or> sz > remaining)"

definition check_frame_byte_ranges :: "(int \<times> int) list \<Rightarrow> int \<Rightarrow> unit res" where
  "check_frame_byte_ranges frames file_size =
     (if \<not> is_i64 file_size then Inl OverflowError
      else if list_ex (frame_range_invalid file_size) frames then Inl InvalidFrameByteRangeError
      else Inr ())"

record trak_boxes =
  tb_timescale :: int
  tb_elst_bytes :: "bytes option"

fun matching_traks :: "bytes \<Rightarrow> int \<Rightarrow> (int \<times> int) list \<Rightarrow> (int \<times> int) list res" where
  "matching_traks buf track_id [] = Inr []"
| "matching_traks buf track_id ((trak_start, trak_end) # traks) =
     rbind (trak_track_id buf trak_start trak_end) (\<lambda>found.
     rbind (matching_traks buf track_id traks) (\<lambda>rest.
     Inr (if found = track_id then (trak_start, trak_end) # rest else rest)))"

definition trak_boxes_raw :: "bytes \<Rightarrow> int \<Rightarrow> trak_boxes res" where
  "trak_boxes_raw moov_bytes track_id =
     rbind (read_box_header moov_bytes 0 (blen moov_bytes)) (\<lambda>(_, box_size, header_len).
     rbind (find_all_boxes moov_bytes ''trak'' header_len box_size) (\<lambda>traks.
     rbind (matching_traks moov_bytes track_id traks) (\<lambda>found.
     case found of
       [(trak_start, trak_end)] \<Rightarrow>
         rbind (find_box moov_bytes [''mdia'', ''mdhd''] trak_start trak_end) (\<lambda>(mdhd_start, mdhd_end).
         rbind (case find_box moov_bytes [''edts''] trak_start trak_end of
                  Inl e \<Rightarrow> if e = BoxNotFoundError then Inr None else Inl e
                | Inr (edts_start, edts_end) \<Rightarrow> find_box_bytes moov_bytes ''elst'' edts_start edts_end)
           (\<lambda>elst_bytes.
         rbind (MediaHeader_parse moov_bytes mdhd_start mdhd_end) (\<lambda>mdhd.
         Inr \<lparr>tb_timescale = md_timescale mdhd, tb_elst_bytes = elst_bytes\<rparr>)))
     | _ \<Rightarrow> Inl BoxProbeMismatchError)))"

definition trak_boxes_of :: "bytes \<Rightarrow> int \<Rightarrow> trak_boxes res" where
  "trak_boxes_of moov_bytes track_id =
     (case trak_boxes_raw moov_bytes track_id of
        Inl e \<Rightarrow> Inl (if e \<in> {StructError, IndexError} then MalformedBoxHeaderError else e)
      | Inr t \<Rightarrow> Inr t)"

text \<open>The test \<^verbatim>\<open>not 0 < trak.timescale < _LIBAV_TIMESCALE_LIMIT\<close> of \<^verbatim>\<open>_index_best_video_stream\<close>.\<close>

definition check_timescale :: "trak_boxes \<Rightarrow> unit res" where
  "check_timescale trak =
     rguard (0 < tb_timescale trak \<and> tb_timescale trak < LIBAV_TIMESCALE_LIMIT) UnsupportedTimescaleError"

section \<open>The plain file a sparse file describes\<close>

fun render :: "int \<Rightarrow> segment list \<Rightarrow> int \<Rightarrow> bytes" where
  "render p [] sz = replicate (nat (sz - p)) 0"
| "render p ((s, d) # segments) sz = replicate (nat (s - p)) 0 @ d @ render (s + blen d) segments sz"

fun segments_ok :: "int \<Rightarrow> segment list \<Rightarrow> int \<Rightarrow> bool" where
  "segments_ok p [] sz \<longleftrightarrow> p \<le> sz"
| "segments_ok p ((s, d) # segments) sz \<longleftrightarrow> p \<le> s \<and> segments_ok (s + blen d) segments sz"

definition sparse_content :: "sparse_file \<Rightarrow> bytes" where
  "sparse_content f = render 0 (sf_segments f) (sf_size f)"

definition sparse_ok :: "sparse_file \<Rightarrow> bool" where
  "sparse_ok f \<longleftrightarrow> segments_ok 0 (sf_segments f) (sf_size f) \<and> 0 \<le> sf_position f"

lemma segments_ok_le: "segments_ok p segments sz \<Longrightarrow> p \<le> sz"
  by (induction p segments sz rule: segments_ok.induct) auto

lemma length_render: "segments_ok p segments sz \<Longrightarrow> blen (render p segments sz) = sz - p"
  by (induction p segments sz rule: render.induct) auto

lemma write_view_append:
  "0 \<le> i \<Longrightarrow> nat i \<le> length view \<Longrightarrow> j = i + blen X \<Longrightarrow>
   write_view (write_view view i X) j Y = write_view view i (X @ Y)"
  by (simp add: write_view_def nat_add_distrib ac_simps)

lemma write_view_Nil [simp]: "write_view view i [] = view"
  by (simp add: write_view_def)

lemma length_write_view: "nat i + length X \<le> length view \<Longrightarrow> length (write_view view i X) = length view"
  by (simp add: write_view_def)

lemma fill_zeros_eq:
  "start \<le> filled \<Longrightarrow> ze - start \<le> blen view \<Longrightarrow>
   fill_zeros start ze filled view = (write_view view (filled - start) (replicate (nat (ze - filled)) 0), max ze filled)"
proof (induction "nat (ze - filled)" arbitrary: filled view rule: less_induct)
  case less
  show ?case
  proof (cases "filled < ze")
    case False
    then show ?thesis by (subst fill_zeros.simps) (simp add: max_def)
  next
    case True
    define step where "step = min (ze - filled) ZEROS_LEN"
    have step: "0 < step" "step \<le> ze - filled" using True by (auto simp: step_def ZEROS_LEN_def)
    let ?v = "write_view view (filled - start) (replicate (nat step) 0)"
    have len: "blen ?v = blen view"
      using step less.prems by (subst length_write_view) auto
    have "fill_zeros start ze filled view = fill_zeros start ze (filled + step) ?v"
      using True by (subst fill_zeros.simps) (simp add: step_def Let_def)
    also have "\<dots> = (write_view ?v (filled + step - start) (replicate (nat (ze - (filled + step))) 0),
        max ze (filled + step))"
      by (rule less.hyps) (use step less.prems len in auto)
    also have "write_view ?v (filled + step - start) (replicate (nat (ze - (filled + step))) 0) =
        write_view view (filled - start) (replicate (nat (ze - filled)) 0)"
    proof (subst write_view_append)
      have "nat step + nat (ze - (filled + step)) = nat (ze - filled)" using step by simp
      then show "write_view view (filled - start)
            (replicate (nat step) 0 @ replicate (nat (ze - (filled + step))) 0) =
          write_view view (filled - start) (replicate (nat (ze - filled)) 0)"
        by (simp flip: replicate_add)
    qed (use step less.prems in auto)
    finally show ?thesis using step by (simp add: max_def)
  qed
qed

lemma render_drop_past:
  "segments_ok p ((s, d) # segments) sz \<Longrightarrow> s + blen d \<le> filled \<Longrightarrow>
   drop (nat (filled - p)) (render p ((s, d) # segments) sz) =
     drop (nat (filled - (s + blen d))) (render (s + blen d) segments sz)"
proof -
  assume ok: "segments_ok p ((s, d) # segments) sz" and le: "s + blen d \<le> filled"
  then have "nat (filled - p) = nat (s - p) + length d + nat (filled - (s + blen d))" by auto
  then show ?thesis by simp
qed

lemma render_drop_in:
  "segments_ok p ((s, d) # segments) sz \<Longrightarrow> p \<le> filled \<Longrightarrow> filled \<le> s + blen d \<Longrightarrow>
   drop (nat (filled - p)) (render p ((s, d) # segments) sz) =
     replicate (nat (s - filled)) 0 @ drop (nat (filled - s)) d @ render (s + blen d) segments sz"
proof -
  assume ok: "segments_ok p ((s, d) # segments) sz" and le: "p \<le> filled" "filled \<le> s + blen d"
  show ?thesis
  proof (cases "filled \<le> s")
    case True
    then have "nat (s - p) - nat (filled - p) = nat (s - filled)" using le by simp
    with True le show ?thesis by simp
  next
    case False
    then have "nat (filled - p) - nat (s - p) = nat (filled - s)" "nat (s - p) \<le> nat (filled - p)"
      using ok le by auto
    with False le show ?thesis by simp
  qed
qed

text \<open>What is still to be written from \<open>filled\<close> up to \<open>stop\<close>.\<close>

abbreviation missing :: "int \<Rightarrow> segment list \<Rightarrow> int \<Rightarrow> int \<Rightarrow> int \<Rightarrow> bytes" where
  "missing p segments sz filled stop \<equiv>
     take (nat (stop - filled)) (drop (nat (filled - p)) (render p segments sz))"

lemma missing_segment:
  assumes ok: "segments_ok p ((s, d) # segments) sz"
    and "p \<le> filled" "filled < stop" "filled < s + blen d" "stop \<le> sz"
    and z: "z = min (max s filled) stop" and ce: "ce = min (s + blen d) stop"
  shows "missing p ((s, d) # segments) sz filled stop =
    replicate (nat (z - filled)) 0 @
    (if z < ce then py_slice d (z - s) (ce - s) @ missing (s + blen d) segments sz ce stop
     else missing (s + blen d) segments sz z stop)"
proof -
  let ?rest = "render (s + blen d) segments sz"
  have m: "missing p ((s, d) # segments) sz filled stop =
      take (nat (stop - filled)) (replicate (nat (s - filled)) 0 @ drop (nat (filled - s)) d @ ?rest)"
    using render_drop_in [OF ok, of filled] assms(2,4) by (simp only: less_imp_le)
  consider "stop \<le> s" | "s < stop" "stop \<le> s + blen d" | "s < stop" "s + blen d < stop" by linarith
  then show ?thesis
  proof cases
    case 1
    then have zz: "z = stop" "ce = stop" using assms(3) by (auto simp: z ce)
    have "nat (stop - filled) \<le> nat (s - filled)" using 1 by simp
    then show ?thesis unfolding m zz by (simp add: min_absorb1)
  next
    case 2
    have zz: "z = max s filled" "ce = stop" "z < ce" using 2 assms(3) by (auto simp: z ce)
    have "py_slice d (z - s) (ce - s) = take (nat (stop - z)) (drop (nat (filled - s)) d)"
      using zz assms(3) 2 by (auto simp: py_slice_nonneg max_def)
    moreover have "nat (stop - filled) - nat (s - filled) = nat (stop - z)" "nat (s - filled) = nat (z - filled)"
      "nat (s - filled) \<le> nat (stop - filled)"
      using zz 2 assms(3) by (auto simp: max_def)
    moreover have "nat (stop - z) \<le> length (drop (nat (filled - s)) d)"
      using zz(1) 2 assms(4) by auto
    ultimately show ?thesis using zz(2,3) unfolding m by simp
  next
    case 3
    have zz: "z = max s filled" "ce = s + blen d" using 3 assms(3) by (auto simp: z ce)
    have sl: "py_slice d (z - s) (ce - s) = drop (nat (filled - s)) d" if "z < ce"
      using zz that by (auto simp: py_slice_nonneg max_def)
    have len: "nat (stop - filled) - nat (s - filled) - (length d - nat (filled - s)) = nat (stop - (s + blen d))"
      "nat (s - filled) = nat (z - filled)" "nat (s - filled) \<le> nat (stop - filled)"
      "length d - nat (filled - s) \<le> nat (stop - filled) - nat (s - filled)"
      using zz 3 assms(3,4) by (auto simp: max_def)
    have "missing p ((s, d) # segments) sz filled stop =
        replicate (nat (z - filled)) 0 @ drop (nat (filled - s)) d @ take (nat (stop - (s + blen d))) ?rest"
      using len unfolding m by simp
    moreover have "drop (nat (filled - s)) d = [] \<and> z = s + blen d" if "\<not> z < ce"
      using that zz assms(4) by (auto simp: max_def split: if_splits)
    ultimately show ?thesis using sl zz(2) by auto
  qed
qed

lemma fill_view_eq:
  assumes "segments_ok p (drop index segments) sz" "p \<le> filled \<or> filled = stop" "filled \<le> stop" "stop \<le> sz"
    and "start \<le> filled" "stop - start \<le> blen view"
  shows "fill_view segments start stop index filled view =
    write_view view (filled - start) (missing p (drop index segments) sz filled stop)"
  using assms
proof (induction "length segments - index" arbitrary: p index filled view)
  case 0
  then have rest: "drop index segments = []" by simp
  show ?case
  proof (cases "filled < stop")
    case False
    with 0 show ?thesis by (subst fill_view.simps) simp
  next
    case True
    have "fill_view segments start stop index filled view =
        fill_view segments start stop (index + 1) stop
          (write_view view (filled - start) (replicate (nat (stop - filled)) 0))"
      using True 0 by (subst fill_view.simps) (simp add: Let_def fill_zeros_eq)
    then show ?thesis
      using True 0 by (simp add: rest fill_view.simps nat_diff_distrib' min_def)
  qed
next
  case (Suc n)
  then have ix: "index < length segments" by simp
  obtain s d where sd: "segments ! index = (s, d)" by (cases "segments ! index")
  with ix have rest: "drop index segments = (s, d) # drop (index + 1) segments"
    by (simp add: Cons_nth_drop_Suc [symmetric])
  note ok = Suc.prems(1) [unfolded rest]
  then have ok': "segments_ok (s + blen d) (drop (index + 1) segments) sz" by simp
  note IH = Suc.hyps(1) [OF _ ok' _ _ Suc.prems(4)]
  show ?case
  proof (cases "filled < stop")
    case False
    with Suc.prems show ?thesis by (subst fill_view.simps) simp
  next
    case lt: True
    with Suc.prems(2) have p: "p \<le> filled" by simp
    show ?thesis
    proof (cases "s + blen d \<le> filled")
      case True
      have "fill_view segments start stop index filled view =
          fill_view segments start stop (index + 1) filled view"
        using lt ix sd True by (subst fill_view.simps) simp
      also have "\<dots> = write_view view (filled - start)
          (missing (s + blen d) (drop (index + 1) segments) sz filled stop)"
        by (rule IH) (use Suc True in auto)
      finally show ?thesis unfolding rest render_drop_past [OF ok True] .
    next
      case False
      define z where "z = min (max s filled) stop"
      define ce where "ce = min (s + blen d) stop"
      define v1 where "v1 = write_view view (filled - start) (replicate (nat (z - filled)) 0)"
      have z: "filled \<le> z" "z \<le> stop" using lt by (auto simp: z_def)
      have zeros: "fill_zeros start z filled view = (v1, z)"
        using fill_zeros_eq [of start filled z view] z Suc.prems by (simp add: v1_def max_def)
      have len: "blen v1 = blen view"
        unfolding v1_def using z Suc.prems by (subst length_write_view) auto
      have step: "fill_view segments start stop index filled view =
          (if z < ce then fill_view segments start stop (index + 1) ce
             (write_view v1 (z - start) (py_slice d (z - s) (ce - s)))
           else fill_view segments start stop (index + 1) z v1)"
        using lt ix sd False zeros by (subst fill_view.simps) (simp add: z_def [symmetric] ce_def [symmetric])
      note split = missing_segment [OF ok p lt _ Suc.prems(4) z_def ce_def]
      show ?thesis
      proof (cases "z < ce")
        case zc: True
        then have zs: "z = max s filled" "s \<le> z" by (auto simp: z_def ce_def)
        define v2 where "v2 = write_view v1 (z - start) (py_slice d (z - s) (ce - s))"
        have dl: "blen (py_slice d (z - s) (ce - s)) = ce - z"
          using zc zs by (simp add: py_slice_nonneg ce_def)
        have len2: "blen v2 = blen view"
          unfolding v2_def using dl z zc len Suc.prems by (subst length_write_view) (auto simp: ce_def)
        have "fill_view segments start stop (index + 1) ce v2 =
            write_view v2 (ce - start) (missing (s + blen d) (drop (index + 1) segments) sz ce stop)"
          by (rule IH) (use Suc zc z len2 in \<open>auto simp: ce_def\<close>)
        also have "\<dots> = write_view view (filled - start) (missing p (drop index segments) sz filled stop)"
          unfolding rest v2_def v1_def
          using split False zc z dl Suc.prems by (simp add: write_view_append)
        finally show ?thesis using step zc v2_def by simp
      next
        case zc: False
        then have zz: "s + blen d \<le> z \<or> z = stop" using z(2) unfolding ce_def by linarith
        have "fill_view segments start stop (index + 1) z v1 =
            write_view v1 (z - start) (missing (s + blen d) (drop (index + 1) segments) sz z stop)"
          by (rule IH) (use Suc zc z zz len in auto)
        also have "\<dots> = write_view view (filled - start) (missing p (drop index segments) sz filled stop)"
          unfolding rest v1_def using split False zc z Suc.prems by (simp add: write_view_append)
        finally show ?thesis using step zc by simp
      qed
    qed
  qed
qed

section \<open>Reading\<close>

lemma bisect_right_loop_le:
  "sorted xs \<Longrightarrow> hi \<le> length xs \<Longrightarrow> lo \<le> hi \<Longrightarrow> \<forall>i < lo. xs ! i \<le> x \<Longrightarrow>
   bisect_right_loop xs x lo hi \<le> length xs \<and> (\<forall>i < bisect_right_loop xs x lo hi. xs ! i \<le> x)"
proof (induction "hi - lo" arbitrary: lo hi rule: less_induct)
  case less
  show ?case
  proof (cases "lo < hi")
    case False
    with less.prems show ?thesis by (subst (1 2) bisect_right_loop.simps) auto
  next
    case True
    let ?mid = "(lo + hi) div 2"
    have mid: "lo \<le> ?mid" "?mid < hi" using True by auto
    show ?thesis
    proof (cases "x < xs ! ?mid")
      case True
      with mid less.hyps [of ?mid lo] less.prems \<open>lo < hi\<close> show ?thesis
        by (subst (1 2) bisect_right_loop.simps) (simp add: Let_def)
    next
      case False
      have "xs ! i \<le> x" if "i < ?mid + 1" for i
        using sorted_nth_mono [OF less.prems(1), of i ?mid] that False mid less.prems(2) by simp
      with mid less.hyps [of hi "?mid + 1"] less.prems \<open>lo < hi\<close> False show ?thesis
        by (subst (1 2) bisect_right_loop.simps) (simp add: Let_def)
    qed
  qed
qed

lemma bisect_right_le:
  "sorted xs \<Longrightarrow> bisect_right xs x \<le> length xs \<and> (\<forall>i < bisect_right xs x. xs ! i \<le> x)"
  using bisect_right_loop_le [of xs "length xs" 0 x] by (simp add: bisect_right_def)

lemma segments_ok_starts: "segments_ok p segments sz \<Longrightarrow> \<forall>s \<in> set (map fst segments). p \<le> s"
  by (induction p segments sz rule: segments_ok.induct) fastforce+

lemma segments_ok_sorted: "segments_ok p segments sz \<Longrightarrow> sorted (map fst segments)"
proof (induction p segments sz rule: segments_ok.induct)
  case (2 p s d segments sz)
  then show ?case using segments_ok_starts [of "s + blen d" segments sz] by fastforce
qed simp

text \<open>Skipping the segments that start, and so all but the last of them end, before \<open>filled\<close>.\<close>

lemma drop_segments:
  assumes "segments_ok p segments sz" "p \<le> filled" "k < length segments \<or> k = 0"
    and "k \<noteq> 0 \<Longrightarrow> fst (segments ! k) \<le> filled"
  shows "\<exists>p'. p' \<le> filled \<and> segments_ok p' (drop k segments) sz \<and>
    drop (nat (filled - p)) (render p segments sz) =
      drop (nat (filled - p')) (render p' (drop k segments) sz)"
  using assms
proof (induction k arbitrary: p segments)
  case 0
  then show ?case by auto
next
  case (Suc k)
  then obtain s d segs where seg: "segments = (s, d) # segs"
    by (cases segments) auto
  with Suc.prems have k: "k < length segs" "fst (segs ! k) \<le> filled" by auto
  have ok: "segments_ok (s + blen d) segs sz" using Suc.prems(1) seg by simp
  have "s + blen d \<le> fst (segs ! k)"
    using segments_ok_starts [OF ok] k(1) by (simp add: all_set_conv_all_nth)
  then have le: "s + blen d \<le> filled" using k(2) by simp
  from Suc.IH [OF ok le] k obtain p' where "p' \<le> filled" "segments_ok p' (drop k segs) sz"
    "drop (nat (filled - (s + blen d))) (render (s + blen d) segs sz) =
       drop (nat (filled - p')) (render p' (drop k segs) sz)"
    by auto
  with render_drop_past [OF Suc.prems(1) [unfolded seg] le] show ?case
    unfolding seg by auto
qed

lemma sf_readinto_eq:
  assumes "sparse_ok f"
  shows "let got = take (length view) (drop (nat (sf_position f)) (sparse_content f)) in
    sf_readinto view f =
      ((blen got, got @ drop (length got) view), f\<lparr>sf_position := sf_position f + blen got\<rparr>)"
proof -
  let ?pos = "sf_position f" and ?segs = "sf_segments f" and ?sz = "sf_size f"
  let ?stop = "min (?pos + blen view) ?sz"
  let ?got = "take (length view) (drop (nat ?pos) (sparse_content f))"
  have ok: "segments_ok 0 ?segs ?sz" "0 \<le> ?pos" using assms by (auto simp: sparse_ok_def)
  have clen: "blen (sparse_content f) = ?sz" using length_render [OF ok(1)] by (simp add: sparse_content_def)
  show ?thesis
  proof (cases "?stop \<le> ?pos")
    case True
    then have "view = [] \<or> ?sz \<le> ?pos" by (auto simp: min_def split: if_splits)
    then have got: "?got = []" using clen ok(2) by auto
    from True show ?thesis unfolding got by (simp add: sf_readinto_def)
  next
    case False
    let ?k = "nat (max (int (bisect_right (map fst ?segs) ?pos) - 1) 0)"
    note b = bisect_right_le [OF segments_ok_sorted [OF ok(1)], of ?pos]
    have "?k < length ?segs \<or> ?k = 0" "?k \<noteq> 0 \<Longrightarrow> fst (?segs ! ?k) \<le> ?pos"
      using b by (auto simp: nat_diff_distrib')
    from drop_segments [OF ok(1,2) this] obtain p where p: "p \<le> ?pos"
      "segments_ok p (drop ?k ?segs) ?sz"
      "drop (nat (?pos - 0)) (render 0 ?segs ?sz) = drop (nat (?pos - p)) (render p (drop ?k ?segs) ?sz)"
      by blast
    have "fill_view ?segs ?pos ?stop ?k ?pos view =
        write_view view 0 (missing p (drop ?k ?segs) ?sz ?pos ?stop)"
      using fill_view_eq [OF p(2), of ?pos ?stop ?pos view] p(1) False by simp
    also have "missing p (drop ?k ?segs) ?sz ?pos ?stop = ?got"
    proof -
      have "take (nat (?stop - ?pos)) (drop (nat ?pos) (sparse_content f)) = ?got"
      proof (cases "?pos + blen view \<le> ?sz")
        case True
        then show ?thesis by simp
      next
        case False
        then have "length (drop (nat ?pos) (sparse_content f)) = nat (?sz - ?pos)"
          "nat (?stop - ?pos) = nat (?sz - ?pos)" "nat (?sz - ?pos) \<le> length view"
          using clen ok(2) by auto
        then show ?thesis by simp
      qed
      with p(3) show ?thesis by (simp add: sparse_content_def)
    qed
    finally have fv: "fill_view ?segs ?pos ?stop ?k ?pos view = ?got @ drop (length ?got) view"
      by (simp add: write_view_def)
    have "blen ?got = ?stop - ?pos" using clen ok(2) False by auto
    with False fv show ?thesis by (simp add: sf_readinto_def Let_def)
  qed
qed

text \<open>\<^verbatim>\<open>io.RawIOBase.read(n)\<close> for \<open>n >= 0\<close>: a zeroed buffer, \<^verbatim>\<open>readinto\<close>, and the part that was filled.\<close>

definition sf_read :: "int \<Rightarrow> sparse_file \<Rightarrow> bytes res \<times> sparse_file" where
  "sf_read n f =
     (let ((count, view), f') = sf_readinto (replicate (nat n) 0) f in (Inr (take (nat count) view), f'))"

lemma sf_read_eq:
  assumes "sparse_ok f" "got = take (nat n) (drop (nat (sf_position f)) (sparse_content f))"
  shows "sf_read n f = (Inr got, f\<lparr>sf_position := sf_position f + blen got\<rparr>)"
proof -
  have "sf_readinto (replicate (nat n) 0) f =
      ((blen got, got @ drop (length got) (replicate (nat n) 0)), f\<lparr>sf_position := sf_position f + blen got\<rparr>)"
    using sf_readinto_eq [OF assms(1), of "replicate (nat n) 0"] unfolding assms(2) Let_def length_replicate .
  then show ?thesis by (simp add: sf_read_def)
qed

interpretation sparse: binary_file sf_read "\<lambda>f. nat (sf_position f)"
  "\<lambda>f. sparse_ok f \<and> sparse_content f = content" content for content
proof
  fix s n data s'
  assume ok: "sparse_ok s \<and> sparse_content s = content" and "0 \<le> n" and r: "sf_read n s = (Inr data, s')"
  from ok have "0 \<le> sf_position s" by (simp add: sparse_ok_def)
  moreover have "data = take (nat n) (drop (nat (sf_position s)) content)"
    and "s' = s\<lparr>sf_position := sf_position s + blen data\<rparr>"
    using r sf_read_eq [OF conjunct1 [OF ok] refl, of n] ok by auto
  ultimately show "data = take (nat n) (drop (nat (sf_position s)) content) \<and>
      nat (sf_position s') = nat (sf_position s) + length data"
    by (simp add: nat_add_distrib del: length_take)
next
  fix s and n :: int
  assume ok: "sparse_ok s \<and> sparse_content s = content"
  then show "sparse_ok (snd (sf_read n s)) \<and> sparse_content (snd (sf_read n s)) = content"
    using sf_read_eq [OF conjunct1 [OF ok] refl, of n]
    by (simp add: sparse_ok_def sparse_content_def del: length_take)
qed

section \<open>The layout\<close>

text \<open>The filler of a gap as a box: a header and zeros.\<close>

definition filler_boxes :: "string \<Rightarrow> int \<Rightarrow> box_spec list" where
  "filler_boxes t gap =
     (if gap = 0 then []
      else if gap < 2 ^ 32 then [(False, t, replicate (nat (gap - 8)) 0)]
      else [(True, t, replicate (nat (gap - 16)) 0)])"

fun layout_boxes :: "(int \<times> box_spec) list \<Rightarrow> int list \<Rightarrow> box_spec list" where
  "layout_boxes ((start, b) # rows) (next_start # boundaries) =
     b # filler_boxes ''mdat'' (next_start - start - blen (write_box b)) @ layout_boxes rows boundaries"
| "layout_boxes _ _ = []"

definition moof_rows_of :: "(int \<times> box_spec) list \<Rightarrow> segment list" where
  "moof_rows_of rows = map (\<lambda>(start, b). (start, write_box b)) rows"

lemma filler_box_eq:
  assumes "filler_box_header t gap = Inr h" "length t = 4" "0 < gap"
  shows "h @ replicate (nat (gap - blen h)) 0 = concat (map write_box (filler_boxes t gap)) \<and>
    blen h \<le> gap \<and> h \<noteq> []"
proof -
  from assms(1) consider "8 \<le> gap" "gap < 2 ^ 32" "h = be_bytes 4 gap @ encode_ascii t"
    | "2 ^ 32 \<le> gap" "h = be_bytes 4 1 @ encode_ascii t @ be_bytes 8 gap"
    by (auto simp: filler_box_header_def BOX_HEADER_BYTES_def split: if_splits)
  then show ?thesis
  proof cases
    case 1
    then have "length h = 8" using assms(2) by simp
    then have "h \<noteq> []" by (metis list.size(3) zero_neq_numeral)
    with 1 assms(2) show ?thesis by (auto simp: filler_boxes_def)
  next
    case 2
    then have "length h = 16" using assms(2) by simp
    then have "h \<noteq> []" by (metis list.size(3) zero_neq_numeral)
    with 2 assms(2) show ?thesis by (auto simp: filler_boxes_def)
  qed
qed

lemma filler_boxes_ok:
  assumes "filler_box_header t gap = Inr h" "length t = 4" "str_isascii t"
  shows "\<forall>b \<in> set (filler_boxes t gap). box_ok b"
  using assms by (auto simp: filler_box_header_def filler_boxes_def BOX_HEADER_BYTES_def split: if_splits)

lemma render_segment:
  "render p ((p, d) # segments) sz = d @ render (p + blen d) segments sz"
  by simp

text \<open>A gap rendered from its filler segment, up to where the next segment starts.\<close>

lemma render_filler:
  assumes "(if gap \<noteq> 0 then rbind (filler_box_header t gap) (\<lambda>h. Inr [(p, h)]) else Inr []) = Inr filler"
    and "0 \<le> gap" "length t = 4" "segments_ok (p + gap) segments sz"
    and "\<And>q. q \<le> p + gap \<Longrightarrow> render q segments sz = replicate (nat (p + gap - q)) 0 @ render (p + gap) segments sz"
  shows "render p (filler @ segments) sz =
      concat (map write_box (filler_boxes t gap)) @ render (p + gap) segments sz \<and>
    segments_ok p (filler @ segments) sz"
proof (cases "gap = 0")
  case True
  with assms(1,4) show ?thesis by (simp add: filler_boxes_def)
next
  case False
  with assms(1) obtain h where h: "filler_box_header t gap = Inr h" "filler = [(p, h)]"
    by (auto simp: result_simps)
  note f = filler_box_eq [OF h(1) assms(3)]
  have ok: "segments_ok (p + blen h) segments sz"
    using assms(4) f False assms(2) by (cases segments) (auto split: prod.splits)
  have "render (p + blen h) segments sz = replicate (nat (gap - blen h)) 0 @ render (p + gap) segments sz"
    using assms(5) [of "p + blen h"] f False assms(2) by (simp add: algebra_simps)
  with f False assms(2) ok h(2) show ?thesis by simp
qed

lemma moof_segments_render:
  assumes "moof_segments (moof_rows_of rows) (tl (map fst rows @ [sz])) = Inr segments"
  shows "segments_ok (hd (map fst rows @ [sz])) segments sz \<and>
    (\<forall>q \<le> hd (map fst rows @ [sz]). render q segments sz =
       replicate (nat (hd (map fst rows @ [sz]) - q)) 0 @
       concat (map write_box (layout_boxes rows (tl (map fst rows @ [sz]))))) \<and>
    set (moof_rows_of rows) \<subseteq> set segments"
  using assms
proof (induction rows arbitrary: segments)
  case Nil
  then show ?case by (simp add: moof_rows_of_def)
next
  case (Cons row rows)
  obtain s b where row: "row = (s, b)" by (cases row)
  let ?W = "write_box b" and ?next = "hd (map fst rows @ [sz])"
  let ?gap = "?next - s - blen ?W"
  have bounds: "map fst rows @ [sz] = ?next # tl (map fst rows @ [sz])" by (cases rows) auto
  have rows_eq: "moof_rows_of (row # rows) = (s, ?W) # moof_rows_of rows"
    by (simp add: moof_rows_of_def row)
  have tl_eq: "tl (map fst (row # rows) @ [sz]) = ?next # tl (map fst rows @ [sz])"
    using bounds by simp
  from Cons.prems [unfolded rows_eq tl_eq moof_segments.simps(1) Let_def] obtain filler segs where gap: "0 \<le> ?gap"
    and filler: "(if ?gap \<noteq> 0 then rbind (filler_box_header ''mdat'' ?gap) (\<lambda>h. Inr [(s + blen ?W, h)])
       else Inr []) = Inr filler"
    and segs: "moof_segments (moof_rows_of rows) (tl (map fst rows @ [sz])) = Inr segs"
    and segments: "segments = (s, ?W) # filler @ segs"
    by (auto simp: result_simps not_less simp del: write_box.simps split: if_splits)
  note IH = Cons.IH [OF segs]
  have "render (s + blen ?W) (filler @ segs) sz =
      concat (map write_box (filler_boxes ''mdat'' ?gap)) @ render (s + blen ?W + ?gap) segs sz \<and>
    segments_ok (s + blen ?W) (filler @ segs) sz"
    by (rule render_filler [OF filler gap]) (use IH in auto)
  moreover have "render (s + blen ?W + ?gap) segs sz =
      concat (map write_box (layout_boxes rows (tl (map fst rows @ [sz]))))"
    using IH by simp
  moreover have "layout_boxes (row # rows) (tl (map fst (row # rows) @ [sz])) =
      b # filler_boxes ''mdat'' ?gap @ layout_boxes rows (tl (map fst rows @ [sz]))"
    by (simp only: tl_eq) (simp only: row layout_boxes.simps(1))
  ultimately show ?case using IH rows_eq by (auto simp: segments row simp del: write_box.simps)
qed

lemma render_segment_at:
  "segments_ok p segments sz \<Longrightarrow> (s, d) \<in> set segments \<Longrightarrow>
   p \<le> s \<and> take (length d) (drop (nat (s - p)) (render p segments sz)) = d"
proof (induction p segments sz rule: segments_ok.induct)
  case (1 p sz)
  then show ?case by simp
next
  case (2 p s' d' segments sz)
  show ?case
  proof (cases "(s, d) \<in> set segments")
    case True
    with 2 have IH: "s' + blen d' \<le> s"
      "take (length d) (drop (nat (s - (s' + blen d'))) (render (s' + blen d') segments sz)) = d"
      by auto
    then have "nat (s - p) = nat (s' - p) + length d' + nat (s - (s' + blen d'))"
      using 2(2) by auto
    with IH 2(2) show ?thesis by simp
  next
    case False
    with 2 show ?thesis by simp
  qed
qed

lemma filler_boxes_all_ok:
  assumes "(if gap \<noteq> 0 then rbind (filler_box_header t gap) (\<lambda>h. Inr [(p, h)]) else Inr []) = Inr filler"
    and "length t = 4" "str_isascii t"
  shows "\<forall>b \<in> set (filler_boxes t gap). box_ok b"
proof (cases "gap = 0")
  case False
  with assms(1) obtain h where "filler_box_header t gap = Inr h" by (auto simp: result_simps)
  from filler_boxes_ok [OF this assms(2,3)] show ?thesis .
qed (simp add: filler_boxes_def)

lemma layout_boxes_ok:
  "moof_segments (moof_rows_of rows) bounds = Inr segments \<Longrightarrow> \<forall>(s, b) \<in> set rows. box_ok b \<Longrightarrow>
   \<forall>b \<in> set (layout_boxes rows bounds). box_ok b"
proof (induction rows bounds arbitrary: segments rule: layout_boxes.induct)
  case (1 s b rows next_start bounds)
  have rows_eq: "moof_rows_of ((s, b) # rows) = (s, write_box b) # moof_rows_of rows"
    by (simp add: moof_rows_of_def)
  from "1.prems"(1) [unfolded rows_eq moof_segments.simps(1) Let_def] obtain filler segs where
    "(if next_start - s - blen (write_box b) \<noteq> 0
      then rbind (filler_box_header ''mdat'' (next_start - s - blen (write_box b)))
             (\<lambda>h. Inr [(s + blen (write_box b), h)]) else Inr []) = Inr filler"
    and segs: "moof_segments (moof_rows_of rows) bounds = Inr segs"
    by (auto simp: result_simps not_less simp del: write_box.simps split: if_splits)
  then have "\<forall>b \<in> set (filler_boxes ''mdat'' (next_start - s - blen (write_box b))). box_ok b"
    by (intro filler_boxes_all_ok) (simp_all add: str_isascii_def)
  with "1.IH" [OF segs] "1.prems"(2) show ?case
    by (auto simp del: write_box.simps box_ok.simps)
qed simp_all

lemma boxes_only_stream_content:
  assumes "boxes_only_stream sz (write_box m) (moof_rows_of rows) = Inr f"
    and "gap = hd (map fst rows @ [sz]) - blen (write_box m)"
  shows "sparse_ok f \<and> sf_position f = 0 \<and> sf_size f = sz \<and>
    sparse_content f = concat (map write_box
      (m # filler_boxes ''free'' gap @ layout_boxes rows (tl (map fst rows @ [sz])))) \<and>
    set (moof_rows_of rows) \<subseteq> set (sf_segments f) \<and>
    ((\<forall>(s, b) \<in> set rows. box_ok b) \<longrightarrow>
      (\<forall>b \<in> set (filler_boxes ''free'' gap @ layout_boxes rows (tl (map fst rows @ [sz]))). box_ok b))"
proof -
  let ?W = "write_box m" and ?bounds = "map fst rows @ [sz]"
  have fsts: "map fst (moof_rows_of rows) = map fst rows"
    by (auto simp: moof_rows_of_def)
  from assms obtain filler segs where gap: "0 \<le> gap"
    and filler: "(if gap \<noteq> 0 then rbind (filler_box_header ''free'' gap) (\<lambda>h. Inr [(blen ?W, h)])
       else Inr []) = Inr filler"
    and segs: "moof_segments (moof_rows_of rows) (tl ?bounds) = Inr segs"
    and f: "f = make_sparse_file sz ((0, ?W) # filler @ segs)"
    by (auto simp: boxes_only_stream_def Let_def fsts result_simps not_less simp del: write_box.simps
        split: if_splits)
  note ms = moof_segments_render [OF segs]
  have hd: "blen ?W + gap = hd ?bounds" using assms(2) by simp
  have "render (blen ?W) (filler @ segs) sz =
      concat (map write_box (filler_boxes ''free'' gap)) @ render (blen ?W + gap) segs sz \<and>
    segments_ok (blen ?W) (filler @ segs) sz"
    by (rule render_filler [OF filler gap]) (use ms hd in auto)
  moreover have "render (blen ?W + gap) segs sz =
      concat (map write_box (layout_boxes rows (tl ?bounds)))"
    using ms hd by simp
  moreover have "\<forall>b \<in> set (filler_boxes ''free'' gap). box_ok b"
    by (rule filler_boxes_all_ok [OF filler]) (simp_all add: str_isascii_def)
  ultimately show ?thesis
    using ms layout_boxes_ok [OF segs]
    by (auto simp: f make_sparse_file_def sparse_ok_def sparse_content_def
        simp del: write_box.simps box_ok.simps)
qed

section \<open>Properties\<close>

text \<open>C39: Reading the sparse file is reading the plain file it describes: a \<^verbatim>\<open>readinto\<close> fills the
  buffer with the content from the position on, as far as buffer and file reach, leaves the rest of
  the buffer alone, returns the number of bytes written and advances by it.\<close>

theorem sparse_readinto_reads_content:
  assumes "sparse_ok f" "got = take (length view) (drop (nat (sf_position f)) (sparse_content f))"
  shows "sf_readinto view f =
    ((blen got, got @ drop (length got) view), f\<lparr>sf_position := sf_position f + blen got\<rparr>)"
  using sf_readinto_eq [OF assms(1), of view] by (simp add: assms(2) Let_def)

theorem sparse_readinto_reads_content_witness:
  "sf_readinto (replicate 6 9) (snd (sf_seek 1 SEEK_SET (make_sparse_file 5 [(0, [1, 2]), (4, [3])]))) =
     ((4, [2, 0, 0, 3, 9, 9]), snd (sf_seek 5 SEEK_SET (make_sparse_file 5 [(0, [1, 2]), (4, [3])])))"
proof -
  let ?f = "snd (sf_seek 1 SEEK_SET (make_sparse_file 5 [(0, [1, 2]), (4, [3 :: byte])]))"
  have ok: "sparse_ok ?f" by code_simp
  have got: "[2, 0, 0, 3] = take (length (replicate 6 (9 :: byte)))
      (drop (nat (sf_position ?f)) (sparse_content ?f))"
    by code_simp
  show ?thesis
    using sparse_readinto_reads_content [OF ok got]
    by (simp add: sf_seek_def make_sparse_file_def numeral_2_eq_2)
qed

text \<open>C40: When the layout of extracted well-formed boxes is accepted, the stream has the source's size,
  holds every \<^verbatim>\<open>moof\<close> verbatim at its source offset, and is from end to end a sequence of whole boxes:
  walking it yields the \<^verbatim>\<open>moov\<close>, the filler after it, and each \<^verbatim>\<open>moof\<close> with the filler after it.\<close>

theorem boxes_only_stream_is_boxes:
  assumes "boxes_only_stream file_size (write_box m) (moof_rows_of rows) = Inr f"
    and "box_ok m" "\<forall>(s, b) \<in> set rows. box_ok b" "file_size < 2 ^ 63"
    and "gap = hd (map fst rows @ [file_size]) - blen (write_box m)"
  shows "blen (sparse_content f) = file_size \<and>
    (\<forall>(s, b) \<in> set rows. take (length (write_box b)) (drop (nat s) (sparse_content f)) = write_box b) \<and>
    (\<exists>ch. iter_child_boxes (sparse_content f) 0 file_size = Inr ch \<and>
       map (\<lambda>(t, cs, ce). (t, py_slice (sparse_content f) cs ce)) ch =
         map snd (m # filler_boxes ''free'' gap @ layout_boxes rows (tl (map fst rows @ [file_size]))))"
proof -
  let ?boxes = "m # filler_boxes ''free'' gap @ layout_boxes rows (tl (map fst rows @ [file_size]))"
  note c = boxes_only_stream_content [OF assms(1,5)]
  then have "sparse_ok f" "sf_size f = file_size" by blast+
  then have ok: "segments_ok 0 (sf_segments f) file_size" by (simp add: sparse_ok_def)
  have len: "blen (sparse_content f) = file_size"
    using length_render [OF ok] c by (simp add: sparse_content_def)
  have at: "take (length (write_box b)) (drop (nat s) (sparse_content f)) = write_box b"
    if "(s, b) \<in> set rows" for s b
  proof -
    from that have "(s, write_box b) \<in> set (moof_rows_of rows)" by (force simp: moof_rows_of_def)
    with render_segment_at [OF ok] c show ?thesis by (auto simp: sparse_content_def simp del: write_box.simps)
  qed
  have "\<forall>b \<in> set ?boxes. box_ok b" using c assms(2,3) by (simp del: box_ok.simps)
  moreover have content: "sparse_content f = [] @ concat (map write_box ?boxes) @ []"
    using c by (simp del: write_box.simps)
  ultimately have "\<exists>ch. iter_child_boxes (sparse_content f) 0 file_size = Inr ch \<and>
      map (\<lambda>(t, cs, ce). (t, py_slice (sparse_content f) cs ce)) ch = map snd ?boxes"
    using iter_child_boxes_write_boxes [of ?boxes "[]" "[]" 0 file_size]
      box_layout_payloads [of ?boxes 0 "[]" "[]"] len assms(4)
    by (simp del: write_box.simps box_ok.simps box_layout.simps)
  with len at show ?thesis by blast
qed

theorem boxes_only_stream_is_boxes_witness:
  "\<exists>f. boxes_only_stream 60 (write_box (False, ''moov'', [1])) (moof_rows_of [(20, False, ''moof'', [2, 3])]) = Inr f \<and>
     blen (sparse_content f) = 60 \<and>
     (\<exists>ch. iter_child_boxes (sparse_content f) 0 60 = Inr ch \<and>
        map (\<lambda>(t, cs, ce). (t, py_slice (sparse_content f) cs ce)) ch =
          [(''moov'', [1]), (''free'', replicate 3 0), (''moof'', [2, 3]), (''mdat'', replicate 22 0)])"
proof -
  let ?run = "boxes_only_stream 60 (write_box (False, ''moov'', [1])) (moof_rows_of [(20, False, ''moof'', [2, 3])])"
  have "\<not> isl ?run" by code_simp
  then obtain f where f: "?run = Inr f" by (cases ?run) auto
  have ok: "box_ok (False, ''moov'', [1])" by code_simp
  have oks: "\<forall>(s, b) \<in> set [(20 :: int, False, ''moof'', [2, 3])]. box_ok b" by code_simp
  have boxes: "map snd ((False, ''moov'', [1]) # filler_boxes ''free'' 11 @
      layout_boxes [(20, False, ''moof'', [2, 3])] [60]) =
      [(''moov'', [1]), (''free'', replicate 3 0), (''moof'', [2, 3]), (''mdat'', replicate 22 0)]"
    by code_simp
  have gap: "11 = hd (map fst [(20 :: int, False, ''moof'', [2 :: byte, 3])] @ [60]) -
      blen (write_box (False, ''moov'', [1]))"
    by code_simp
  from boxes_only_stream_is_boxes [OF f ok oks _ gap] boxes f show ?thesis by simp
qed

text \<open>The range check passes exactly the frames whose byte range lies within the source, although
  it is computed in wrapping 64-bit arithmetic.\<close>

theorem check_frame_byte_ranges_iff:
  assumes "0 \<le> file_size" "file_size < 2 ^ 63" "\<forall>(offset, sz) \<in> set frames. is_i64 offset \<and> is_i64 sz"
  shows "check_frame_byte_ranges frames file_size =
    (if \<forall>(offset, sz) \<in> set frames. 0 \<le> offset \<and> 0 \<le> sz \<and> offset + sz \<le> file_size
     then Inr () else Inl InvalidFrameByteRangeError)"
proof -
  have "frame_range_invalid file_size (offset, sz) \<longleftrightarrow>
      \<not> (0 \<le> offset \<and> 0 \<le> sz \<and> offset + sz \<le> file_size)" if "(offset, sz) \<in> set frames" for offset sz
  proof -
    have "is_i64 (file_size - max offset 0)" using that assms by (auto simp: is_i64_def)
    then show ?thesis by (auto simp: frame_range_invalid_def wrap_i64_id)
  qed
  then have "list_ex (frame_range_invalid file_size) frames \<longleftrightarrow>
      \<not> (\<forall>(offset, sz) \<in> set frames. 0 \<le> offset \<and> 0 \<le> sz \<and> offset + sz \<le> file_size)"
    by (fastforce simp: list_ex_iff)
  moreover have "is_i64 file_size" using assms by (simp add: is_i64_def)
  ultimately show ?thesis by (simp add: check_frame_byte_ranges_def)
qed

theorem check_frame_byte_ranges_iff_witness:
  "check_frame_byte_ranges [(0, 10), (90, 10)] 100 = Inr () \<and>
   check_frame_byte_ranges [(9223372036854775807, 9223372036854775807)] 100 = Inl InvalidFrameByteRangeError"
  using check_frame_byte_ranges_iff [of 100 "[(0, 10), (90, 10)]"]
    check_frame_byte_ranges_iff [of 100 "[(9223372036854775807, 9223372036854775807)]"]
  by (simp add: is_i64_def)

end
