(* ===== verification/BlockCache.thy ===== *)
theory BlockCache
  imports BinaryFile BoxProbe
begin

text \<open>
  \<^verbatim>\<open>core/utils/storage/block_cache_reader.py\<close>: a seekable reader that serves a wrapped stream from a
  small cache of aligned blocks. The wrapped stream is a parameter, its three methods a record of
  operations on its state \<open>'s\<close> that return a value or raise \<open>'e\<close>. \<open>seekable_file\<close> states what
  the reader relies on. The lemmas show that the cache never changes what is read.
\<close>

section \<open>Definitions\<close>

definition DEFAULT_BLOCK_SIZE :: int where "DEFAULT_BLOCK_SIZE = 64 * 1024"
definition DEFAULT_MAX_BLOCKS :: int where "DEFAULT_MAX_BLOCKS = 16"
definition DEFAULT_SKIP_THRESHOLD :: int where "DEFAULT_SKIP_THRESHOLD = 256 * 1024"
definition SYS_MAXSIZE :: nat where "SYS_MAXSIZE = 9223372036854775807"

text \<open>The exceptions: the reader's own \<^verbatim>\<open>ValueError\<close>, and what the wrapped stream raises.\<close>

datatype 'e cache_error = CacheValueError | WrappedError 'e

record ('s, 'e) stream_ops =
  so_read :: "int \<Rightarrow> 's \<Rightarrow> ('e + bytes) \<times> 's"
  so_seek :: "int \<Rightarrow> whence \<Rightarrow> 's \<Rightarrow> ('e + int) \<times> 's"
  so_tell :: "'s \<Rightarrow> ('e + int) \<times> 's"

text \<open>The fields of \<^verbatim>\<open>BlockCacheReader\<close>. The ordered dictionary of blocks is an association list, the
  least recently used block first.\<close>

record 's block_cache =
  bc_wrapped :: 's
  bc_block_size :: int
  bc_max_blocks :: int
  bc_skip_threshold :: int
  bc_blocks :: "(int \<times> bytes) list"
  bc_wrapped_pos :: int
  bc_pos :: int
  bc_size :: "int option"
  bc_closed :: bool

type_synonym ('s, 'e, 'a) cache_op = "('s block_cache, 'e cache_error, 'a) stm"

definition limit_of :: "int option \<Rightarrow> nat" where
  "limit_of n = (case n of None \<Rightarrow> SYS_MAXSIZE | Some k \<Rightarrow> if k < 0 then SYS_MAXSIZE else nat k)"

definition make_block_cache ::
  "('s, 'e) stream_ops \<Rightarrow> 's \<Rightarrow> int \<Rightarrow> int \<Rightarrow> int \<Rightarrow> 'e cache_error + 's block_cache" where
  "make_block_cache ops wrapped block_size max_blocks skip_threshold =
     (if block_size \<le> 0 \<or> max_blocks \<le> 0 then Inl CacheValueError
      else if skip_threshold < 0 then Inl CacheValueError
      else case so_tell ops wrapped of
        (Inl e, _) \<Rightarrow> Inl (WrappedError e)
      | (Inr pos, wrapped') \<Rightarrow>
          Inr \<lparr>bc_wrapped = wrapped', bc_block_size = block_size, bc_max_blocks = max_blocks,
               bc_skip_threshold = skip_threshold, bc_blocks = [], bc_wrapped_pos = pos,
               bc_pos = pos, bc_size = None, bc_closed = False\<rparr>)"

definition wrapped_call :: "('s \<Rightarrow> ('e + 'a) \<times> 's) \<Rightarrow> ('s, 'e, 'a) cache_op" where
  "wrapped_call f r =
     (let (x, w) = f (bc_wrapped r)
      in (case x of Inl e \<Rightarrow> Inl (WrappedError e) | Inr v \<Rightarrow> Inr v, r\<lparr>bc_wrapped := w\<rparr>))"

definition check_open :: "('s, 'e, unit) cache_op" where
  "check_open r = (if bc_closed r then (Inl CacheValueError, r) else (Inr (), r))"

definition object_size :: "('s, 'e) stream_ops \<Rightarrow> ('s, 'e, int) cache_op" where
  "object_size ops r =
     (case bc_size r of
        Some n \<Rightarrow> (Inr n, r)
      | None \<Rightarrow>
          sbind (wrapped_call (so_seek ops 0 SEEK_END)) (\<lambda>n r'.
            (Inr n, r'\<lparr>bc_wrapped_pos := n, bc_size := Some n\<rparr>))
          (r\<lparr>bc_wrapped_pos := - 1\<rparr>))"

text \<open>The loop \<^verbatim>\<open>while wrapped_pos < start\<close>: whether \<open>start\<close> was reached, and the position.\<close>

function skip_gap :: "('s, 'e) stream_ops \<Rightarrow> int \<Rightarrow> int \<Rightarrow> ('s, 'e, bool \<times> int) cache_op" where
  "skip_gap ops start wrapped_pos r =
     (if wrapped_pos < start then
        case wrapped_call (so_read ops (min (start - wrapped_pos) (bc_block_size r))) r of
          (Inl e, r') \<Rightarrow> (Inl e, r')
        | (Inr skipped, r') \<Rightarrow>
            if skipped = [] then (Inr (False, wrapped_pos), r')
            else skip_gap ops start (wrapped_pos + blen skipped) r'
      else (Inr (True, wrapped_pos), r))"
  by pat_completeness auto
termination
  by (relation "measure (\<lambda>(ops, start, wrapped_pos, r). nat (start - wrapped_pos))") auto

declare skip_gap.simps [simp del]

text \<open>The end of \<^verbatim>\<open>_block\<close>, once \<open>start\<close> is reached: fetch the block, learn the size, cache the block
  and evict the least recently used one.\<close>

definition fetch_block :: "('s, 'e) stream_ops \<Rightarrow> bool \<Rightarrow> int \<Rightarrow> int \<Rightarrow> ('s, 'e, bytes) cache_op" where
  "fetch_block ops sought index wrapped_pos =
     sbind (\<lambda>r. wrapped_call (so_read ops (bc_block_size r)) r) (\<lambda>block r0.
     let r = r0\<lparr>bc_wrapped_pos := wrapped_pos + blen block\<rparr> in
     if block = [] then
       sbind (if sought then object_size ops else sreturn wrapped_pos)
         (\<lambda>n r'. (Inr block, r'\<lparr>bc_size := Some n\<rparr>)) r
     else
       let known = (if blen block < bc_block_size r then Some (bc_wrapped_pos r) else bc_size r);
           blocks = bc_blocks r @ [(index, block)];
           kept = (if int (length blocks) > bc_max_blocks r then tl blocks else blocks)
       in (Inr block, r\<lparr>bc_size := known, bc_blocks := kept\<rparr>))"

definition block_at :: "('s, 'e) stream_ops \<Rightarrow> int \<Rightarrow> ('s, 'e, bytes) cache_op" where
  "block_at ops index r =
     (case map_of (bc_blocks r) index of
        Some block \<Rightarrow>
          (Inr block, r\<lparr>bc_blocks := filter (\<lambda>b. fst b \<noteq> index) (bc_blocks r) @ [(index, block)]\<rparr>)
      | None \<Rightarrow>
          let start = index * bc_block_size r in
          if (case bc_size r of None \<Rightarrow> False | Some n \<Rightarrow> start \<ge> n) then (Inr [], r)
          else
            let wrapped_pos = bc_wrapped_pos r;
                sought = (wrapped_pos < 0 \<or>
                          \<not> (0 \<le> start - wrapped_pos \<and> start - wrapped_pos \<le> bc_skip_threshold r))
            in
              sbind (if sought then wrapped_call (so_seek ops start SEEK_SET) else sreturn wrapped_pos)
                (\<lambda>wrapped_pos.
              sbind (skip_gap ops start wrapped_pos) (\<lambda>(reached, wrapped_pos).
              if reached then fetch_block ops sought index wrapped_pos
              else (\<lambda>r'. (Inr [], r'\<lparr>bc_wrapped_pos := wrapped_pos, bc_size := Some wrapped_pos\<rparr>))))
              (r\<lparr>bc_wrapped_pos := - 1\<rparr>))"

definition next_chunk :: "('s, 'e) stream_ops \<Rightarrow> nat \<Rightarrow> ('s, 'e, bytes) cache_op" where
  "next_chunk ops limit r =
     (let index = bc_pos r div bc_block_size r; offset = bc_pos r mod bc_block_size r in
      sbind (block_at ops index) (\<lambda>block r'.
        let chunk = py_slice block offset (offset + int limit)
        in (Inr chunk, r'\<lparr>bc_pos := bc_pos r' + blen chunk\<rparr>)) r)"

function chunks :: "('s, 'e) stream_ops \<Rightarrow> nat \<Rightarrow> ('s, 'e, bytes list) cache_op" where
  "chunks ops limit r =
     (if limit = 0 then (Inr [], r)
      else case next_chunk ops limit r of
        (Inl e, r') \<Rightarrow> (Inl e, r')
      | (Inr chunk, r') \<Rightarrow>
          if chunk = [] then (Inr [], r')
          else sbind (chunks ops (limit - length chunk)) (\<lambda>rest. sreturn (chunk # rest)) r')"
  by pat_completeness auto
termination
  by (relation "measure (\<lambda>(ops, limit, r). limit)") auto

declare chunks.simps [simp del]

definition bc_tell :: "('s, 'e, int) cache_op" where
  "bc_tell = sbind check_open (\<lambda>_ r. (Inr (bc_pos r), r))"

definition seek_target :: "('s, 'e) stream_ops \<Rightarrow> int \<Rightarrow> whence \<Rightarrow> ('s, 'e, int) cache_op" where
  "seek_target ops offset whence =
     (case whence of
        SEEK_SET \<Rightarrow> sreturn offset
      | SEEK_CUR \<Rightarrow> (\<lambda>r. (Inr (bc_pos r + offset), r))
      | SEEK_END \<Rightarrow> sbind (object_size ops) (\<lambda>n. sreturn (n + offset))
      | SEEK_OTHER \<Rightarrow> sraise CacheValueError)"

definition bc_seek :: "('s, 'e) stream_ops \<Rightarrow> int \<Rightarrow> whence \<Rightarrow> ('s, 'e, int) cache_op" where
  "bc_seek ops offset whence =
     sbind check_open (\<lambda>_.
     sbind (seek_target ops offset whence) (\<lambda>position.
     if position < 0 then sraise CacheValueError
     else (\<lambda>r. (Inr position, r\<lparr>bc_pos := position\<rparr>))))"

definition bc_read :: "('s, 'e) stream_ops \<Rightarrow> int option \<Rightarrow> ('s, 'e, bytes) cache_op" where
  "bc_read ops n =
     sbind check_open (\<lambda>_. sbind (chunks ops (limit_of n)) (\<lambda>cs. sreturn (concat cs)))"

definition bc_read1 :: "('s, 'e) stream_ops \<Rightarrow> int option \<Rightarrow> ('s, 'e, bytes) cache_op" where
  "bc_read1 ops n =
     sbind check_open (\<lambda>_. if n \<noteq> Some 0 then next_chunk ops (limit_of n) else sreturn [])"

text \<open>\<^verbatim>\<open>readinto\<close>: the count or the exception, and the buffer as it is then.\<close>

function readinto_loop :: "('s, 'e) stream_ops \<Rightarrow> nat \<Rightarrow> int \<Rightarrow> bytes \<Rightarrow> 's block_cache \<Rightarrow>
  (('e cache_error + int) \<times> bytes) \<times> 's block_cache" where
  "readinto_loop ops limit written target r =
     (if limit = 0 then ((Inr written, target), r)
      else case next_chunk ops limit r of
        (Inl e, r') \<Rightarrow> ((Inl e, target), r')
      | (Inr chunk, r') \<Rightarrow>
          if chunk = [] then ((Inr written, target), r')
          else readinto_loop ops (limit - length chunk) (written + blen chunk)
                 (write_view target written chunk) r')"
  by pat_completeness auto
termination
  by (relation "measure (\<lambda>(ops, limit, written, target, r). limit)") auto

declare readinto_loop.simps [simp del]

definition bc_readinto :: "('s, 'e) stream_ops \<Rightarrow> bytes \<Rightarrow> 's block_cache \<Rightarrow>
  (('e cache_error + int) \<times> bytes) \<times> 's block_cache" where
  "bc_readinto ops target r =
     (if bc_closed r then ((Inl CacheValueError, target), r)
      else readinto_loop ops (length target) 0 target r)"

definition bc_close :: "'s block_cache \<Rightarrow> 's block_cache" where
  "bc_close r = r\<lparr>bc_blocks := [], bc_closed := True\<rparr>"

section \<open>The invariant\<close>

definition content_block :: "bytes \<Rightarrow> int \<Rightarrow> int \<Rightarrow> bytes" where
  "content_block content bs index = take (nat bs) (drop (nat (index * bs)) content)"

text \<open>What every operation keeps: the cache holds blocks of the content, at most \<open>max_blocks\<close> of them,
  and the size, once known, is the content's.\<close>

definition core_ok :: "('s \<Rightarrow> bool) \<Rightarrow> bytes \<Rightarrow> 's block_cache \<Rightarrow> bool" where
  "core_ok ok content r \<longleftrightarrow>
     0 < bc_block_size r \<and> 0 < bc_max_blocks r \<and> 0 \<le> bc_skip_threshold r \<and> 0 \<le> bc_pos r \<and>
     ok (bc_wrapped r) \<and> (bc_size r = None \<or> bc_size r = Some (blen content)) \<and>
     distinct (map fst (bc_blocks r)) \<and> int (length (bc_blocks r)) \<le> bc_max_blocks r \<and>
     (\<forall>(i, b) \<in> set (bc_blocks r). b = content_block content (bc_block_size r) i \<and> b \<noteq> [] \<and>
        (blen b < bc_block_size r \<longrightarrow> bc_size r \<noteq> None))"

text \<open>The recorded position of the wrapped stream is unknown or right.\<close>

definition position_ok :: "('s \<Rightarrow> nat) \<Rightarrow> bytes \<Rightarrow> 's block_cache \<Rightarrow> bool" where
  "position_ok position content r \<longleftrightarrow>
     bc_wrapped_pos r < 0 \<or>
     bc_wrapped_pos r = int (position (bc_wrapped r)) \<and> position (bc_wrapped r) \<le> length content"

definition cache_ok :: "('s \<Rightarrow> nat) \<Rightarrow> ('s \<Rightarrow> bool) \<Rightarrow> bytes \<Rightarrow> 's block_cache \<Rightarrow> bool" where
  "cache_ok position ok content r \<longleftrightarrow> core_ok ok content r \<and> position_ok position content r"

text \<open>The fields a fetch leaves alone.\<close>

definition same_settings :: "'s block_cache \<Rightarrow> 's block_cache \<Rightarrow> bool" where
  "same_settings r r' \<longleftrightarrow>
     bc_block_size r' = bc_block_size r \<and> bc_max_blocks r' = bc_max_blocks r \<and>
     bc_skip_threshold r' = bc_skip_threshold r \<and> bc_pos r' = bc_pos r \<and> bc_closed r' = bc_closed r"

lemma same_settings_refl [simp]: "same_settings r r"
  by (simp add: same_settings_def)

lemma same_settings_trans: "same_settings r r' \<Longrightarrow> same_settings r' r'' \<Longrightarrow> same_settings r r''"
  by (simp add: same_settings_def)

lemma wrapped_callE:
  assumes "wrapped_call f r = (x, r')"
  obtains y w where "f (bc_wrapped r) = (y, w)" "r' = r\<lparr>bc_wrapped := w\<rparr>"
    "x = (case y of Inl e \<Rightarrow> Inl (WrappedError e) | Inr v \<Rightarrow> Inr v)"
  using assms by (auto simp: wrapped_call_def Let_def split: prod.splits)

section \<open>The reader over a seekable stream\<close>

locale cached_stream = seekable_file "so_read ops" position ok content "so_seek ops"
  for ops :: "('s, 'e) stream_ops" and position :: "'s \<Rightarrow> nat" and ok :: "'s \<Rightarrow> bool" and content :: bytes
begin

lemma wrapped_read_ok:
  assumes "core_ok ok content r" "0 \<le> n" "wrapped_call (so_read ops n) r = (x, r')"
  shows "core_ok ok content r' \<and> same_settings r r' \<and> bc_blocks r' = bc_blocks r \<and> bc_size r' = bc_size r \<and>
     bc_wrapped_pos r' = bc_wrapped_pos r \<and>
     (\<forall>data. x = Inr data \<longrightarrow> data = take (nat n) (drop (position (bc_wrapped r)) content) \<and>
        position (bc_wrapped r') = position (bc_wrapped r) + length data)"
proof -
  from assms(1) have ok: "ok (bc_wrapped r)" by (simp add: core_ok_def)
  from assms(3) obtain y w where s: "so_read ops n (bc_wrapped r) = (y, w)" "r' = r\<lparr>bc_wrapped := w\<rparr>"
    "x = (case y of Inl e \<Rightarrow> Inl (WrappedError e) | Inr v \<Rightarrow> Inr v)" by (rule wrapped_callE)
  have "ok w" using read_ok [OF ok assms(2)] s(1) by (metis snd_conv)
  with assms(1) s(2) have "core_ok ok content r'" by (simp add: core_ok_def)
  moreover have "data = take (nat n) (drop (position (bc_wrapped r)) content) \<and>
      position w = position (bc_wrapped r) + length data" if "x = Inr data" for data
    using read_data [OF ok assms(2)] s(1, 3) that by (auto split: sum.splits)
  ultimately show ?thesis using s(2) by (auto simp: same_settings_def)
qed

lemma wrapped_seek_ok:
  assumes "core_ok ok content r" "0 \<le> k" "wrapped_call (so_seek ops k SEEK_SET) r = (x, r')"
  shows "core_ok ok content r' \<and> same_settings r r' \<and> bc_blocks r' = bc_blocks r \<and> bc_size r' = bc_size r \<and>
     bc_wrapped_pos r' = bc_wrapped_pos r \<and>
     (\<forall>p. x = Inr p \<longrightarrow> p = int (position (bc_wrapped r')) \<and> (p = k \<or> blen content \<le> k \<and> p = blen content))"
proof -
  from assms(1) have ok: "ok (bc_wrapped r)" by (simp add: core_ok_def)
  from assms(3) obtain y w where s: "so_seek ops k SEEK_SET (bc_wrapped r) = (y, w)" "r' = r\<lparr>bc_wrapped := w\<rparr>"
    "x = (case y of Inl e \<Rightarrow> Inl (WrappedError e) | Inr v \<Rightarrow> Inr v)" by (rule wrapped_callE)
  have "ok w" using seek_set_ok [OF ok assms(2)] s(1) by (metis snd_conv)
  with assms(1) s(2) have "core_ok ok content r'" by (simp add: core_ok_def)
  moreover have "p = int (position w) \<and> (p = k \<or> blen content \<le> k \<and> p = blen content)" if "x = Inr p" for p
    using seek_set [OF ok assms(2)] s(1, 3) that by (auto split: sum.splits)
  ultimately show ?thesis using s(2) by (auto simp: same_settings_def)
qed

lemma object_size_ok:
  assumes "core_ok ok content r" "bc_size r \<noteq> None \<Longrightarrow> position_ok position content r"
    and "object_size ops r = (x, r')"
  shows "cache_ok position ok content r' \<and> same_settings r r' \<and> bc_blocks r' = bc_blocks r \<and>
     (\<forall>n. x = Inr n \<longrightarrow> n = blen content \<and> bc_size r' = Some n)"
proof (cases "bc_size r")
  case None
  from assms(1) have ok: "ok (bc_wrapped r)" by (simp add: core_ok_def)
  obtain y w where s: "so_seek ops 0 SEEK_END (bc_wrapped r) = (y, w)" by fastforce
  have "ok w" using seek_end_ok [OF ok] s by simp
  have e: "p = blen content \<and> position w = length content" if "y = Inr p" for p
    using seek_end [OF ok] s that by blast
  from None s assms(3) \<open>ok w\<close> e assms(1) show ?thesis
    by (cases y) (auto simp: object_size_def sbind_def wrapped_call_def cache_ok_def core_ok_def
        position_ok_def same_settings_def)
next
  case (Some n)
  with assms have "x = Inr n" "r' = r" by (auto simp: object_size_def)
  with assms Some show ?thesis by (auto simp: cache_ok_def core_ok_def)
qed

lemma skip_gap_ok:
  assumes "core_ok ok content r" "bc_wrapped_pos r < 0" "p = int (position (bc_wrapped r))" "p \<le> start"
    "p < start \<Longrightarrow> p \<le> blen content" "skip_gap ops start p r = (x, r')"
  shows "core_ok ok content r' \<and> bc_wrapped_pos r' < 0 \<and> same_settings r r' \<and> bc_blocks r' = bc_blocks r \<and>
     bc_size r' = bc_size r \<and>
     (case x of Inl e \<Rightarrow> True | Inr (reached, q) \<Rightarrow> q = int (position (bc_wrapped r')) \<and>
        (if reached then q = start \<and> (p \<le> blen content \<longrightarrow> q \<le> blen content)
         else q = blen content \<and> q < start))"
  using assms
proof (induction "nat (start - p)" arbitrary: p r x r' rule: less_induct)
  case less
  show ?case
  proof (cases "p < start")
    case False
    with less.prems show ?thesis by (auto simp: skip_gap.simps)
  next
    case True
    let ?n = "min (start - p) (bc_block_size r)"
    have n: "0 < ?n" using True less.prems(1) by (simp add: core_ok_def)
    obtain y r1 where c: "wrapped_call (so_read ops ?n) r = (y, r1)" by fastforce
    note call = wrapped_read_ok [OF less.prems(1) _ c]
    show ?thesis
    proof (cases y)
      case (Inl e)
      with True c less.prems(6) have "x = Inl e" "r' = r1" by (auto simp: skip_gap.simps [of _ _ p])
      with call n less.prems(2) show ?thesis by auto
    next
      case (Inr data)
      have data: "data = take (nat ?n) (drop (position (bc_wrapped r)) content)"
        "position (bc_wrapped r1) = position (bc_wrapped r) + length data"
        using call n Inr by auto
      show ?thesis
      proof (cases "data = []")
        case empty: True
        with True c Inr less.prems(6) have x: "x = Inr (False, p)" "r' = r1"
          by (auto simp: skip_gap.simps [of _ _ p])
        have "length content \<le> position (bc_wrapped r)" using empty data(1) n by auto
        with less.prems(3, 5) True have "p = blen content" by simp
        with x call n less.prems(2, 3) True empty data(2) show ?thesis by auto
      next
        case False
        with True c Inr less.prems(6) have x: "skip_gap ops start (p + blen data) r1 = (x, r')"
          by (auto simp: skip_gap.simps [of _ _ p])
        have len: "0 < blen data" "blen data \<le> ?n" using False data(1) n by auto
        have "position (bc_wrapped r) + length data \<le> length content" using data(1) False by auto
        then have p': "p + blen data = int (position (bc_wrapped r1))" "p + blen data \<le> blen content"
          using data(2) less.prems(3) by auto
        have "nat (start - (p + blen data)) < nat (start - p)" using len True by simp
        have r1: "core_ok ok content r1" "same_settings r r1" "bc_blocks r1 = bc_blocks r"
          "bc_size r1 = bc_size r" "bc_wrapped_pos r1 = bc_wrapped_pos r"
          using call n by simp_all
        have "bc_wrapped_pos r1 < 0" "p + blen data \<le> start" using r1(5) less.prems(2) len(2) by simp_all
        from less.hyps [OF \<open>nat (start - (p + blen data)) < nat (start - p)\<close> r1(1) this(1) p'(1) this(2) p'(2) x]
          r1(2-4) p'(2) same_settings_trans [OF r1(2), of r']
        show ?thesis by (auto split: sum.splits prod.splits if_splits)
      qed
    qed
  qed
qed

lemma fetch_block_ok:
  assumes core: "core_ok ok content r" and unknown: "bc_wrapped_pos r < 0"
    and p: "p = int (position (bc_wrapped r))" "p = index * bc_block_size r" "\<not> sought \<Longrightarrow> p \<le> blen content"
    and new: "index \<notin> fst ` set (bc_blocks r)" and size: "bc_size r = None \<or> p < blen content"
    and f: "fetch_block ops sought index p r = (x, r')"
  shows "cache_ok position ok content r' \<and> same_settings r r' \<and>
     (\<forall>b. x = Inr b \<longrightarrow> b = content_block content (bc_block_size r) index)"
proof -
  let ?bs = "bc_block_size r"
  have bs: "0 < ?bs" using core by (simp add: core_ok_def)
  obtain y r0 where c: "wrapped_call (so_read ops ?bs) r = (y, r0)" by fastforce
  note call = wrapped_read_ok [OF core _ c]
  show ?thesis
  proof (cases y)
    case (Inl e)
    with c f have "x = Inl e" "r' = r0" by (auto simp: fetch_block_def sbind_def)
    with call bs unknown show ?thesis by (auto simp: cache_ok_def position_ok_def)
  next
    case (Inr block)
    let ?r = "r0\<lparr>bc_wrapped_pos := p + blen block\<rparr>"
    have r0: "core_ok ok content r0" "same_settings r r0" "bc_blocks r0 = bc_blocks r" "bc_size r0 = bc_size r"
      and pos: "position (bc_wrapped r0) = position (bc_wrapped r) + length block"
      and block: "block = content_block content ?bs index"
      using call bs Inr p by (auto simp: content_block_def)
    have core': "core_ok ok content ?r" using r0(1) by (simp add: core_ok_def)
    have pos': "bc_wrapped_pos ?r = int (position (bc_wrapped ?r))" using pos p(1) by simp
    show ?thesis
    proof (cases "block = []")
      case True
      then have past: "blen content \<le> p" using block bs p(1, 2) by (auto simp: content_block_def)
      with size have none: "bc_size ?r = None" using r0(4) by simp
      show ?thesis
      proof (cases sought)
        case True
        obtain z r2 where o: "object_size ops ?r = (z, r2)" by fastforce
        have ok2: "cache_ok position ok content r2" "same_settings ?r r2"
          "\<And>n. z = Inr n \<Longrightarrow> n = blen content \<and> bc_size r2 = Some n"
          using object_size_ok [OF core' _ o] none by auto
        have "x = (case z of Inl e \<Rightarrow> Inl e | Inr n \<Rightarrow> Inr block)" "r' = r2"
          using f c Inr True \<open>block = []\<close> o ok2(3)
          by (auto simp: fetch_block_def sbind_def split: sum.splits)
        with ok2 r0(2) block show ?thesis by (auto simp: same_settings_def split: sum.splits)
      next
        case False
        with f c Inr \<open>block = []\<close> have "x = Inr block" "r' = ?r\<lparr>bc_size := Some p\<rparr>"
          by (auto simp: fetch_block_def sbind_def sreturn_def)
        moreover have "p = blen content" using p(3) False past by simp
        ultimately show ?thesis using core' pos' p(1) True r0(2) block
          by (auto simp: cache_ok_def core_ok_def position_ok_def same_settings_def)
      qed
    next
      case False
      let ?blocks = "bc_blocks r @ [(index, block)]"
      let ?kept = "if int (length ?blocks) > bc_max_blocks r then tl ?blocks else ?blocks"
      have out: "x = Inr block" "r' = ?r\<lparr>bc_size := if blen block < ?bs then Some (p + blen block) else bc_size r,
          bc_blocks := ?kept\<rparr>"
        using f c Inr False r0 by (auto simp: fetch_block_def sbind_def Let_def same_settings_def)
      have le: "position (bc_wrapped r0) \<le> length content"
        using False block pos p(1, 2) by (auto simp: content_block_def)
      have sz: "p + blen block = blen content" if "blen block < ?bs"
        using that block False p(1, 2) by (auto simp: content_block_def)
      have keys: "distinct (map fst ?blocks)" using core new by (simp add: core_ok_def)
      have "distinct (map fst ?kept)" using keys distinct_tl [OF keys] by (simp add: map_tl)
      moreover have "int (length ?kept) \<le> bc_max_blocks r" using core by (auto simp: core_ok_def)
      moreover have "set ?kept \<subseteq> set ?blocks" by (cases "bc_blocks r") auto
      then have "\<forall>(i, b) \<in> set ?kept. b = content_block content ?bs i \<and> b \<noteq> [] \<and>
          (blen b < ?bs \<longrightarrow> bc_size r' \<noteq> None)"
        using core block False out(2) by (fastforce simp: core_ok_def)
      ultimately show ?thesis using core' pos' le sz out r0 block
        by (auto simp: cache_ok_def core_ok_def position_ok_def same_settings_def)
    qed
  qed
qed

lemma content_block_past: "0 < bs \<Longrightarrow> blen content \<le> index * bs \<Longrightarrow> content_block content bs index = []"
  by (simp add: content_block_def)

lemma block_at_ok:
  assumes ok: "cache_ok position ok content r" and index: "0 \<le> index" and f: "block_at ops index r = (x, r')"
  shows "cache_ok position ok content r' \<and> same_settings r r' \<and>
     (\<forall>b. x = Inr b \<longrightarrow> b = content_block content (bc_block_size r) index)"
proof -
  let ?bs = "bc_block_size r" and ?start = "index * bc_block_size r"
  have core: "core_ok ok content r" and bs: "0 < ?bs" using ok by (auto simp: cache_ok_def core_ok_def)
  show ?thesis
  proof (cases "map_of (bc_blocks r) index")
    case (Some block)
    then have mem: "(index, block) \<in> set (bc_blocks r)" by (rule map_of_SomeD)
    let ?blocks = "filter (\<lambda>b. fst b \<noteq> index) (bc_blocks r) @ [(index, block)]"
    have out: "x = Inr block" "r' = r\<lparr>bc_blocks := ?blocks\<rparr>" using f Some by (auto simp: block_at_def)
    have "distinct (map fst (bc_blocks r))" using core by (simp add: core_ok_def)
    then have d: "distinct (map fst ?blocks)" by (auto simp: distinct_map_filter)
    have "length (filter (\<lambda>b. fst b \<noteq> index) (bc_blocks r)) < length (bc_blocks r)"
      using mem by (auto intro!: length_filter_less)
    then have "int (length ?blocks) \<le> bc_max_blocks r" using core by (simp add: core_ok_def)
    moreover have "block = content_block content ?bs index" using core mem by (auto simp: core_ok_def)
    moreover have "\<forall>(i, b) \<in> set ?blocks. b = content_block content ?bs i \<and> b \<noteq> [] \<and>
        (blen b < ?bs \<longrightarrow> bc_size r \<noteq> None)"
      using core mem by (auto simp: core_ok_def)
    ultimately show ?thesis using ok out d
      by (simp add: cache_ok_def core_ok_def position_ok_def same_settings_def)
  next
    case None
    then have new: "index \<notin> fst ` set (bc_blocks r)" by (simp add: map_of_eq_None_iff)
    show ?thesis
    proof (cases "case bc_size r of None \<Rightarrow> False | Some n \<Rightarrow> ?start \<ge> n")
      case True
      with None f have "x = Inr []" "r' = r" by (auto simp: block_at_def split: option.splits)
      moreover have "blen content \<le> ?start"
        using True core by (auto simp: core_ok_def split: option.splits)
      ultimately show ?thesis using ok content_block_past [OF bs] by simp
    next
      case False
      then have size: "bc_size r = None \<or> ?start < blen content"
        using core by (auto simp: core_ok_def split: option.splits)
      let ?sought = "bc_wrapped_pos r < 0 \<or> \<not> (0 \<le> ?start - bc_wrapped_pos r \<and>
          ?start - bc_wrapped_pos r \<le> bc_skip_threshold r)"
      let ?r = "r\<lparr>bc_wrapped_pos := - 1\<rparr>"
      define op where "op = (if ?sought then wrapped_call (so_seek ops ?start SEEK_SET) else sreturn (bc_wrapped_pos r))"
      obtain y r1 where c: "op ?r = (y, r1)" by fastforce
      have core1: "core_ok ok content ?r" using core by (simp add: core_ok_def)
      have start: "0 \<le> ?start" using index bs by simp
      have r1: "core_ok ok content r1" "same_settings r r1" "bc_blocks r1 = bc_blocks r" "bc_size r1 = bc_size r"
        "bc_wrapped_pos r1 = - 1"
        using wrapped_seek_ok [OF core1 start, of y r1] c core1
        by (auto simp: op_def sreturn_def same_settings_def split: if_splits)
      have y: "p = int (position (bc_wrapped r1)) \<and> p \<le> ?start \<and> (p < ?start \<or> \<not> ?sought \<longrightarrow> p \<le> blen content)"
        if "y = Inr p" for p
        using that wrapped_seek_ok [OF core1 start, of y r1] c ok
        by (auto simp: op_def sreturn_def cache_ok_def position_ok_def split: if_splits)
      show ?thesis
      proof (cases y)
        case (Inl e)
        with c None False f have "x = Inl e" "r' = r1"
          by (auto simp: block_at_def op_def sbind_def Let_def)
        with r1 show ?thesis by (auto simp: cache_ok_def position_ok_def)
      next
        case (Inr p)
        obtain z r2 where g: "skip_gap ops ?start p r1 = (z, r2)" by fastforce
        have r2: "core_ok ok content r2" "bc_wrapped_pos r2 < 0" "same_settings r1 r2"
          "bc_blocks r2 = bc_blocks r" "bc_size r2 = bc_size r"
          and z: "\<And>reached q. z = Inr (reached, q) \<Longrightarrow> q = int (position (bc_wrapped r2)) \<and>
            (if reached then q = ?start \<and> (p \<le> blen content \<longrightarrow> q \<le> blen content)
             else q = blen content \<and> q < ?start)"
          using skip_gap_ok [OF r1(1) _ _ _ _ g] r1 y [OF Inr] by auto
        have rr2: "same_settings r r2" using same_settings_trans [OF r1(2) r2(3)] .
        show ?thesis
        proof (cases z)
          case (Inl e)
          with c None False f Inr g have "x = Inl e" "r' = r2"
            by (auto simp: block_at_def op_def sbind_def Let_def)
          with r2 rr2 show ?thesis by (auto simp: cache_ok_def position_ok_def)
        next
          case gap: (Inr found)
          obtain reached q where q: "found = (reached, q)" by fastforce
          note q' = z [OF gap [unfolded q]]
          show ?thesis
          proof (cases reached)
            case True
            with c None False f Inr g gap q have "fetch_block ops ?sought index q r2 = (x, r')"
              by (auto simp: block_at_def op_def sbind_def Let_def)
            moreover have "\<not> ?sought \<Longrightarrow> q \<le> blen content" using q' True y [OF Inr] by simp
            moreover have "q = int (position (bc_wrapped r2))" "q = ?start" using q' True by simp_all
            moreover have "bc_block_size r2 = ?bs" using rr2 by (simp add: same_settings_def)
            ultimately show ?thesis
              using fetch_block_ok [OF r2(1, 2), of q index ?sought x r'] size new r2(4, 5)
                same_settings_trans [OF rr2, of r'] by metis
          next
            case False': False
            with c None False f Inr g gap q
            have "x = Inr []" "r' = r2\<lparr>bc_wrapped_pos := q, bc_size := Some q\<rparr>"
              by (auto simp: block_at_def op_def sbind_def Let_def)
            with r2 rr2 q' False' show ?thesis using content_block_past [OF bs, of index]
              by (auto simp: cache_ok_def core_ok_def position_ok_def same_settings_def)
          qed
        qed
      qed
    qed
  qed
qed

end

section \<open>Reading\<close>

lemma drop_chunk: "chunk = take k (drop p xs) \<Longrightarrow> drop p xs = chunk @ drop (p + length chunk) xs"
  by (metis add.commute append_eq_conv_conj append_take_drop_id drop_drop)

context cached_stream
begin

text \<open>A chunk is what the content has at the position, up to the end of its block.\<close>

lemma chunk_of_block:
  assumes "0 < bs" "0 \<le> pos"
  shows "py_slice (content_block content bs (pos div bs)) (pos mod bs) (pos mod bs + int limit) =
     take (min limit (nat (bs - pos mod bs))) (drop (nat pos) content)"
proof -
  let ?o = "pos mod bs" and ?s = "pos div bs * bs"
  have o: "0 \<le> ?o" "?o < bs" and s: "0 \<le> ?s" using assms by (simp_all add: pos_imp_zdiv_nonneg_iff)
  have "pos = ?s + ?o" by simp
  then have pos: "nat pos = nat ?s + nat ?o" using o s by linarith
  have "py_slice (content_block content bs (pos div bs)) ?o (?o + int limit) =
      take limit (drop (nat ?o) (content_block content bs (pos div bs)))"
    using o by (simp add: py_slice_nonneg nat_add_distrib)
  also have "\<dots> = take limit (take (nat bs - nat ?o) (drop (nat pos) content))"
    unfolding content_block_def pos by (simp add: drop_take add.commute)
  finally show ?thesis using o by (simp add: nat_diff_distrib min.commute)
qed

lemma next_chunk_ok:
  assumes ok: "cache_ok position ok content r" and f: "next_chunk ops limit r = (x, r')"
  shows "cache_ok position ok content r' \<and> bc_closed r' = bc_closed r \<and> bc_block_size r' = bc_block_size r \<and>
     bc_max_blocks r' = bc_max_blocks r \<and>
     (case x of
        Inl e \<Rightarrow> bc_pos r' = bc_pos r
      | Inr chunk \<Rightarrow>
          chunk = take (min limit (nat (bc_block_size r - bc_pos r mod bc_block_size r))) (drop (nat (bc_pos r)) content) \<and>
          bc_pos r' = bc_pos r + blen chunk)"
proof -
  let ?bs = "bc_block_size r" and ?pos = "bc_pos r"
  have bs: "0 < ?bs" and pos: "0 \<le> ?pos" using ok by (auto simp: cache_ok_def core_ok_def)
  obtain y r1 where b: "block_at ops (?pos div ?bs) r = (y, r1)" by fastforce
  have r1: "cache_ok position ok content r1" "same_settings r r1"
    "\<And>b. y = Inr b \<Longrightarrow> b = content_block content ?bs (?pos div ?bs)"
    using block_at_ok [OF ok _ b] bs pos by (auto simp: pos_imp_zdiv_nonneg_iff)
  show ?thesis
  proof (cases y)
    case (Inl e)
    with f b have "x = Inl e" "r' = r1" by (auto simp: next_chunk_def Let_def sbind_def)
    with r1 show ?thesis by (simp add: same_settings_def)
  next
    case (Inr block)
    let ?chunk = "py_slice block (?pos mod ?bs) (?pos mod ?bs + int limit)"
    have "x = Inr ?chunk" "r' = r1\<lparr>bc_pos := bc_pos r1 + blen ?chunk\<rparr>"
      using f b Inr by (auto simp: next_chunk_def Let_def sbind_def)
    with r1 chunk_of_block [OF bs pos, of limit] Inr pos show ?thesis
      by (simp add: same_settings_def cache_ok_def core_ok_def position_ok_def)
  qed
qed

text \<open>The chunks of a read, together, are what the content has at the position; an exception leaves a
  reader that is still in order, its position past the chunks already taken.\<close>

lemma chunks_ok:
  assumes "cache_ok position ok content r" "chunks ops limit r = (x, r')"
  shows "cache_ok position ok content r' \<and> bc_closed r' = bc_closed r \<and>
     bc_block_size r' = bc_block_size r \<and>
     (\<forall>cs. x = Inr cs \<longrightarrow> concat cs = take limit (drop (nat (bc_pos r)) content) \<and>
        bc_pos r' = bc_pos r + blen (concat cs))"
  using assms
proof (induction limit arbitrary: r x r' rule: less_induct)
  case (less limit)
  show ?case
  proof (cases "limit = 0")
    case True
    with less.prems show ?thesis by (auto simp: chunks.simps)
  next
    case False
    obtain y r1 where c: "next_chunk ops limit r = (y, r1)" by fastforce
    note step = next_chunk_ok [OF less.prems(1) c]
    show ?thesis
    proof (cases y)
      case (Inl e)
      with c False less.prems(2) have "x = Inl e" "r' = r1" by (auto simp: chunks.simps [of _ limit])
      with step show ?thesis by simp
    next
      case (Inr chunk)
      let ?k = "nat (bc_block_size r - bc_pos r mod bc_block_size r)"
      have bs: "0 < bc_block_size r" and pos: "0 \<le> bc_pos r"
        using less.prems(1) by (auto simp: cache_ok_def core_ok_def)
      then have k: "0 < ?k" by simp
      have r1: "cache_ok position ok content r1" "bc_closed r1 = bc_closed r"
        "bc_pos r1 = bc_pos r + blen chunk" "bc_block_size r1 = bc_block_size r"
        and chunk: "chunk = take (min limit ?k) (drop (nat (bc_pos r)) content)"
        using step Inr by simp_all
      show ?thesis
      proof (cases "chunk = []")
        case True
        with c Inr False less.prems(2) have "x = Inr []" "r' = r1" by (auto simp: chunks.simps [of _ limit])
        moreover have "drop (nat (bc_pos r)) content = []" using chunk True k False by (auto simp: min_def split: if_splits)
        ultimately show ?thesis using r1 True by simp
      next
        case nonempty: False
        obtain z r2 where rec: "chunks ops (limit - length chunk) r1 = (z, r2)" by fastforce
        have "limit - length chunk < limit" using nonempty False by simp
        note IH = less.IH [OF this r1(1) rec]
        have out: "x = (case z of Inl e \<Rightarrow> Inl e | Inr cs \<Rightarrow> Inr (chunk # cs))" "r' = r2"
          using c Inr False nonempty less.prems(2) rec
          by (auto simp: chunks.simps [of _ limit] sbind_def sreturn_def split: sum.splits)
        have "length chunk \<le> limit" using chunk by simp
        have "take limit (drop (nat (bc_pos r)) content) =
            chunk @ take (limit - length chunk) (drop (nat (bc_pos r1)) content)"
        proof -
          have "drop (nat (bc_pos r)) content = chunk @ drop (nat (bc_pos r1)) content"
            using drop_chunk [OF chunk] r1(3) pos by (simp add: nat_add_distrib)
          then show ?thesis using \<open>length chunk \<le> limit\<close> by simp
        qed
        with IH out r1 show ?thesis by (auto split: sum.splits)
      qed
    qed
  qed
qed

lemma read_ok_cached:
  assumes "cache_ok position ok content r" "bc_read ops n r = (x, r')"
  shows "cache_ok position ok content r' \<and>
     (\<forall>data. x = Inr data \<longrightarrow> data = take (limit_of n) (drop (nat (bc_pos r)) content) \<and>
        bc_pos r' = bc_pos r + blen data)"
proof -
  obtain y r1 where c: "chunks ops (limit_of n) r = (y, r1)" by fastforce
  from chunks_ok [OF assms(1) c] assms show ?thesis
    by (auto simp: bc_read_def check_open_def sbind_def sreturn_def c split: sum.splits if_splits)
qed

lemma readinto_loop_ok:
  assumes "cache_ok position ok content r" "readinto_loop ops limit written target r = ((x, view), r')"
    and "0 \<le> written" "nat written + limit \<le> length target"
  shows "cache_ok position ok content r' \<and> length view = length target \<and>
     (let data = take limit (drop (nat (bc_pos r)) content) in
      \<forall>n. x = Inr n \<longrightarrow> n = written + blen data \<and> bc_pos r' = bc_pos r + blen data \<and>
        view = take (nat written) target @ data @ drop (nat written + length data) target)"
  using assms
proof (induction limit arbitrary: r x view r' written target rule: less_induct)
  case (less limit)
  obtain y r1 where c: "next_chunk ops limit r = (y, r1)" by fastforce
  note step = next_chunk_ok [OF less.prems(1) c]
  let ?data = "take limit (drop (nat (bc_pos r)) content)"
  show ?case
  proof (cases "limit = 0 \<or> (\<exists>e. y = Inl e) \<or> y = Inr []")
    case True
    have bs: "0 < bc_block_size r" using less.prems(1) by (auto simp: cache_ok_def core_ok_def)
    then have "0 < nat (bc_block_size r - bc_pos r mod bc_block_size r)" by simp
    then have "?data = []" if "limit \<noteq> 0" "y = Inr []" using step that by (auto simp: min_def split: if_splits)
    with True c less.prems(1, 2, 4) step show ?thesis
      by (auto simp: readinto_loop.simps [of _ limit] Let_def split: if_splits)
  next
    case False
    then obtain chunk where chunk: "y = Inr chunk" "chunk \<noteq> []" and "limit \<noteq> 0" by (cases y) auto
    let ?k = "nat (bc_block_size r - bc_pos r mod bc_block_size r)"
    have pos: "0 \<le> bc_pos r" using less.prems(1) by (auto simp: cache_ok_def core_ok_def)
    have r1: "cache_ok position ok content r1" "bc_pos r1 = bc_pos r + blen chunk"
      and eq: "chunk = take (min limit ?k) (drop (nat (bc_pos r)) content)"
      using step chunk by simp_all
    have len: "length chunk \<le> limit" using eq by simp
    let ?target = "write_view target written chunk"
    have rec: "readinto_loop ops (limit - length chunk) (written + blen chunk) ?target r1 = ((x, view), r')"
      using c chunk \<open>limit \<noteq> 0\<close> less.prems(2) by (auto simp: readinto_loop.simps [of _ limit])
    have lt: "length ?target = length target" using less.prems(3, 4) len by (simp add: write_view_def)
    have "limit - length chunk < limit" using chunk(2) \<open>limit \<noteq> 0\<close> by simp
    from less.IH [OF this r1(1) rec] less.prems(3, 4) len lt
    have IH: "cache_ok position ok content r' \<and> length view = length target \<and>
       (let rest = take (limit - length chunk) (drop (nat (bc_pos r1)) content) in
        \<forall>n. x = Inr n \<longrightarrow> n = written + blen chunk + blen rest \<and> bc_pos r' = bc_pos r1 + blen rest \<and>
          view = take (nat (written + blen chunk)) ?target @ rest @ drop (nat (written + blen chunk) + length rest) ?target)"
      by (simp add: nat_add_distrib)
    have "drop (nat (bc_pos r)) content = chunk @ drop (nat (bc_pos r1)) content"
      using drop_chunk [OF eq] r1(2) pos by (simp add: nat_add_distrib)
    then have data: "?data = chunk @ take (limit - length chunk) (drop (nat (bc_pos r1)) content)"
      using len by simp
    have "take (nat (written + blen chunk)) ?target = take (nat written) target @ chunk"
      "drop (nat (written + blen chunk) + k) ?target = drop (nat written + length chunk + k) target" for k
      using less.prems(3, 4) len by (simp_all add: write_view_def nat_add_distrib add.commute)
    with IH data r1(2) show ?thesis by (auto simp: Let_def add.assoc)
  qed
qed

end

section \<open>The recently used blocks\<close>

text \<open>The blocks in \<open>T\<close> are the most recently used ones.\<close>

definition recent :: "'s block_cache \<Rightarrow> int set \<Rightarrow> bool" where
  "recent r T \<longleftrightarrow> (\<exists>older newer. map fst (bc_blocks r) = older @ newer \<and> set newer = T)"

text \<open>The blocks that hold the \<open>n\<close> bytes from \<open>pos\<close> on.\<close>

definition blocks_of :: "int \<Rightarrow> int \<Rightarrow> nat \<Rightarrow> int set" where
  "blocks_of bs pos n = (\<lambda>k. (pos + int k) div bs) ` {..<n}"

lemma blocks_of_0 [simp]: "blocks_of bs pos 0 = {}"
  by (simp add: blocks_of_def)

lemma blocks_of_add: "blocks_of bs pos (m + n) = blocks_of bs pos m \<union> blocks_of bs (pos + int m) n"
  by (induction n) (auto simp: blocks_of_def lessThan_Suc add.assoc)

lemma blocks_of_inside:
  assumes "0 < bs" "0 < n" "int n \<le> bs - pos mod bs"
  shows "blocks_of bs pos n = {pos div bs}"
proof -
  have "(pos + int k) div bs = pos div bs" if "k < n" for k
  proof -
    have "0 \<le> pos mod bs + int k" "pos mod bs + int k < bs" using assms that by (auto simp: add_nonneg_nonneg)
    then have "(pos mod bs + int k) div bs = 0" by (simp add: div_pos_pos_trivial)
    moreover have "pos + int k = pos div bs * bs + (pos mod bs + int k)" by (simp add: algebra_simps)
    ultimately show ?thesis using assms(1) by (metis add.right_neutral div_mult_self3 less_irrefl)
  qed
  with assms(2) show ?thesis unfolding blocks_of_def by (auto simp: image_iff intro!: bexI [of _ 0])
qed

lemma finite_blocks_of [simp]: "finite (blocks_of bs pos n)"
  by (simp add: blocks_of_def)

text \<open>Evicting the least recently used block keeps the recent ones while there is room for them.\<close>

lemma recent_append:
  assumes "recent r T" "distinct (map fst (bc_blocks r))" "i \<notin> fst ` set (bc_blocks r)"
    and "int (card (insert i T)) \<le> m" "int (length (bc_blocks r)) \<le> m"
    and "bc_blocks r' = (if int (length (bc_blocks r @ [(i, b)])) > m then tl (bc_blocks r @ [(i, b)])
           else bc_blocks r @ [(i, b)])"
  shows "recent r' (insert i T)"
proof -
  obtain older newer where k: "map fst (bc_blocks r) = older @ newer" "set newer = T"
    using assms(1) by (auto simp: recent_def)
  have "i \<notin> set (map fst (bc_blocks r))" using assms(3) by simp
  then have "distinct newer" "i \<notin> T" using assms(2) k by simp_all
  then have card: "card (insert i T) = Suc (length newer)" using k(2) by (metis List.finite_set card_insert_disjoint distinct_card)
  have len: "length (bc_blocks r) = length older + length newer" using k(1) by (metis length_append length_map)
  show ?thesis
  proof (cases "int (length (bc_blocks r @ [(i, b)])) > m")
    case True
    then have "older \<noteq> []" using len card assms(4) by auto
    then have "map fst (bc_blocks r') = tl older @ newer @ [i]"
      using assms(6) True k(1) by (simp add: map_tl)
    with k(2) show ?thesis unfolding recent_def by (metis Un_insert_right list.simps(15) set_append sup_bot.right_neutral empty_set)
  next
    case False
    then have "map fst (bc_blocks r') = older @ newer @ [i]" using assms(6) k(1) by simp
    with k(2) show ?thesis unfolding recent_def by (metis Un_insert_right list.simps(15) set_append sup_bot.right_neutral empty_set)
  qed
qed

lemma recent_touch:
  assumes "recent r T" "bc_blocks r' = filter (\<lambda>b. fst b \<noteq> i) (bc_blocks r) @ [(i, b)]"
  shows "recent r' (insert i T)"
proof -
  obtain older newer where k: "map fst (bc_blocks r) = older @ newer" "set newer = T"
    using assms(1) by (auto simp: recent_def)
  have "map fst (filter (\<lambda>b. fst b \<noteq> i) (bc_blocks r)) = filter (\<lambda>k. k \<noteq> i) (map fst (bc_blocks r))"
    by (simp add: filter_map comp_def)
  then have "map fst (bc_blocks r') =
      filter (\<lambda>k. k \<noteq> i) older @ (filter (\<lambda>k. k \<noteq> i) newer @ [i])"
    using assms(2) k(1) by simp
  moreover have "set (filter (\<lambda>k. k \<noteq> i) newer @ [i]) = insert i T" using k(2) by auto
  ultimately show ?thesis unfolding recent_def by blast
qed

lemma recent_cached: "recent r T \<Longrightarrow> i \<in> T \<Longrightarrow> i \<in> fst ` set (bc_blocks r)"
  unfolding recent_def by (metis UnI2 set_append set_map)

lemma recent_same: "recent r T \<Longrightarrow> bc_blocks r' = bc_blocks r \<Longrightarrow> recent r' T"
  by (simp add: recent_def)

text \<open>What a call to the wrapped stream and a skipped gap leave alone, whatever the stream does.\<close>

lemma skip_gap_blocks:
  "skip_gap ops start p r = (x, r') \<Longrightarrow> bc_blocks r' = bc_blocks r \<and> bc_max_blocks r' = bc_max_blocks r"
proof (induction "nat (start - p)" arbitrary: p r x r' rule: less_induct)
  case less
  show ?case
  proof (cases "p < start")
    case True
    obtain y r1 where c: "wrapped_call (so_read ops (min (start - p) (bc_block_size r))) r = (y, r1)" by fastforce
    then have r1: "bc_blocks r1 = bc_blocks r \<and> bc_max_blocks r1 = bc_max_blocks r" by (auto elim!: wrapped_callE)
    show ?thesis
    proof (cases "y = Inr [] \<or> (\<exists>e. y = Inl e)")
      case True
      with c less.prems \<open>p < start\<close> r1 show ?thesis by (auto simp: skip_gap.simps [of _ _ p])
    next
      case False
      then obtain data where d: "y = Inr data" "data \<noteq> []" by (cases y) auto
      with c less.prems \<open>p < start\<close> have rec: "skip_gap ops start (p + blen data) r1 = (x, r')"
        by (auto simp: skip_gap.simps [of _ _ p])
      have "nat (start - (p + blen data)) < nat (start - p)" using d(2) \<open>p < start\<close> by (simp flip: length_greater_0_conv)
      from less.hyps [OF this rec] r1 show ?thesis by simp
    qed
  qed (use less.prems in \<open>simp add: skip_gap.simps\<close>)
qed

lemma block_at_recent:
  assumes "recent r T" "distinct (map fst (bc_blocks r))" "int (length (bc_blocks r)) \<le> bc_max_blocks r"
    and "int (card (insert i T)) \<le> bc_max_blocks r" "block_at ops i r = (Inr b, r')" "b \<noteq> []"
  shows "recent r' (insert i T)"
proof (cases "map_of (bc_blocks r) i")
  case (Some block)
  with assms(5) have "bc_blocks r' = filter (\<lambda>b. fst b \<noteq> i) (bc_blocks r) @ [(i, block)]"
    by (auto simp: block_at_def)
  then show ?thesis by (rule recent_touch [OF assms(1)])
next
  case None
  then have new: "i \<notin> fst ` set (bc_blocks r)" by (simp add: map_of_eq_None_iff)
  let ?start = "i * bc_block_size r"
  let ?sought = "bc_wrapped_pos r < 0 \<or> \<not> (0 \<le> ?start - bc_wrapped_pos r \<and>
      ?start - bc_wrapped_pos r \<le> bc_skip_threshold r)"
  define op where "op = (if ?sought then wrapped_call (so_seek ops ?start SEEK_SET) else sreturn (bc_wrapped_pos r))"
  obtain y r1 where c: "op (r\<lparr>bc_wrapped_pos := - 1\<rparr>) = (y, r1)" by fastforce
  have r1: "bc_blocks r1 = bc_blocks r" "bc_max_blocks r1 = bc_max_blocks r"
    using c by (auto simp: op_def sreturn_def elim!: wrapped_callE split: if_splits)
  from c None assms(5, 6) obtain p z r2 where p: "y = Inr p" "skip_gap ops ?start p r1 = (z, r2)"
    by (cases y) (auto simp: block_at_def op_def sbind_def Let_def split: if_splits option.splits prod.splits)
  from skip_gap_blocks [OF p(2)] r1 have r2: "bc_blocks r2 = bc_blocks r" "bc_max_blocks r2 = bc_max_blocks r" by simp_all
  from c None assms(5, 6) p obtain q where "z = Inr (True, q)" and f: "fetch_block ops ?sought i q r2 = (Inr b, r')"
    by (cases z) (auto simp: block_at_def op_def sbind_def Let_def split: if_splits option.splits prod.splits)
  have "bc_blocks r' = (if int (length (bc_blocks r @ [(i, b)])) > bc_max_blocks r then tl (bc_blocks r @ [(i, b)])
           else bc_blocks r @ [(i, b)])"
    using f assms(6) r2
    by (auto simp: fetch_block_def sbind_def Let_def split: if_splits sum.splits prod.splits elim!: wrapped_callE)
  from recent_append [OF assms(1, 2) new assms(4, 3) this] show ?thesis .
qed

context cached_stream
begin

lemma cache_okD:
  assumes "cache_ok position ok content r"
  shows "0 < bc_block_size r" "0 \<le> bc_pos r" "distinct (map fst (bc_blocks r))"
    "int (length (bc_blocks r)) \<le> bc_max_blocks r" "bc_size r = None \<or> bc_size r = Some (blen content)"
  using assms by (simp_all add: cache_ok_def core_ok_def)

lemma block_at_empty:
  assumes "cache_ok position ok content r" "0 \<le> i" "block_at ops i r = (Inr [], r')"
  shows "bc_blocks r' = bc_blocks r \<and> bc_size r' \<noteq> None"
proof -
  have "map_of (bc_blocks r) i = None"
  proof (rule ccontr)
    assume "map_of (bc_blocks r) i \<noteq> None"
    then obtain b where b: "map_of (bc_blocks r) i = Some b" by blast
    then have "(i, b) \<in> set (bc_blocks r)" by (rule map_of_SomeD)
    then have "b \<noteq> []" using assms(1) by (auto simp: cache_ok_def core_ok_def)
    with b assms(3) show False by (simp add: block_at_def)
  qed
  note none = this
  show ?thesis
  proof (cases "case bc_size r of None \<Rightarrow> False | Some n \<Rightarrow> i * bc_block_size r \<ge> n")
    case True
    with none assms(3) show ?thesis by (auto simp: block_at_def split: option.splits)
  next
    case False
    let ?start = "i * bc_block_size r"
    let ?sought = "bc_wrapped_pos r < 0 \<or> \<not> (0 \<le> ?start - bc_wrapped_pos r \<and>
        ?start - bc_wrapped_pos r \<le> bc_skip_threshold r)"
    define op where "op = (if ?sought then wrapped_call (so_seek ops ?start SEEK_SET) else sreturn (bc_wrapped_pos r))"
    obtain y r1 where c: "op (r\<lparr>bc_wrapped_pos := - 1\<rparr>) = (y, r1)" by fastforce
    have r1: "bc_blocks r1 = bc_blocks r"
      using c by (auto simp: op_def sreturn_def elim!: wrapped_callE split: if_splits)
    have body: "block_at ops i r =
        sbind op (\<lambda>p. sbind (skip_gap ops ?start p) (\<lambda>(reached, p).
          if reached then fetch_block ops ?sought i p
          else (\<lambda>r'. (Inr [], r'\<lparr>bc_wrapped_pos := p, bc_size := Some p\<rparr>)))) (r\<lparr>bc_wrapped_pos := - 1\<rparr>)"
      by (simp only: block_at_def op_def Let_def none option.case False if_False)
    with c assms(3) obtain p where p: "y = Inr p" by (cases y) (auto simp: sbind_def)
    obtain z r2 where g: "skip_gap ops ?start p r1 = (z, r2)" by fastforce
    have r2: "bc_blocks r2 = bc_blocks r" using skip_gap_blocks [OF g] r1 by simp
    from body c p g assms(3) obtain reached q where z: "z = Inr (reached, q)"
      by (cases z) (auto simp: sbind_def)
    show ?thesis
    proof (cases reached)
      case False
      with body c p g z assms(3) r2 show ?thesis by (auto simp: sbind_def)
    next
      case True
      with body c p g z assms(3) have f: "fetch_block ops ?sought i q r2 = (Inr [], r')"
        by (auto simp: sbind_def)
      show ?thesis
      proof (cases ?sought)
        case True
        with f r2 show ?thesis
          by (auto simp: fetch_block_def object_size_def sbind_def Let_def
              split: sum.splits prod.splits option.splits if_splits elim!: wrapped_callE)
      next
        case False
        with f r2 show ?thesis
          by (auto simp: fetch_block_def sbind_def sreturn_def Let_def
              split: sum.splits prod.splits if_splits elim!: wrapped_callE)
      qed
    qed
  qed
qed

lemma next_chunk_recent:
  assumes ok: "cache_ok position ok content r" and T: "recent r T"
    and c: "next_chunk ops limit r = (Inr chunk, r')" and limit: "0 < limit"
  shows "chunk \<noteq> [] \<Longrightarrow> int (card (insert (bc_pos r div bc_block_size r) T)) \<le> bc_max_blocks r \<Longrightarrow>
      recent r' (insert (bc_pos r div bc_block_size r) T)"
    and "chunk = [] \<Longrightarrow> bc_size r' \<noteq> None"
proof -
  let ?i = "bc_pos r div bc_block_size r"
  note bs = cache_okD [OF ok]
  obtain block r1 where b: "block_at ops ?i r = (Inr block, r1)"
    and out: "chunk = py_slice block (bc_pos r mod bc_block_size r) (bc_pos r mod bc_block_size r + int limit)"
      "r' = r1\<lparr>bc_pos := bc_pos r1 + blen chunk\<rparr>"
    using c by (auto simp: next_chunk_def Let_def sbind_def split: sum.splits prod.splits)
  have i: "0 \<le> ?i" using bs(1, 2) by (simp add: pos_imp_zdiv_nonneg_iff)
  {
    assume "chunk \<noteq> []" "int (card (insert ?i T)) \<le> bc_max_blocks r"
    moreover from this have "block \<noteq> []" using out(1) by (auto simp: py_slice_def)
    ultimately have "recent r1 (insert ?i T)" using block_at_recent [OF T bs(3, 4) _ b] by simp
    then show "recent r' (insert ?i T)" by (rule recent_same) (simp add: out(2))
  }
  {
    assume empty: "chunk = []"
    show "bc_size r' \<noteq> None"
    proof (cases "block = []")
      case True
      with block_at_empty [OF ok i] b out(2) show ?thesis by simp
    next
      case False
      have "recent r {}" unfolding recent_def by (metis append_Nil2 empty_set)
      moreover have "int (card {?i}) \<le> bc_max_blocks r" using ok by (simp add: cache_ok_def core_ok_def)
      ultimately have "recent r1 {?i}" using block_at_recent [OF _ bs(3, 4) _ b False] by simp
      then have "?i \<in> fst ` set (bc_blocks r1)" by (rule recent_cached) simp
      then obtain b' where mem: "(?i, b') \<in> set (bc_blocks r1)" by auto
      have r1: "cache_ok position ok content r1" "same_settings r r1"
        "block = content_block content (bc_block_size r) ?i"
        using block_at_ok [OF ok i b] by auto
      have "blen block < bc_block_size r"
      proof (rule ccontr)
        assume "\<not> blen block < bc_block_size r"
        moreover have "0 \<le> bc_pos r mod bc_block_size r" "bc_pos r mod bc_block_size r < bc_block_size r"
          using bs(1) by simp_all
        ultimately have "chunk \<noteq> []" using out(1) limit by (simp add: py_slice_nonneg)
        with empty show False by simp
      qed
      moreover have "b' = block" using mem r1 by (auto simp: cache_ok_def core_ok_def same_settings_def)
      ultimately have "bc_size r1 \<noteq> None" using mem r1(1, 2)
        by (auto simp: cache_ok_def core_ok_def same_settings_def)
      then show ?thesis using out(2) by simp
    qed
  }
qed

end

lemma recent_empty: "recent r {}"
  unfolding recent_def by (metis append_Nil2 empty_set)

lemma div_same_block: "(0::int) < bs \<Longrightarrow> pos div bs * bs < pos \<Longrightarrow> (pos - 1) div bs = pos div bs"
proof -
  assume bs: "0 < bs" and "pos div bs * bs < pos"
  then have "0 < pos mod bs" by (metis div_mult_mod_eq less_add_same_cancel1)
  moreover have "pos mod bs < bs" using bs by simp
  moreover have "pos - 1 = pos div bs * bs + (pos mod bs - 1)" by simp
  ultimately show ?thesis by (intro int_div_pos_eq [of _ _ _ "pos mod bs - 1"]) (simp_all add: mult.commute)
qed

lemma last_block_of: "0 < n \<Longrightarrow> (pos + int n - 1) div bs \<in> blocks_of bs pos n"
  unfolding blocks_of_def by (rule image_eqI [of _ _ "n - 1"]) (simp_all add: of_nat_diff algebra_simps)

context cached_stream
begin

text \<open>An empty chunk leaves the recent blocks recent.\<close>

lemma next_chunk_empty_recent:
  assumes ok: "cache_ok position ok content r" and T: "recent r T" "int (card T) \<le> bc_max_blocks r"
    and prev: "T = {} \<or> (bc_pos r - 1) div bc_block_size r \<in> T"
    and c: "next_chunk ops limit r = (Inr [], r')" and limit: "0 < limit"
  shows "recent r' T"
proof -
  let ?bs = "bc_block_size r" and ?i = "bc_pos r div bc_block_size r"
  note bs = cache_okD [OF ok]
  obtain block r1 where b: "block_at ops ?i r = (Inr block, r1)" and out: "r' = r1\<lparr>bc_pos := bc_pos r1\<rparr>"
    using c by (auto simp: next_chunk_def Let_def sbind_def split: sum.splits prod.splits)
  have i: "0 \<le> ?i" using bs(1, 2) by (simp add: pos_imp_zdiv_nonneg_iff)
  have "recent r1 T"
  proof (cases "block = []")
    case True
    with block_at_empty [OF ok i] b have "bc_blocks r1 = bc_blocks r" by simp
    with T(1) show ?thesis by (rule recent_same)
  next
    case False
    have "block = content_block content ?bs ?i" using block_at_ok [OF ok i b] by simp
    with False have start: "?i * ?bs < blen content" by (auto simp: content_block_def)
    have "0 < nat (?bs - bc_pos r mod ?bs)" using bs(1) by simp
    then have "blen content \<le> bc_pos r"
      using next_chunk_ok [OF ok c] limit bs(2) by (auto simp: min_def split: if_splits)
    with start bs(1) have "(bc_pos r - 1) div ?bs = ?i" by (intro div_same_block) simp_all
    with prev consider "T = {}" | "?i \<in> T" by auto
    then show ?thesis
    proof cases
      case 1
      then show ?thesis by (simp add: recent_empty)
    next
      case 2
      then have "insert ?i T = T" by blast
      with block_at_recent [OF T(1) bs(3, 4) _ b False] T(2) show ?thesis by simp
    qed
  qed
  then show ?thesis by (rule recent_same) (simp add: out)
qed

text \<open>After a read, the blocks it touched are the most recently used ones, and a short read has
  learned the size.\<close>

lemma chunks_recent:
  assumes "cache_ok position ok content r" "recent r T" "finite T" "chunks ops limit r = (Inr cs, r')"
    and "int (card (T \<union> blocks_of (bc_block_size r) (bc_pos r) (length (concat cs)))) \<le> bc_max_blocks r"
    and "T = {} \<or> (bc_pos r - 1) div bc_block_size r \<in> T"
  shows "recent r' (T \<union> blocks_of (bc_block_size r) (bc_pos r) (length (concat cs))) \<and>
     (length (concat cs) < limit \<longrightarrow> bc_size r' \<noteq> None)"
  using assms
proof (induction limit arbitrary: r T cs r' rule: less_induct)
  case (less limit)
  let ?bs = "bc_block_size r" and ?i = "bc_pos r div bc_block_size r"
  show ?case
  proof (cases "limit = 0")
    case True
    with less.prems show ?thesis by (auto simp: chunks.simps)
  next
    case False
    then obtain chunk r1 where c: "next_chunk ops limit r = (Inr chunk, r1)"
      using less.prems(4) by (auto simp: chunks.simps [of _ limit] split: sum.splits prod.splits)
    note step = next_chunk_ok [OF less.prems(1) c]
    note now = next_chunk_recent [OF less.prems(1, 2) c]
    show ?thesis
    proof (cases "chunk = []")
      case True
      with False c less.prems(4) have "cs = []" "r' = r1" by (auto simp: chunks.simps [of _ limit])
      with next_chunk_empty_recent [OF less.prems(1, 2) _ less.prems(6)] c True False now(2) less.prems(5)
      show ?thesis by simp
    next
      case nonempty: False
      then obtain cs' where m: "chunks ops (limit - length chunk) r1 = (Inr cs', r')" "cs = chunk # cs'"
        using c False less.prems(4)
        by (auto simp: chunks.simps [of _ limit] sbind_def sreturn_def split: sum.splits prod.splits)
      have bs: "0 < ?bs" using cache_okD [OF less.prems(1)] by simp
      have r1: "cache_ok position ok content r1" "bc_block_size r1 = ?bs" "bc_pos r1 = bc_pos r + blen chunk"
        and eq: "chunk = take (min limit (nat (?bs - bc_pos r mod ?bs))) (drop (nat (bc_pos r)) content)"
        using step by auto
      have le: "length chunk \<le> limit" "length chunk \<le> nat (?bs - bc_pos r mod ?bs)" using eq by auto
      moreover have "0 \<le> ?bs - bc_pos r mod ?bs" using pos_mod_bound [OF bs, of "bc_pos r"] by simp
      ultimately have le2: "blen chunk \<le> ?bs - bc_pos r mod ?bs" by (simp add: le_nat_iff)
      have max: "bc_max_blocks r1 = bc_max_blocks r" using step by simp
      have here: "blocks_of ?bs (bc_pos r) (length chunk) = {?i}"
        using blocks_of_inside [OF bs _ le2] nonempty by simp
      have all: "T \<union> blocks_of ?bs (bc_pos r) (length (concat cs)) =
          insert ?i T \<union> blocks_of ?bs (bc_pos r1) (length (concat cs'))"
        using m(2) here r1(3) by (simp add: blocks_of_add)
      then have "card (insert ?i T) \<le> card (T \<union> blocks_of ?bs (bc_pos r) (length (concat cs)))"
        using less.prems(3) by (intro card_mono) auto
      with less.prems(5) now(1) nonempty False have T1: "recent r1 (insert ?i T)" by simp
      have "(bc_pos r1 - 1) div ?bs \<in> blocks_of ?bs (bc_pos r) (length chunk)"
        using last_block_of [of "length chunk" "bc_pos r" ?bs] nonempty r1(3) by simp
      with here have "(bc_pos r1 - 1) div ?bs \<in> insert ?i T" by simp
      moreover have "limit - length chunk < limit" using nonempty False by simp
      ultimately have "recent r' (insert ?i T \<union> blocks_of ?bs (bc_pos r1) (length (concat cs'))) \<and>
          (length (concat cs') < limit - length chunk \<longrightarrow> bc_size r' \<noteq> None)"
        using less.IH [OF _ r1(1) T1 _ m(1)] less.prems(3, 5) all r1(2) max by simp
      with all m(2) le show ?thesis by auto
    qed
  qed
qed

text \<open>A chunk out of a cached block makes no call.\<close>

lemma next_chunk_hit:
  assumes "cache_ok position ok content r" "bc_pos r div bc_block_size r \<in> fst ` set (bc_blocks r)"
  shows "\<exists>chunk r'. next_chunk ops limit r = (Inr chunk, r') \<and> bc_wrapped r' = bc_wrapped r \<and>
     fst ` set (bc_blocks r') = fst ` set (bc_blocks r) \<and> bc_size r' = bc_size r"
proof -
  obtain b where "map_of (bc_blocks r) (bc_pos r div bc_block_size r) = Some b"
    using assms(2) by (metis map_of_eq_None_iff not_None_eq)
  with assms(2) show ?thesis by (auto simp: next_chunk_def block_at_def Let_def sbind_def)
qed

lemma next_chunk_known_end:
  assumes "cache_ok position ok content r" "bc_size r = Some (blen content)"
    "blen content \<le> bc_pos r div bc_block_size r * bc_block_size r"
  shows "\<exists>r'. next_chunk ops limit r = (Inr [], r') \<and> bc_wrapped r' = bc_wrapped r"
proof -
  have "map_of (bc_blocks r) (bc_pos r div bc_block_size r) = None"
  proof (rule ccontr)
    assume "map_of (bc_blocks r) (bc_pos r div bc_block_size r) \<noteq> None"
    then obtain b where "map_of (bc_blocks r) (bc_pos r div bc_block_size r) = Some b" by blast
    then have "(bc_pos r div bc_block_size r, b) \<in> set (bc_blocks r)" by (rule map_of_SomeD)
    then have "b \<noteq> []" "b = content_block content (bc_block_size r) (bc_pos r div bc_block_size r)"
      using assms(1) by (auto simp: cache_ok_def core_ok_def)
    with content_block_past [OF cache_okD(1) [OF assms(1)] assms(3)] show False by simp
  qed
  with assms(2, 3) show ?thesis
    by (auto simp: next_chunk_def block_at_def Let_def sbind_def py_slice_def)
qed

text \<open>A read inside \<open>[start, stop)\<close> whose blocks are all cached makes no call.\<close>

lemma chunks_hit:
  assumes "cache_ok position ok content r" "start < stop" "0 \<le> start" "start \<le> bc_pos r" "bc_pos r \<le> stop"
    "stop \<le> blen content" "stop \<le> bc_pos r + int limit"
    "stop < bc_pos r + int limit \<Longrightarrow> stop = blen content \<and> bc_size r \<noteq> None"
    "\<And>k. start \<le> k \<Longrightarrow> k < stop \<Longrightarrow> k div bc_block_size r \<in> fst ` set (bc_blocks r)"
  shows "\<exists>cs r'. chunks ops limit r = (Inr cs, r') \<and> bc_wrapped r' = bc_wrapped r"
  using assms
proof (induction limit arbitrary: r rule: less_induct)
  case (less limit)
  let ?bs = "bc_block_size r"
  have bs: "0 < ?bs" using cache_okD [OF less.prems(1)] by simp
  show ?case
  proof (cases "limit = 0 \<or> bc_pos r = stop")
    case True
    show ?thesis
    proof (cases "limit = 0")
      case False
      with True less.prems(8) have stop: "bc_pos r = blen content" "bc_size r = Some (blen content)" "stop = bc_pos r"
        using cache_okD(5) [OF less.prems(1)] by auto
      have drop: "drop (nat (bc_pos r)) content = []" using stop by simp
      have "\<exists>r'. next_chunk ops limit r = (Inr [], r') \<and> bc_wrapped r' = bc_wrapped r"
      proof (cases "blen content \<le> bc_pos r div ?bs * ?bs")
        case True
        with next_chunk_known_end [OF less.prems(1) stop(2)] show ?thesis by blast
      next
        case False
        then have "(bc_pos r - 1) div ?bs = bc_pos r div ?bs" using bs stop(1) by (intro div_same_block) simp_all
        then have "bc_pos r div ?bs \<in> fst ` set (bc_blocks r)"
          using less.prems(9) [of "bc_pos r - 1"] less.prems(2) stop(3) by simp
        from next_chunk_hit [OF less.prems(1) this] obtain chunk r' where
          c: "next_chunk ops limit r = (Inr chunk, r')" "bc_wrapped r' = bc_wrapped r" by blast
        with next_chunk_ok [OF less.prems(1) c(1)] drop show ?thesis by auto
      qed
      with False show ?thesis by (auto simp: chunks.simps [of _ limit])
    qed (simp add: chunks.simps)
  next
    case False
    then have "bc_pos r div ?bs \<in> fst ` set (bc_blocks r)" using less.prems(4, 5, 9) by simp
    from next_chunk_hit [OF less.prems(1) this] obtain chunk r1 where
      c: "next_chunk ops limit r = (Inr chunk, r1)" and r1: "bc_wrapped r1 = bc_wrapped r"
        "fst ` set (bc_blocks r1) = fst ` set (bc_blocks r)" "bc_size r1 = bc_size r" by blast
    note step = next_chunk_ok [OF less.prems(1) c]
    let ?k = "nat (?bs - bc_pos r mod ?bs)"
    have pos: "0 \<le> bc_pos r" using less.prems(3, 4) by simp
    have "0 < ?k" using bs by simp
    then have chunk: "chunk \<noteq> []" "length chunk \<le> limit" "bc_pos r + blen chunk \<le> blen content"
      using step False less.prems(5, 6) pos by (auto simp: min_def nat_le_iff split: if_splits)
    have "limit - length chunk < limit" using chunk(1) False by simp
    moreover have "cache_ok position ok content r1" "bc_pos r1 = bc_pos r + blen chunk" "bc_block_size r1 = ?bs"
      using step by simp_all
    moreover have "bc_pos r + blen chunk \<le> stop" using chunk(2, 3) less.prems(7, 8) by linarith
    ultimately obtain cs r' where "chunks ops (limit - length chunk) r1 = (Inr cs, r')" "bc_wrapped r' = bc_wrapped r1"
      using less.IH [of "limit - length chunk" r1] less.prems r1 chunk(2) by (auto simp: of_nat_diff)
    with c False chunk(1) r1(1) show ?thesis by (auto simp: chunks.simps [of _ limit] sbind_def sreturn_def)
  qed
qed

end

section \<open>Every operation keeps the invariant\<close>

context cached_stream
begin

lemma seek_target_ok:
  assumes "cache_ok position ok content r" "seek_target ops k whence r = (x, r')"
  shows "cache_ok position ok content r' \<and> same_settings r r'"
proof (cases whence)
  case SEEK_END
  obtain y r1 where o: "object_size ops r = (y, r1)" by fastforce
  have "core_ok ok content r" "position_ok position content r" using assms(1) by (simp_all add: cache_ok_def)
  with object_size_ok [OF _ _ o] have "cache_ok position ok content r1 \<and> same_settings r r1" by blast
  with o SEEK_END assms(2) show ?thesis
    by (auto simp: seek_target_def sbind_def sreturn_def split: sum.splits)
qed (use assms in \<open>auto simp: seek_target_def sreturn_def sraise_def\<close>)

lemma bc_seek_ok:
  assumes "cache_ok position ok content r" "bc_seek ops k whence r = (x, r')"
  shows "cache_ok position ok content r'"
proof -
  obtain y r1 where t: "seek_target ops k whence r = (y, r1)" by fastforce
  from seek_target_ok [OF assms(1) t] assms show ?thesis
    by (auto simp: bc_seek_def check_open_def sbind_def sraise_def t cache_ok_def core_ok_def position_ok_def
        split: sum.splits if_splits)
qed

lemma bc_read1_ok:
  assumes "cache_ok position ok content r" "bc_read1 ops n r = (x, r')"
  shows "cache_ok position ok content r'"
proof (cases "bc_closed r \<or> n = Some 0")
  case False
  with assms(2) have "next_chunk ops (limit_of n) r = (x, r')"
    by (auto simp: bc_read1_def check_open_def sbind_def split: if_splits)
  with next_chunk_ok [OF assms(1)] show ?thesis by blast
qed (use assms in \<open>auto simp: bc_read1_def check_open_def sbind_def sreturn_def split: if_splits\<close>)

lemma bc_readinto_ok:
  assumes "cache_ok position ok content r" "bc_readinto ops target r = ((x, view), r')"
  shows "cache_ok position ok content r'"
proof (cases "bc_closed r")
  case False
  with assms(2) have "readinto_loop ops (length target) 0 target r = ((x, view), r')"
    by (simp add: bc_readinto_def)
  with readinto_loop_ok [OF assms(1) this] show ?thesis by simp
qed (use assms in \<open>simp add: bc_readinto_def\<close>)

lemma bc_close_ok: "cache_ok position ok content r \<Longrightarrow> cache_ok position ok content (bc_close r)"
  by (simp add: cache_ok_def core_ok_def position_ok_def bc_close_def)

end

text \<open>The reader is itself a readable stream over the same content.\<close>

sublocale cached_stream \<subseteq> reader: binary_file "\<lambda>n. bc_read ops (Some n)" "\<lambda>r. nat (bc_pos r)"
  "cache_ok position ok content" content
proof
  fix r n data r'
  assume ok: "cache_ok position ok content r" and n: "0 \<le> n" and r: "bc_read ops (Some n) r = (Inr data, r')"
  show "data = take (nat n) (drop (nat (bc_pos r)) content) \<and> nat (bc_pos r') = nat (bc_pos r) + length data"
    using read_ok_cached [OF ok r] n cache_okD(2) [OF ok] by (simp add: limit_of_def nat_add_distrib)
next
  fix r and n :: int
  assume ok: "cache_ok position ok content r"
  show "cache_ok position ok content (snd (bc_read ops (Some n) r))"
    using read_ok_cached [OF ok, of "Some n"] by (cases "bc_read ops (Some n) r") auto
qed

context cached_stream
begin

text \<open>Reading to the end in chunks, under the contract's own lemma.\<close>

lemma reader_chunks:
  assumes "cache_ok position ok content r" "0 < n" "length content - nat (bc_pos r) < fuel"
    and "read_chunks (\<lambda>n. bc_read ops (Some n)) n fuel r = (Inr cs, r')"
  shows "concat cs = drop (nat (bc_pos r)) content \<and> [] \<notin> set cs"
  by (rule reader.read_chunks_content [OF assms])

end

text \<open>The calls a client can make, each leaving its exception and its result to the client.\<close>

datatype cache_call =
    CallTell
  | CallSeek int whence
  | CallRead "int option"
  | CallRead1 "int option"
  | CallReadinto bytes
  | CallClose

fun run_call :: "('s, 'e) stream_ops \<Rightarrow> cache_call \<Rightarrow> 's block_cache \<Rightarrow> 's block_cache" where
  "run_call ops CallTell r = snd (bc_tell r :: ('e cache_error + int) \<times> 's block_cache)"
| "run_call ops (CallSeek k whence) r = snd (bc_seek ops k whence r)"
| "run_call ops (CallRead n) r = snd (bc_read ops n r)"
| "run_call ops (CallRead1 n) r = snd (bc_read1 ops n r)"
| "run_call ops (CallReadinto target) r = snd (bc_readinto ops target r)"
| "run_call ops CallClose r = bc_close r"

context cached_stream
begin

lemma run_call_ok:
  assumes "cache_ok position ok content r"
  shows "cache_ok position ok content (run_call ops call r)"
proof (cases call)
  case CallTell
  with assms show ?thesis by (simp add: bc_tell_def check_open_def sbind_def)
next
  case (CallSeek k whence)
  with bc_seek_ok [OF assms, of k whence] show ?thesis by (cases "bc_seek ops k whence r") simp
next
  case (CallRead n)
  with read_ok_cached [OF assms, of n] show ?thesis by (cases "bc_read ops n r") auto
next
  case (CallRead1 n)
  with bc_read1_ok [OF assms, of n] show ?thesis by (cases "bc_read1 ops n r") simp
next
  case (CallReadinto target)
  with bc_readinto_ok [OF assms, of target] show ?thesis by (cases "bc_readinto ops target r") auto
next
  case CallClose
  with bc_close_ok [OF assms] show ?thesis by simp
qed

lemma run_calls_ok: "cache_ok position ok content r \<Longrightarrow> cache_ok position ok content (fold (run_call ops) calls r)"
  by (induction calls arbitrary: r) (auto simp: run_call_ok)

lemma make_block_cache_ok:
  assumes "make_block_cache ops wrapped block_size max_blocks skip_threshold = Inr r"
    and "so_tell ops wrapped = (Inr p, wrapped')" "ok wrapped'" "p = int (position wrapped')"
    and "position wrapped' \<le> length content"
  shows "cache_ok position ok content r \<and> bc_pos r = p \<and> bc_max_blocks r = max_blocks \<and> bc_closed r = False"
  using assms
  by (auto simp: make_block_cache_def cache_ok_def core_ok_def position_ok_def split: if_splits)

end

section \<open>The reader over the sparse file\<close>

text \<open>The sparse file of \<^verbatim>\<open>box_probe.py\<close> as a wrapped stream; its exceptions are named by strings.\<close>

definition sparse_ops :: "(sparse_file, string) stream_ops" where
  "sparse_ops =
     \<lparr>so_read = \<lambda>n f. (case sf_read n f of (Inl e, f') \<Rightarrow> (Inl ''error'', f') | (Inr b, f') \<Rightarrow> (Inr b, f')),
      so_seek = \<lambda>k whence f. (case sf_seek k whence f of
          (None, f') \<Rightarrow> (Inl ''KeyError'', f') | (Some p, f') \<Rightarrow> (Inr p, f')),
      so_tell = \<lambda>f. (Inr (sf_tell f), f)\<rparr>"

abbreviation (input) sparse_position :: "sparse_file \<Rightarrow> nat" where
  "sparse_position f \<equiv> nat (sf_position f)"

abbreviation (input) sparse_holds :: "bytes \<Rightarrow> sparse_file \<Rightarrow> bool" where
  "sparse_holds content f \<equiv> sparse_ok f \<and> sparse_content f = content"

lemma length_sparse_content: "sparse_ok f \<Longrightarrow> blen (sparse_content f) = sf_size f"
  by (auto simp: sparse_ok_def sparse_content_def length_render dest: segments_ok_le)

interpretation cached_sparse: cached_stream sparse_ops sparse_position "sparse_holds content" content for content
proof
  fix s n data s'
  assume ok: "sparse_holds content s" and n: "0 \<le> n" and r: "so_read sparse_ops n s = (Inr data, s')"
  from r have "sf_read n s = (Inr data, s')"
    by (auto simp: sparse_ops_def split: sum.splits prod.splits)
  with sparse.read_data [OF ok n] show "data = take (nat n) (drop (sparse_position s) content) \<and>
      sparse_position s' = sparse_position s + length data" by blast
next
  fix s and n :: int
  assume ok: "sparse_holds content s" and n: "0 \<le> n"
  have "snd (so_read sparse_ops n s) = snd (sf_read n s)"
    by (auto simp: sparse_ops_def split: sum.splits prod.splits)
  with sparse.read_ok [OF ok n] show "sparse_holds content (snd (so_read sparse_ops n s))" by simp
next
  fix s k p s'
  assume ok: "sparse_holds content s" and k: "0 \<le> k" and r: "so_seek sparse_ops k SEEK_SET s = (Inr p, s')"
  then show "p = int (sparse_position s') \<and> (p = k \<or> blen content \<le> k \<and> p = blen content)"
    by (auto simp: sparse_ops_def sf_seek_def Let_def)
next
  fix s p s'
  assume ok: "sparse_holds content s" and r: "so_seek sparse_ops 0 SEEK_END s = (Inr p, s')"
  from ok have "blen content = sf_size s" using length_sparse_content by blast
  with r show "p = blen content \<and> sparse_position s' = length content"
    by (auto simp: sparse_ops_def sf_seek_def Let_def)
next
  fix s and k :: int
  assume "sparse_holds content s" "0 \<le> k"
  then show "sparse_holds content (snd (so_seek sparse_ops k SEEK_SET s))"
    by (auto simp: sparse_ops_def sf_seek_def Let_def sparse_ok_def sparse_content_def)
next
  fix s
  assume "sparse_holds content s"
  then show "sparse_holds content (snd (so_seek sparse_ops 0 SEEK_END s))"
    by (auto simp: sparse_ops_def sf_seek_def Let_def sparse_ok_def sparse_content_def)
qed

section \<open>Properties\<close>

text \<open>A sparse file of six bytes, read through two blocks of two bytes.\<close>

definition sample_sparse :: sparse_file where
  "sample_sparse = make_sparse_file 6 [(1, [7, 8, 9])]"

definition sample_content :: bytes where
  "sample_content = [0, 7, 8, 9, 0, 0]"

definition sample_reader :: "sparse_file block_cache" where
  "sample_reader =
     \<lparr>bc_wrapped = sample_sparse, bc_block_size = 2, bc_max_blocks = 2, bc_skip_threshold = 0,
      bc_blocks = [], bc_wrapped_pos = 0, bc_pos = 0, bc_size = None, bc_closed = False\<rparr>"

lemma make_sample_reader: "make_block_cache sparse_ops sample_sparse 2 2 0 = Inr sample_reader"
  by (simp add: make_block_cache_def sparse_ops_def sample_reader_def sample_sparse_def
      make_sparse_file_def sf_tell_def)

lemma sample_sparse_holds: "sparse_holds sample_content sample_sparse"
  by (simp add: sample_content_def sample_sparse_def make_sparse_file_def sparse_ok_def sparse_content_def
      numeral_eq_Suc)

lemma sample_reader_ok: "cache_ok sparse_position (sparse_holds sample_content) sample_content sample_reader"
  using cached_sparse.make_block_cache_ok [OF make_sample_reader, of _ sample_sparse] sample_sparse_holds
  by (simp add: sparse_ops_def sf_tell_def sample_sparse_def make_sparse_file_def)

lemma sample_read: "fst (bc_read sparse_ops (Some 3) sample_reader) = Inr [0, 7, 8]"
  by code_simp

text \<open>C27: Reading through the cache is reading the wrapped stream: for every stream that keeps the
  contract and every state of the reader that its operations can leave behind, a read that returns
  delivers the bytes of the content at the position, as many as asked for or as there are, and moves
  past them; a read that raises leaves the reader in order.\<close>

theorem cached_read_reads_content:
  assumes "cached_stream ops position ok content"
    and "cache_ok position ok content r" and "bc_read ops n r = (x, r')"
  shows "cache_ok position ok content r' \<and>
     (\<forall>data. x = Inr data \<longrightarrow> data = take (limit_of n) (drop (nat (bc_pos r)) content) \<and>
        bc_pos r' = bc_pos r + blen data)"
  by (rule cached_stream.read_ok_cached [OF assms])

theorem cached_read_reads_content_witness:
  "\<exists>r'. bc_read sparse_ops (Some 3) sample_reader = (Inr (take 3 sample_content), r') \<and> bc_pos r' = 3"
proof -
  obtain r' where r: "bc_read sparse_ops (Some 3) sample_reader = (Inr [0, 7, 8], r')"
    using sample_read by (metis prod.collapse)
  moreover have "[0, 7, 8] = take 3 sample_content" by (simp add: sample_content_def)
  moreover have "bc_pos r' = 3"
    using cached_read_reads_content [OF cached_sparse.cached_stream_axioms sample_reader_ok r]
    by (simp add: sample_reader_def)
  ultimately show ?thesis by auto
qed

text \<open>\<^verbatim>\<open>readinto\<close> fills the front of the buffer with the bytes at the position and leaves the rest of
  it alone; the count it returns is their number.\<close>

theorem cached_readinto_fills_buffer:
  assumes "cached_stream ops position ok content" and "cache_ok position ok content r"
    and "bc_readinto ops target r = ((Inr n, view), r')"
  shows "let data = take (length target) (drop (nat (bc_pos r)) content) in
     n = blen data \<and> view = data @ drop (length data) target \<and> bc_pos r' = bc_pos r + n"
proof -
  have "readinto_loop ops (length target) 0 target r = ((Inr n, view), r')"
    using assms(3) by (simp add: bc_readinto_def split: if_splits)
  from cached_stream.readinto_loop_ok [OF assms(1, 2) this] show ?thesis by (simp add: Let_def)
qed

theorem cached_readinto_fills_buffer_witness:
  "\<exists>r'. bc_readinto sparse_ops [1, 1, 1] (sample_reader\<lparr>bc_pos := 5\<rparr>) = ((Inr 1, [0, 1, 1]), r') \<and> bc_pos r' = 6"
proof -
  have "fst (bc_readinto sparse_ops [1, 1, 1] (sample_reader\<lparr>bc_pos := 5\<rparr>)) = (Inr 1, [0, 1, 1])"
    by code_simp
  then obtain r' where r: "bc_readinto sparse_ops [1, 1, 1] (sample_reader\<lparr>bc_pos := 5\<rparr>) = ((Inr 1, [0, 1, 1]), r')"
    by (metis prod.collapse)
  have "cache_ok sparse_position (sparse_holds sample_content) sample_content (sample_reader\<lparr>bc_pos := 5\<rparr>)"
    using sample_reader_ok by (simp add: cache_ok_def core_ok_def position_ok_def)
  from cached_readinto_fills_buffer [OF cached_sparse.cached_stream_axioms this r] r
  show ?thesis by (simp add: sample_reader_def Let_def)
qed

text \<open>C28: Whatever calls a client makes on a fresh reader, in whatever order and whichever of them
  raise, the reader holds at most \<open>max_blocks\<close> blocks, every one of them is a block of the content,
  and the size it has learned, if any, is the content's.\<close>

theorem cache_invariant:
  assumes "cached_stream ops position ok content"
    and "make_block_cache ops wrapped block_size max_blocks skip_threshold = Inr r"
    and "so_tell ops wrapped = (Inr p, wrapped')" "ok wrapped'" "p = int (position wrapped')"
    and "position wrapped' \<le> length content"
  shows "let r' = fold (run_call ops) calls r in
     int (length (bc_blocks r')) \<le> bc_max_blocks r' \<and>
     (\<forall>(i, b) \<in> set (bc_blocks r'). b = content_block content (bc_block_size r') i \<and> b \<noteq> []) \<and>
     (bc_size r' = None \<or> bc_size r' = Some (blen content))"
proof -
  have "cache_ok position ok content r"
    using cached_stream.make_block_cache_ok [OF assms] by simp
  from cached_stream.run_calls_ok [OF assms(1) this, of calls] show ?thesis
    by (auto simp: Let_def cache_ok_def core_ok_def)
qed

theorem cache_invariant_witness:
  "let r' = fold (run_call sparse_ops) [CallRead (Some 5), CallSeek 0 SEEK_SET, CallRead1 None, CallRead None] sample_reader
   in int (length (bc_blocks r')) \<le> bc_max_blocks r' \<and> bc_size r' \<in> {None, Some 6}"
  using cache_invariant [OF cached_sparse.cached_stream_axioms make_sample_reader, of 0 sample_sparse
      sample_content "[CallRead (Some 5), CallSeek 0 SEEK_SET, CallRead1 None, CallRead None]"]
    sample_sparse_holds
  by (simp add: Let_def sparse_ops_def sf_tell_def sample_sparse_def make_sparse_file_def sample_content_def)

text \<open>C29: A read that fits in the cache is remembered: when the blocks it touched are at most
  \<open>max_blocks\<close>, seeking back and reading the same range again returns the same bytes without a single
  call to the wrapped stream, so it cannot fail either.\<close>

theorem cached_reread_makes_no_request:
  assumes "cached_stream ops position ok content" and "cache_ok position ok content r"
    and "bc_read ops n r = (Inr data, r1)" and "data \<noteq> []"
    and "int (card (blocks_of (bc_block_size r) (bc_pos r) (length data))) \<le> bc_max_blocks r"
    and "bc_seek ops (bc_pos r) SEEK_SET r1 = (Inr p, r2)"
  shows "\<exists>r3. bc_read ops n r2 = (Inr data, r3) \<and> bc_wrapped r3 = bc_wrapped r1"
proof -
  obtain cs where cs: "chunks ops (limit_of n) r = (Inr cs, r1)" "data = concat cs" and op: "\<not> bc_closed r"
    using assms(3) by (auto simp: bc_read_def check_open_def sbind_def sreturn_def
        split: sum.splits prod.splits if_splits)
  have ok1: "cache_ok position ok content r1" "bc_closed r1 = bc_closed r"
    and bs: "bc_block_size r1 = bc_block_size r"
    and data: "data = take (limit_of n) (drop (nat (bc_pos r)) content)"
    using cached_stream.chunks_ok [OF assms(1, 2) cs(1)] cs(2) by auto
  have rec: "recent r1 (blocks_of (bc_block_size r) (bc_pos r) (length data))"
    and known: "length data < limit_of n \<Longrightarrow> bc_size r1 \<noteq> None"
    using cached_stream.chunks_recent [OF assms(1, 2) recent_empty _ cs(1)] cs(2) assms(5) by auto
  have r2: "r2 = r1\<lparr>bc_pos := bc_pos r\<rparr>" "0 \<le> bc_pos r"
    using assms(6) cached_stream.cache_okD(2) [OF assms(1, 2)]
    by (auto simp: bc_seek_def seek_target_def check_open_def sbind_def sreturn_def sraise_def split: if_splits)
  let ?stop = "bc_pos r + blen data"
  have "length data \<le> limit_of n" "0 < length data" and stop: "?stop \<le> blen content"
    using data assms(4) r2(2) by auto
  have ok2: "cache_ok position ok content r2"
    using ok1 r2 by (simp add: cache_ok_def core_ok_def position_ok_def)
  have mem: "k div bc_block_size r2 \<in> fst ` set (bc_blocks r2)" if "bc_pos r \<le> k" "k < ?stop" for k
  proof -
    have "k div bc_block_size r \<in> blocks_of (bc_block_size r) (bc_pos r) (length data)"
      unfolding blocks_of_def using that by (intro image_eqI [of _ _ "nat (k - bc_pos r)"]) auto
    with recent_cached [OF rec] r2(1) bs show ?thesis by simp
  qed
  have "?stop < bc_pos r2 + int (limit_of n) \<Longrightarrow> ?stop = blen content \<and> bc_size r2 \<noteq> None"
    using data known r2 assms(4) by (auto simp: min_def split: if_splits)
  from cached_stream.chunks_hit [OF assms(1) ok2, of "bc_pos r" ?stop "limit_of n", OF _ r2(2) _ _ stop _ this mem]
  obtain cs' r3 where c: "chunks ops (limit_of n) r2 = (Inr cs', r3)" "bc_wrapped r3 = bc_wrapped r2"
    using \<open>0 < length data\<close> \<open>length data \<le> limit_of n\<close> r2 by auto
  have "concat cs' = data" using cached_stream.chunks_ok [OF assms(1) ok2 c(1)] data r2 by simp
  with c op ok1 r2 show ?thesis
    by (auto simp: bc_read_def check_open_def sbind_def sreturn_def)
qed

theorem cached_reread_makes_no_request_witness:
  "\<exists>data r1 r2 r3. bc_read sparse_ops (Some 3) sample_reader = (Inr data, r1) \<and> data \<noteq> [] \<and>
     bc_seek sparse_ops 0 SEEK_SET r1 = (Inr 0, r2) \<and> bc_read sparse_ops (Some 3) r2 = (Inr data, r3) \<and>
     bc_wrapped r3 = bc_wrapped r1"
proof -
  obtain r1 where r: "bc_read sparse_ops (Some 3) sample_reader = (Inr [0, 7, 8], r1)"
    using sample_read by (metis prod.collapse)
  have "fst (bc_seek sparse_ops 0 SEEK_SET (snd (bc_read sparse_ops (Some 3) sample_reader))) = Inr 0"
    by code_simp
  with r obtain r2 where s: "bc_seek sparse_ops 0 SEEK_SET r1 = (Inr 0, r2)" by (metis prod.collapse snd_conv)
  have "int (card (blocks_of (bc_block_size sample_reader) (bc_pos sample_reader) (length [0 :: byte, 7, 8])))
      \<le> bc_max_blocks sample_reader"
    by (simp add: sample_reader_def blocks_of_def lessThan_Suc)
  moreover have "bc_seek sparse_ops (bc_pos sample_reader) SEEK_SET r1 = (Inr 0, r2)"
    using s by (simp add: sample_reader_def)
  ultimately obtain r3 where "bc_read sparse_ops (Some 3) r2 = (Inr [0, 7, 8], r3)" "bc_wrapped r3 = bc_wrapped r1"
    using cached_reread_makes_no_request [OF cached_sparse.cached_stream_axioms sample_reader_ok r] by blast
  with r s show ?thesis by blast
qed

section \<open>Two observations\<close>

text \<open>A reader created at a block boundary beyond the end of a stream that does not clamp takes its own
  start for the size: six bytes, started at 8, and the size reported is 8.\<close>

lemma start_past_end_learns_wrong_size:
  "let r = sample_reader\<lparr>bc_wrapped := sample_sparse\<lparr>sf_position := 8\<rparr>, bc_wrapped_pos := 8, bc_pos := 8\<rparr>
   in make_block_cache sparse_ops (sample_sparse\<lparr>sf_position := 8\<rparr>) 2 2 0 = Inr r \<and>
      fst (bc_seek sparse_ops 0 SEEK_END (snd (bc_read sparse_ops (Some 1) r))) = Inr 8"
proof -
  have "make_block_cache sparse_ops (sample_sparse\<lparr>sf_position := 8\<rparr>) 2 2 0 =
      Inr (sample_reader\<lparr>bc_wrapped := sample_sparse\<lparr>sf_position := 8\<rparr>, bc_wrapped_pos := 8, bc_pos := 8\<rparr>)"
    by (simp add: make_block_cache_def sparse_ops_def sf_tell_def sample_reader_def)
  moreover have "fst (bc_seek sparse_ops 0 SEEK_END (snd (bc_read sparse_ops (Some 1)
      (sample_reader\<lparr>bc_wrapped := sample_sparse\<lparr>sf_position := 8\<rparr>, bc_wrapped_pos := 8, bc_pos := 8\<rparr>)))) = Inr 8"
    by code_simp
  ultimately show ?thesis by (simp add: Let_def)
qed

text \<open>A stream whose second read fails: the read of three bytes raises after the first block was taken,
  and the position is left at 2, so repeating the read skips the bytes of that block.\<close>

definition flaky_ops :: "(nat \<times> int, string) stream_ops" where
  "flaky_ops =
     \<lparr>so_read = \<lambda>n (count, pos).
        if count = 1 then (Inl ''OSError'', (2, pos))
        else let data = py_slice sample_content pos (pos + n) in (Inr data, (Suc count, pos + blen data)),
      so_seek = \<lambda>k whence (count, pos). (Inr k, (count, k)),
      so_tell = \<lambda>(count, pos). (Inr pos, (count, pos))\<rparr>"

lemma failed_read_skips_bytes:
  "let r = \<lparr>bc_wrapped = (0, 0), bc_block_size = 2, bc_max_blocks = 2, bc_skip_threshold = 0,
            bc_blocks = [], bc_wrapped_pos = 0, bc_pos = 0, bc_size = None, bc_closed = False\<rparr>;
       (x, r1) = bc_read flaky_ops (Some 3) r
   in x = Inl (WrappedError ''OSError'') \<and> bc_pos r1 = 2 \<and> fst (bc_read flaky_ops (Some 3) r1) = Inr [8, 9, 0]"
  by code_simp

end
