(* ===== verification/SlurmJobs.thy ===== *)
theory SlurmJobs
  imports PyText RunManifest "HOL-Library.AList"
begin

text \<open>
  \<^verbatim>\<open>client/slurm_cli/managed_ray/scheduler.py\<close> and the Slurm state names of \<^verbatim>\<open>slurm_ray_state.py\<close>:
  submitting and cancelling jobs and reducing what \<^verbatim>\<open>sacct\<close> and \<^verbatim>\<open>squeue\<close> report to one state per
  job. The shell of the login node is a parameter \<open>run\<close>: it takes a command and the state of the world
  and returns the command's result or the exception of the connection, and the state after it. A command is
  the data its command line is built from; quoting is injective and left out. A dictionary of states is an
  association list in insertion order.
\<close>

section \<open>Slurm state names\<close>

definition NONTERMINAL_SLURM_STATES :: "string list" where
  "NONTERMINAL_SLURM_STATES =
     [''PENDING'', ''RUNNING'', ''REQUEUED'', ''REQUEUE_FED'', ''REQUEUE_HOLD'', ''RESIZING'', ''REVOKED'',
      ''SIGNALING'', ''STAGE_OUT'', ''SUSPENDED'', ''CONFIGURING'', ''COMPLETING'']"

definition ACTIVE_HEAD_SLURM_STATES :: "string list" where
  "ACTIVE_HEAD_SLURM_STATES = [''RUNNING'', ''CONFIGURING'']"

definition base_job_id :: "string \<Rightarrow> string" where
  "base_job_id job_id = before (CHR ''_'') job_id"

definition array_task_id :: "string \<Rightarrow> int option" where
  "array_task_id job_id =
     (case py_partition (CHR ''_'') job_id of (_, separator, task) \<Rightarrow>
        if separator \<and> py_isdigit task then py_int task else None)"

definition normalize_slurm_state :: "string \<Rightarrow> string" where
  "normalize_slurm_state value = before (CHR '' '') (before (CHR ''+'') (py_upper (py_strip value)))"

definition slurm_state_rank :: "string \<Rightarrow> int" where
  "slurm_state_rank state =
     (if state = ''RUNNING'' then 3
      else if state \<in> set NONTERMINAL_SLURM_STATES then 2
      else if state = ''UNKNOWN'' then 1
      else 0)"

section \<open>The login node\<close>

datatype remote_command =
    Sbatch string string "string list" "string list"
  | SqueueByName string
  | Scancel string
  | Sacct "string list"
  | SqueueUser
  | ShowConfig
  | CatFile string
  | TestExists string
  | StateModule json_object string "int option"

text \<open>\<^verbatim>\<open>rr_json\<close> is the value \<^verbatim>\<open>json.loads\<close> reads from the output, \<open>None\<close> where it raises.\<close>

record remote_result =
  rr_exited :: int
  rr_stdout :: string
  rr_json :: "json option"

definition rr_ok :: "remote_result \<Rightarrow> bool" where
  "rr_ok result \<longleftrightarrow> rr_exited result = 0"

datatype call_error = ConnectionFailed | Interrupted

type_synonym 's remote = "remote_command \<Rightarrow> 's \<Rightarrow> (call_error + remote_result) \<times> 's"

record scale_result =
  sc_target :: int
  sc_previous :: int
  sc_submitted :: "string list"
  sc_canceled :: "string list"

record stop_result =
  st_state :: run_state
  st_canceled_lanes :: "string list"
  st_canceled_head :: "string list"

text \<open>The exceptions a client operation ends with.\<close>

datatype op_error =
    SlurmRayOperationError
  | RemoteManifestRevisionConflictError
  | PartialScaleError scale_result
  | PartialStopError stop_result
  | RemoteCallError
  | KeyboardInterrupt
  | OpKeyError

type_synonym ('s, 'a) client = "('s, op_error, 'a) stm"

text \<open>\<^verbatim>\<open>run_remote\<close> with \<^verbatim>\<open>warn=True\<close>, which returns a failed result, and without, where the connection
  raises for a nonzero exit status.\<close>

definition run_remote :: "'s remote \<Rightarrow> remote_command \<Rightarrow> ('s, remote_result) client" where
  "run_remote run cmd s =
     (case run cmd s of
        (Inl ConnectionFailed, s') \<Rightarrow> (Inl RemoteCallError, s')
      | (Inl Interrupted, s') \<Rightarrow> (Inl KeyboardInterrupt, s')
      | (Inr result, s') \<Rightarrow> (Inr result, s'))"

definition run_checked :: "'s remote \<Rightarrow> remote_command \<Rightarrow> ('s, remote_result) client" where
  "run_checked run cmd =
     sbind (run_remote run cmd) (\<lambda>result. if rr_ok result then sreturn result else sraise RemoteCallError)"

text \<open>\<^verbatim>\<open>except Exception\<close> does not catch \<^verbatim>\<open>KeyboardInterrupt\<close>; \<^verbatim>\<open>suppress(Exception)\<close> is such a handler that
  goes on.\<close>

definition on_exception :: "('s, 'a) client \<Rightarrow> (op_error \<Rightarrow> ('s, 'a) client) \<Rightarrow> ('s, 'a) client" where
  "on_exception m h = scatch m (\<lambda>e. if e = KeyboardInterrupt then sraise e else h e)"

definition suppressed :: "('s, 'a) client \<Rightarrow> ('s, unit) client" where
  "suppressed m = on_exception (sbind m (\<lambda>_. sreturn ())) (\<lambda>_. sreturn ())"

section \<open>Submitting and cancelling\<close>

definition is_job_id_char :: "char \<Rightarrow> bool" where
  "is_job_id_char c \<longleftrightarrow> is_upper c \<or> is_lower c \<or> is_digit c \<or> c \<in> {CHR ''_'', CHR ''.'', CHR ''-''}"

definition valid_job_id :: "string \<Rightarrow> bool" where
  "valid_job_id job_id \<longleftrightarrow> job_id \<noteq> [] \<and> list_all is_job_id_char job_id"

definition parse_sbatch_job_id :: "string \<Rightarrow> op_error + string" where
  "parse_sbatch_job_id text =
     (let job_id = before (CHR '';'') (py_strip text) in
      if job_id = [] \<or> \<not> valid_job_id job_id then Inl SlurmRayOperationError else Inr job_id)"

text \<open>\<^verbatim>\<open>list(dict.fromkeys(xs))\<close>\<close>

definition fromkeys :: "'a list \<Rightarrow> 'a list" where
  "fromkeys xs = rev (remdups (rev xs))"

definition find_job_by_exact_name :: "'s remote \<Rightarrow> string \<Rightarrow> ('s, string option) client" where
  "find_job_by_exact_name run job_name =
     sbind (run_remote run (SqueueByName job_name)) (\<lambda>result.
     if \<not> rr_ok result then sreturn None
     else
       let job_ids = fromkeys (map (\<lambda>line. base_job_id (py_strip line))
                       (filter (\<lambda>line. py_strip line \<noteq> []) (py_splitlines (rr_stdout result))))
       in case job_ids of
            [] \<Rightarrow> sreturn None
          | [job_id] \<Rightarrow> sbind (slift (parse_sbatch_job_id job_id)) (\<lambda>j. sreturn (Some j))
          | _ \<Rightarrow> sraise SlurmRayOperationError)"

definition submit_script ::
  "'s remote \<Rightarrow> string \<Rightarrow> string \<Rightarrow> string list \<Rightarrow> string list \<Rightarrow> ('s, string) client" where
  "submit_script run path job_name options arguments =
     on_exception
       (sbind (run_checked run (Sbatch path job_name options arguments)) (\<lambda>result.
        slift (parse_sbatch_job_id (rr_stdout result))))
       (\<lambda>e. sbind (find_job_by_exact_name run job_name) (\<lambda>recovered_job_id.
            case recovered_job_id of Some j \<Rightarrow> sreturn j | None \<Rightarrow> sraise e))"

fun cancel_jobs :: "'s remote \<Rightarrow> string list \<Rightarrow> ('s, string list) client" where
  "cancel_jobs run [] = sreturn []"
| "cancel_jobs run (job_id # job_ids) =
     sbind (run_remote run (Scancel job_id)) (\<lambda>result.
     sbind (cancel_jobs run job_ids) (\<lambda>canceled.
     sreturn (if rr_ok result then job_id # canceled else canceled)))"

section \<open>Querying\<close>

record job_state =
  js_state :: string
  js_exit_code :: "string option"
  js_node_list :: "string option"
  js_reason :: "string option"
  js_restart_count :: "int option"
  js_array_task_id :: "int option"

type_synonym job_states = "(string \<times> job_state) list"

definition unknown_job_state :: "string \<Rightarrow> job_state" where
  "unknown_job_state state =
     \<lparr>js_state = state, js_exit_code = None, js_node_list = None, js_reason = None, js_restart_count = None,
      js_array_task_id = None\<rparr>"

definition is_nonterminal :: "job_state \<Rightarrow> bool" where
  "is_nonterminal state \<longleftrightarrow> js_state state \<in> set NONTERMINAL_SLURM_STATES"

definition task_or_0 :: "job_state \<Rightarrow> int" where
  "task_or_0 state = (case js_array_task_id state of None \<Rightarrow> 0 | Some task \<Rightarrow> task)"

definition merge_job_state :: "job_state option \<Rightarrow> job_state \<Rightarrow> job_state" where
  "merge_job_state existing incoming =
     (case existing of
        None \<Rightarrow> incoming
      | Some old \<Rightarrow>
          if slurm_state_rank (js_state incoming) > slurm_state_rank (js_state old) then incoming
          else if slurm_state_rank (js_state incoming) = slurm_state_rank (js_state old) \<and>
                  task_or_0 incoming > task_or_0 old then incoming
          else old)"

text \<open>One line of a report: the job it is about and the observation, \<open>None\<close> for a line that is skipped.\<close>

definition accounting_line :: "string list \<Rightarrow> string \<Rightarrow> (string \<times> job_state) option" where
  "accounting_line job_ids line =
     (case py_split (CHR ''|'') line of
        reported_id # state # exit_code # node_list # restarts # _ \<Rightarrow>
          (let job_id = base_job_id reported_id in
           if job_id \<notin> set job_ids then None
           else Some (job_id,
             \<lparr>js_state = normalize_slurm_state state, js_exit_code = none_if_empty exit_code,
              js_node_list = none_if_empty node_list, js_reason = None,
              js_restart_count = py_int (if restarts = [] then ''0'' else restarts),
              js_array_task_id = array_task_id reported_id\<rparr>))
      | _ \<Rightarrow> None)"

definition queued_line :: "string list \<Rightarrow> string \<Rightarrow> (string \<times> job_state) option" where
  "queued_line job_ids line =
     (case py_split (CHR ''|'') line of
        reported_id # state # reason # node_list # _ \<Rightarrow>
          (let job_id = base_job_id reported_id in
           if job_id \<notin> set job_ids then None
           else
             let normalized_state = normalize_slurm_state state in
             Some (job_id,
               \<lparr>js_state = normalized_state, js_exit_code = None, js_node_list = none_if_empty node_list,
                js_reason = (if normalized_state = ''PENDING'' then none_if_empty reason else None),
                js_restart_count = None, js_array_task_id = array_task_id reported_id\<rparr>))
      | _ \<Rightarrow> None)"

fun merge_reports :: "job_states \<Rightarrow> (string \<times> job_state) list \<Rightarrow> job_states" where
  "merge_reports states [] = states"
| "merge_reports states ((job_id, observed) # reports) =
     merge_reports (AList.update job_id (merge_job_state (map_of states job_id) observed) states) reports"

definition accounting_job_states :: "'s remote \<Rightarrow> string list \<Rightarrow> ('s, job_states) client" where
  "accounting_job_states run job_ids =
     sbind (run_remote run (Sacct job_ids)) (\<lambda>result.
     sreturn (if \<not> rr_ok result then []
              else merge_reports [] (List.map_filter (accounting_line job_ids) (py_splitlines (rr_stdout result)))))"

definition queued_job_states :: "'s remote \<Rightarrow> string list \<Rightarrow> ('s, job_states option) client" where
  "queued_job_states run job_ids =
     sbind (run_remote run SqueueUser) (\<lambda>result.
     sreturn (if \<not> rr_ok result then None
              else Some (merge_reports []
                     (List.map_filter (queued_line job_ids) (py_splitlines (rr_stdout result))))))"

text \<open>The queue's view of a job wins over the accounting's, from which it takes what the queue does not
  report.\<close>

definition queued_over_accounting :: "job_states \<Rightarrow> string \<times> job_state \<Rightarrow> job_states" where
  "queued_over_accounting states entry =
     (case entry of (job_id, queued) \<Rightarrow>
        AList.update job_id
          (case map_of states job_id of
             None \<Rightarrow> queued
           | Some accounting \<Rightarrow>
               queued\<lparr>js_exit_code := js_exit_code accounting,
                 js_node_list := (case js_node_list queued of None \<Rightarrow> js_node_list accounting | Some n \<Rightarrow> Some n),
                 js_restart_count := js_restart_count accounting\<rparr>)
          states)"

definition setdefault :: "job_state \<Rightarrow> job_states \<Rightarrow> string \<Rightarrow> job_states" where
  "setdefault absent states job_id =
     (case map_of states job_id of None \<Rightarrow> AList.update job_id absent states | Some _ \<Rightarrow> states)"

definition merge_views :: "string list \<Rightarrow> job_states \<Rightarrow> job_states option \<Rightarrow> job_states" where
  "merge_views job_ids accounting queued =
     (let states = foldl queued_over_accounting accounting (case queued of None \<Rightarrow> [] | Some q \<Rightarrow> q);
          absent = (if queued = None then ''UNKNOWN'' else ''NOT_FOUND'')
      in foldl (setdefault (unknown_job_state absent)) states job_ids)"

definition query_job_states :: "'s remote \<Rightarrow> string list \<Rightarrow> ('s, job_states) client" where
  "query_job_states run job_ids =
     (if job_ids = [] then sreturn []
      else if \<not> list_all valid_job_id job_ids then sraise SlurmRayOperationError
      else
        sbind (accounting_job_states run job_ids) (\<lambda>states.
        sbind (queued_job_states run job_ids) (\<lambda>queued.
        sreturn (merge_views job_ids states queued))))"

section \<open>Reports\<close>

text \<open>What one report says of one job, line by line.\<close>

definition reports ::
  "(string list \<Rightarrow> string \<Rightarrow> (string \<times> job_state) option) \<Rightarrow> string list \<Rightarrow> string \<Rightarrow> remote_result \<Rightarrow> job_state list" where
  "reports line job_ids job_id result =
     map snd (filter (\<lambda>report. fst report = job_id)
       (List.map_filter (line job_ids) (py_splitlines (rr_stdout result))))"

definition liveliest :: "string \<Rightarrow> string list \<Rightarrow> bool" where
  "liveliest state states \<longleftrightarrow>
     state \<in> set states \<and> (\<forall>other \<in> set states. slurm_state_rank other \<le> slurm_state_rank state)"

fun merged :: "job_state option \<Rightarrow> job_state list \<Rightarrow> job_state option" where
  "merged acc [] = acc"
| "merged acc (obs # rest) = merged (Some (merge_job_state acc obs)) rest"

lemma map_of_merge_reports:
  "map_of (merge_reports states rs) job_id =
   merged (map_of states job_id) (map snd (filter (\<lambda>report. fst report = job_id) rs))"
  by (induction states rs rule: merge_reports.induct) (auto simp: update_conv')

lemma distinct_merge_reports: "distinct (map fst states) \<Longrightarrow> distinct (map fst (merge_reports states rs))"
  by (induction states rs rule: merge_reports.induct) (auto simp: distinct_update)

lemma merge_job_state_rank:
  "slurm_state_rank (js_state (merge_job_state (Some old) obs)) =
   max (slurm_state_rank (js_state old)) (slurm_state_rank (js_state obs))"
  by (auto simp: merge_job_state_def)

lemma merge_job_state_in: "merge_job_state (Some old) obs \<in> {old, obs}"
  by (auto simp: merge_job_state_def)

lemma merged_liveliest:
  "\<exists>state. merged (Some old) observed = Some state \<and> liveliest (js_state state) (js_state old # map js_state observed)"
proof (induction observed arbitrary: old)
  case Nil
  then show ?case by (simp add: liveliest_def)
next
  case (Cons obs observed)
  from Cons.IH [of "merge_job_state (Some old) obs"] obtain state where
    state: "merged (Some (merge_job_state (Some old) obs)) observed = Some state"
    and live: "liveliest (js_state state) (js_state (merge_job_state (Some old) obs) # map js_state observed)"
    by blast
  have "liveliest (js_state state) (js_state old # map js_state (obs # observed))"
    using live merge_job_state_in [of old obs] merge_job_state_rank [of old obs]
    by (auto simp: liveliest_def)
  with state show ?case by simp
qed

lemma merge_reports_liveliest:
  assumes "observed = map snd (filter (\<lambda>report. fst report = job_id) rs)"
  shows "if observed = [] then map_of (merge_reports [] rs) job_id = None
    else \<exists>state. map_of (merge_reports [] rs) job_id = Some state \<and> liveliest (js_state state) (map js_state observed)"
proof (cases observed)
  case Nil
  with assms show ?thesis by (simp add: map_of_merge_reports)
next
  case (Cons obs rest)
  then have "map_of (merge_reports [] rs) job_id = merged (Some obs) rest"
    using assms by (simp add: map_of_merge_reports merge_job_state_def)
  with merged_liveliest [of obs rest] Cons show ?thesis by simp
qed

section \<open>The merged view\<close>

lemma map_of_queued_over_accounting1:
  "map_option js_state (map_of (queued_over_accounting states (k, q)) job_id) =
   (if job_id = k then Some (js_state q) else map_option js_state (map_of states job_id))"
  by (auto simp: queued_over_accounting_def update_conv' split: option.splits)

lemma map_of_queued_over_accounting:
  "distinct (map fst queued) \<Longrightarrow>
   map_option js_state (map_of (foldl queued_over_accounting states queued) job_id) =
   map_option js_state (case map_of queued job_id of None \<Rightarrow> map_of states job_id | Some q \<Rightarrow> Some q)"
proof (induction queued arbitrary: states)
  case (Cons entry queued)
  obtain k q where entry: "entry = (k, q)" by (cases entry)
  with Cons.prems have "map_of queued k = None" "distinct (map fst queued)" by (simp_all add: map_of_eq_None_iff)
  with Cons.IH [OF this(2), of "queued_over_accounting states (k, q)"] entry map_of_queued_over_accounting1 [of states k q job_id]
  show ?case by (cases "map_of queued job_id") auto
qed simp

lemma map_of_setdefault1:
  "map_of (setdefault absent states k) job_id =
   (if job_id = k then Some (case map_of states k of None \<Rightarrow> absent | Some state \<Rightarrow> state) else map_of states job_id)"
  by (auto simp: setdefault_def update_conv' split: option.splits)

lemma map_of_setdefault:
  "map_of (foldl (setdefault absent) states job_ids) job_id =
   (case map_of states job_id of
      None \<Rightarrow> if job_id \<in> set job_ids then Some absent else None
    | Some state \<Rightarrow> Some state)"
proof (induction job_ids arbitrary: states)
  case (Cons k job_ids)
  from Cons.IH [of "setdefault absent states k"] show ?case
    by (cases "map_of states k") (simp_all add: map_of_setdefault1 split: option.splits)
qed (simp split: option.splits)

lemma run_remote_Inr [result_simps]: "run_remote run cmd s = (Inr result, s') \<longleftrightarrow> run cmd s = (Inr result, s')"
  by (auto simp: run_remote_def split: prod.splits sum.splits call_error.splits)

abbreviation accounting_view :: "string list \<Rightarrow> remote_result \<Rightarrow> job_states" where
  "accounting_view job_ids acc \<equiv>
     (if \<not> rr_ok acc then []
      else merge_reports [] (List.map_filter (accounting_line job_ids) (py_splitlines (rr_stdout acc))))"

abbreviation queued_view :: "string list \<Rightarrow> remote_result \<Rightarrow> job_states option" where
  "queued_view job_ids q \<equiv>
     (if \<not> rr_ok q then None
      else Some (merge_reports [] (List.map_filter (queued_line job_ids) (py_splitlines (rr_stdout q)))))"

lemma query_job_states_eq:
  assumes "query_job_states run job_ids s = (Inr states, s')" "job_ids \<noteq> []"
  shows "\<exists>acc s1 q. run (Sacct job_ids) s = (Inr acc, s1) \<and> run SqueueUser s1 = (Inr q, s') \<and>
    states = merge_views job_ids (accounting_view job_ids acc) (queued_view job_ids q)"
proof -
  from assms obtain a s1 where a: "accounting_job_states run job_ids s = (Inr a, s1)"
    and rest: "sbind (queued_job_states run job_ids) (\<lambda>queued. sreturn (merge_views job_ids a queued)) s1 = (Inr states, s')"
    unfolding query_job_states_def by (cases "list_all valid_job_id job_ids") (simp_all add: result_simps, blast)
  from a obtain acc where "run (Sacct job_ids) s = (Inr acc, s1)" "a = accounting_view job_ids acc"
    unfolding accounting_job_states_def by (simp only: result_simps) blast
  moreover from rest obtain queued s2 where q: "queued_job_states run job_ids s1 = (Inr queued, s2)"
    "states = merge_views job_ids a queued" "s' = s2"
    by (simp only: result_simps) blast
  from q(1) obtain q where "run SqueueUser s1 = (Inr q, s2)" "queued = queued_view job_ids q"
    unfolding queued_job_states_def by (simp only: result_simps) blast
  ultimately show ?thesis using q by blast
qed

lemma merge_views_dom:
  "job_id \<in> set job_ids \<Longrightarrow> \<exists>state. map_of (merge_views job_ids accounting queued) job_id = Some state"
  by (simp add: merge_views_def Let_def map_of_setdefault split: option.splits)

lemma query_job_states_dom:
  assumes "query_job_states run job_ids s = (Inr states, s')" "job_id \<in> set job_ids"
  shows "\<exists>state. map_of states job_id = Some state"
proof -
  from assms(2) have "job_ids \<noteq> []" by auto
  from query_job_states_eq [OF assms(1) this] merge_views_dom [OF assms(2)] show ?thesis by blast
qed

lemma merge_views_state:
  assumes "job_id \<in> set job_ids" "distinct (map fst (case queued of None \<Rightarrow> [] | Some q \<Rightarrow> q))"
  shows "map_option js_state (map_of (merge_views job_ids accounting queued) job_id) =
    Some (case map_of (case queued of None \<Rightarrow> [] | Some q \<Rightarrow> q) job_id of
        Some state \<Rightarrow> js_state state
      | None \<Rightarrow>
          (case map_of accounting job_id of
             Some state \<Rightarrow> js_state state
           | None \<Rightarrow> if queued = None then ''UNKNOWN'' else ''NOT_FOUND''))"
  using map_of_queued_over_accounting [OF assms(2), of accounting job_id] assms(1)
  by (auto simp: merge_views_def Let_def map_of_setdefault unknown_job_state_def split: option.splits)

text \<open>C26: What \<^verbatim>\<open>query_job_states\<close> says of a recorded job: the liveliest state among the queue's reports of the
  job (an array job has one for each task), else the liveliest among those of the accounting, else
  NOT_FOUND when the queue answered and UNKNOWN when it did not.\<close>

theorem query_reports_liveliest_state:
  assumes query: "query_job_states run job_ids s = (Inr states, s')" and job: "job_id \<in> set job_ids"
    and acc: "run (Sacct job_ids) s = (Inr acc, s1)" and q: "run SqueueUser s1 = (Inr q, s2)"
  shows "\<exists>state. map_of states job_id = Some state \<and>
    (if rr_ok q \<and> reports queued_line job_ids job_id q \<noteq> []
     then liveliest (js_state state) (map js_state (reports queued_line job_ids job_id q))
     else if rr_ok acc \<and> reports accounting_line job_ids job_id acc \<noteq> []
     then liveliest (js_state state) (map js_state (reports accounting_line job_ids job_id acc))
     else js_state state = (if rr_ok q then ''NOT_FOUND'' else ''UNKNOWN''))"
proof -
  from job have "job_ids \<noteq> []" by auto
  from query_job_states_eq [OF query this] acc q
  have states: "states = merge_views job_ids (accounting_view job_ids acc) (queued_view job_ids q)" by auto
  obtain state where state: "map_of states job_id = Some state" using query_job_states_dom [OF query job] by blast
  let ?q = "case queued_view job_ids q of None \<Rightarrow> [] | Some qs \<Rightarrow> qs"
  have js: "js_state state = (case map_of ?q job_id of
        Some state \<Rightarrow> js_state state
      | None \<Rightarrow>
          (case map_of (accounting_view job_ids acc) job_id of
             Some state \<Rightarrow> js_state state
           | None \<Rightarrow> if queued_view job_ids q = None then ''UNKNOWN'' else ''NOT_FOUND''))"
    using merge_views_state [OF job, of "queued_view job_ids q" "accounting_view job_ids acc"] state
    by (simp add: states distinct_merge_reports)
  note queue = merge_reports_liveliest [OF reports_def, of queued_line job_ids job_id q]
    and accounting = merge_reports_liveliest [OF reports_def, of accounting_line job_ids job_id acc]
  show ?thesis
  proof (cases "rr_ok q \<and> reports queued_line job_ids job_id q \<noteq> []")
    case True
    with queue js state show ?thesis by auto
  next
    case False
    then have "map_of ?q job_id = None" using queue by auto
    with False accounting js state show ?thesis by (auto split: if_splits)
  qed
qed

text \<open>An array job whose first task has ended and whose other tasks are queued.\<close>

definition sample_slurm :: "unit remote" where
  "sample_slurm cmd s =
     (case cmd of
        SqueueUser \<Rightarrow> (Inr \<lparr>rr_exited = 0, rr_stdout = ''7_0|COMPLETED|None|n1'' @ [CHR 0x0A] @ ''7_[1-3%1]|pending|Resources|'',
                         rr_json = None\<rparr>, s)
      | Sacct _ \<Rightarrow> (Inr \<lparr>rr_exited = 0, rr_stdout = ''7_0|COMPLETED|0:0|n1|2'', rr_json = None\<rparr>, s)
      | _ \<Rightarrow> (Inr \<lparr>rr_exited = 1, rr_stdout = [], rr_json = None\<rparr>, s))"

lemma query_reports_liveliest_state_witness:
  "\<exists>states state. query_job_states sample_slurm [''7''] () = (Inr states, ()) \<and> map_of states ''7'' = Some state \<and>
     liveliest (js_state state) [''COMPLETED'', ''PENDING'']"
proof -
  obtain r where r: "query_job_states sample_slurm [''7''] () = (r, ())"
    by (cases "query_job_states sample_slurm [''7''] ()") simp
  have "case query_job_states sample_slurm [''7''] () of (Inr states, _) \<Rightarrow> True | _ \<Rightarrow> False" by code_simp
  then obtain states where "r = Inr states" unfolding r by (cases r) auto
  let ?q = "\<lparr>rr_exited = 0, rr_stdout = ''7_0|COMPLETED|None|n1'' @ [CHR 0x0A] @ ''7_[1-3%1]|pending|Resources|'', rr_json = None\<rparr>"
  have queued: "map js_state (reports queued_line [''7''] ''7'' ?q) = [''COMPLETED'', ''PENDING'']" and ok: "rr_ok ?q"
    by code_simp+
  have "sample_slurm (Sacct [''7'']) () = (Inr \<lparr>rr_exited = 0, rr_stdout = ''7_0|COMPLETED|0:0|n1|2'', rr_json = None\<rparr>, ())"
    "sample_slurm SqueueUser () = (Inr ?q, ())"
    by (simp_all add: sample_slurm_def)
  from query_reports_liveliest_state [OF r [unfolded \<open>r = Inr states\<close>] _ this]
  obtain state where "map_of states ''7'' = Some state"
    "if rr_ok ?q \<and> reports queued_line [''7''] ''7'' ?q \<noteq> []
     then liveliest (js_state state) (map js_state (reports queued_line [''7''] ''7'' ?q)) else True"
    by (auto split: if_splits)
  moreover from queued have "reports queued_line [''7''] ''7'' ?q \<noteq> []" by (metis list.distinct(1) list.simps(8))
  ultimately have "map_of states ''7'' = Some state \<and> liveliest (js_state state) [''COMPLETED'', ''PENDING'']"
    by (simp only: ok queued simp_thms if_True)
  with r \<open>r = Inr states\<close> show ?thesis by blast
qed

text \<open>The identifiers \<^verbatim>\<open>cancel_jobs\<close> returns are those whose \<^verbatim>\<open>scancel\<close> succeeded, in order.\<close>

lemma cancel_jobs_subseq: "cancel_jobs run job_ids s = (Inr canceled, s') \<Longrightarrow> subseq canceled job_ids"
proof (induction job_ids arbitrary: s canceled)
  case (Cons job_id job_ids)
  then show ?case by (auto simp: result_simps split: if_splits)
qed (simp add: result_simps)

end
