(* ===== verification/SlurmRuns.thy ===== *)
theory SlurmRuns
  imports SlurmJobs
begin

text \<open>
  \<^verbatim>\<open>lifecycle.py\<close>, \<^verbatim>\<open>status.py\<close> and the manifest calls of \<^verbatim>\<open>remote.py\<close> under
  \<^verbatim>\<open>client/slurm_cli/managed_ray\<close>: submitting, scaling, stopping and observing a managed run through the
  login node \<open>run\<close> of \<open>SlurmJobs\<close>. A run directory is its path; \<open>now\<close> reads the client's clock. Messages
  of exceptions are left out; where one is written into the manifest it is a parameter.
\<close>

section \<open>Reading and mutating the manifest\<close>

definition is_hex_digit :: "char \<Rightarrow> bool" where
  "is_hex_digit c \<longleftrightarrow> is_digit c \<or> 97 \<le> ascii c \<and> ascii c \<le> 102"

definition valid_run_id :: "string \<Rightarrow> bool" where
  "valid_run_id run_id \<longleftrightarrow>
     take 7 run_id = ''cc-ray-'' \<and> list_all is_hex_digit (drop 7 run_id) \<and>
     8 \<le> length (drop 7 run_id) \<and> length (drop 7 run_id) \<le> 32"

definition cluster_name_line :: "string \<Rightarrow> string option" where
  "cluster_name_line line =
     (case py_partition (CHR ''='') line of (key, separator, value) \<Rightarrow>
        if separator \<and> py_strip key = ''ClusterName'' then none_if_empty (py_strip value) else None)"

definition slurm_cluster_name :: "'s remote \<Rightarrow> ('s, string) client" where
  "slurm_cluster_name run =
     sbind (run_remote run ShowConfig) (\<lambda>result.
     if \<not> rr_ok result then sraise SlurmRayOperationError
     else case List.map_filter cluster_name_line (py_splitlines (rr_stdout result)) of
            [] \<Rightarrow> sraise SlurmRayOperationError
          | name # _ \<Rightarrow> sreturn name)"

definition verify_manifest_cluster :: "'s remote \<Rightarrow> json_object \<Rightarrow> ('s, unit) client" where
  "verify_manifest_cluster run manifest =
     sbind (slurm_cluster_name run) (\<lambda>actual.
     if JStr actual \<noteq> obj_get manifest ''slurm_cluster_name'' then sraise SlurmRayOperationError
     else sreturn ())"

definition decode_remote_json :: "remote_result \<Rightarrow> op_error + json_object" where
  "decode_remote_json result =
     (case rr_json result of Some (JObj d) \<Rightarrow> Inr d | _ \<Rightarrow> Inl SlurmRayOperationError)"

definition validated_manifest :: "json_object \<Rightarrow> op_error + json_object" where
  "validated_manifest v =
     (case validate_manifest v of Inl _ \<Rightarrow> Inl SlurmRayOperationError | Inr m \<Rightarrow> Inr m)"

definition read_remote_json :: "'s remote \<Rightarrow> string \<Rightarrow> ('s, json_object) client" where
  "read_remote_json run path =
     sbind (run_checked run (CatFile path)) (\<lambda>result. slift (decode_remote_json result))"

definition manifest_path :: "string \<Rightarrow> string" where
  "manifest_path directory = directory @ ''/manifest.json''"

definition read_remote_manifest :: "'s remote \<Rightarrow> string \<Rightarrow> ('s, json_object) client" where
  "read_remote_manifest run directory =
     sbind (run_remote run (CatFile (manifest_path directory))) (\<lambda>result.
     if \<not> rr_ok result then sraise SlurmRayOperationError
     else slift (rbind (decode_remote_json result) validated_manifest))"

definition mutate_remote_manifest ::
  "'s remote \<Rightarrow> json_object \<Rightarrow> string \<Rightarrow> int option \<Rightarrow> ('s, json_object) client" where
  "mutate_remote_manifest run mutation run_id expected_revision =
     sbind (run_remote run (StateModule mutation run_id expected_revision)) (\<lambda>result.
     if \<not> rr_ok result then
       if rr_exited result = MANIFEST_REVISION_CONFLICT_EXIT_CODE then sraise RemoteManifestRevisionConflictError
       else sraise SlurmRayOperationError
     else slift (rbind (decode_remote_json result) validated_manifest))"

text \<open>\<^verbatim>\<open>RemoteRun.mutate\<close>\<close>

definition run_mutate :: "'s remote \<Rightarrow> json_object \<Rightarrow> json_object \<Rightarrow> ('s, json_object) client" where
  "run_mutate run manifest mutation =
     mutate_remote_manifest run mutation (string_of (obj_get manifest ''run_id'')) None"

definition read_run_manifest :: "'s remote \<Rightarrow> string \<Rightarrow> string \<Rightarrow> ('s, json_object) client" where
  "read_run_manifest run directory run_id =
     sbind (read_remote_manifest run directory) (\<lambda>manifest.
     if obj_get manifest ''run_id'' \<noteq> JStr run_id then sraise SlurmRayOperationError
     else sreturn manifest)"

text \<open>The connection is open; closing it does not change what a command returns.\<close>

definition open_remote_run :: "'s remote \<Rightarrow> string \<Rightarrow> string \<Rightarrow> ('s, json_object) client" where
  "open_remote_run run directory run_id =
     (if \<not> valid_run_id run_id then sraise SlurmRayOperationError
      else
        sbind (read_run_manifest run directory run_id) (\<lambda>manifest.
        sbind (verify_manifest_cluster run manifest) (\<lambda>_.
        sreturn manifest)))"

section \<open>Lanes\<close>

definition manifest_lanes :: "json_object \<Rightarrow> json list" where
  "manifest_lanes manifest = list_of (obj_get manifest ''lanes'')"

definition lane_number :: "json \<Rightarrow> int" where
  "lane_number lane = int_of_json (obj_get (dict_of lane) ''lane'')"

definition lane_job_id :: "json \<Rightarrow> string" where
  "lane_job_id lane = string_of (obj_get (dict_of lane) ''job_id'')"

definition job_name :: "string \<Rightarrow> string \<Rightarrow> string \<Rightarrow> string" where
  "job_name base_name run_id role = base_name @ ''-'' @ run_id @ ''-'' @ role"

definition lane_options :: "string \<Rightarrow> int \<Rightarrow> string list" where
  "lane_options head_job_id allocations =
     (''--dependency=after:'' @ head_job_id) #
     (if allocations > 1 then [''--array=0-'' @ py_str_int (allocations - 1) @ ''%1''] else [])"

definition lane_record :: "int \<Rightarrow> string \<Rightarrow> string \<Rightarrow> json_object" where
  "lane_record lane job_id timestamp =
     [(''lane'', JInt lane), (''job_id'', JStr job_id), (''submitted_at'', JStr timestamp)]"

definition submit_lane ::
  "'s remote \<Rightarrow> ('s \<Rightarrow> string) \<Rightarrow> string \<Rightarrow> string \<Rightarrow> string \<Rightarrow> int \<Rightarrow> int \<Rightarrow> string \<Rightarrow> ('s, string \<times> json_object) client" where
  "submit_lane run now base_job_name run_id head_job_id lane allocations directory =
     sbind (submit_script run (directory @ ''/worker.sbatch'')
              (job_name base_job_name run_id (''lane-'' @ py_str_int lane))
              (lane_options head_job_id allocations) [run_id, head_job_id, py_str_int lane]) (\<lambda>job_id.
     (\<lambda>s. (Inr (job_id, lane_record lane job_id (now s)), s)))"

text \<open>The two lists a command fills as it goes, which its errors report: the jobs it has submitted and the
  jobs it has cancelled.\<close>

record progress_lists =
  pr_submitted :: "string list"
  pr_canceled :: "string list"

type_synonym ('s, 'a) tracked = "('s \<times> progress_lists, op_error, 'a) stm"

definition tracked :: "('s, 'a) client \<Rightarrow> ('s, 'a) tracked" where
  "tracked m sp = (case sp of (s, p) \<Rightarrow> (case m s of (r, s') \<Rightarrow> (r, (s', p))))"

definition note_submitted :: "string \<Rightarrow> ('s, unit) tracked" where
  "note_submitted job_id sp =
     (case sp of (s, p) \<Rightarrow> (Inr (), (s, p\<lparr>pr_submitted := pr_submitted p @ [job_id]\<rparr>)))"

definition note_canceled :: "string \<Rightarrow> ('s, unit) tracked" where
  "note_canceled job_id sp =
     (case sp of (s, p) \<Rightarrow> (Inr (), (s, p\<lparr>pr_canceled := pr_canceled p @ [job_id]\<rparr>)))"

definition submitted_so_far :: "('s, string list) tracked" where
  "submitted_so_far sp = (Inr (pr_submitted (snd sp)), sp)"

definition no_progress :: progress_lists where
  "no_progress = \<lparr>pr_submitted = [], pr_canceled = []\<rparr>"

section \<open>Submission\<close>

record submission =
  sub_run_id :: string
  sub_cluster :: string
  sub_state_dir :: string
  sub_manifest_path :: string
  sub_log_dir :: string
  sub_head_job_id :: string
  sub_lane_job_ids :: "string list"

fun submit_initial_lanes ::
  "'s remote \<Rightarrow> ('s \<Rightarrow> string) \<Rightarrow> string \<Rightarrow> string \<Rightarrow> string \<Rightarrow> int \<Rightarrow> string \<Rightarrow> int list \<Rightarrow>
   ('s, string list) tracked" where
  "submit_initial_lanes run now base_job_name run_id head_job_id allocations directory [] = sreturn []"
| "submit_initial_lanes run now base_job_name run_id head_job_id allocations directory (lane # lanes) =
     sbind (tracked (submit_lane run now base_job_name run_id head_job_id lane allocations directory)) (\<lambda>(job_id, record').
     sbind (note_submitted job_id) (\<lambda>_.
     sbind (tracked (mutate_remote_manifest run
              [(''operation'', JStr ''append-lane''), (''lane'', JObj record')] run_id None)) (\<lambda>_.
     sbind (submit_initial_lanes run now base_job_name run_id head_job_id allocations directory lanes) (\<lambda>job_ids.
     sreturn (job_id # job_ids)))))"

definition submit_jobs_body ::
  "'s remote \<Rightarrow> ('s \<Rightarrow> string) \<Rightarrow> string \<Rightarrow> string \<Rightarrow> string \<Rightarrow> int \<Rightarrow> string \<Rightarrow> string \<Rightarrow> ('s, submission) tracked" where
  "submit_jobs_body run now state_dir run_id base_job_name worker_lanes cluster_name directory =
     sbind (tracked (submit_script run (directory @ ''/head.sbatch'') (job_name base_job_name run_id ''head'') [] [])) (\<lambda>head_job_id.
     sbind (note_submitted head_job_id) (\<lambda>_.
     sbind (tracked (mutate_remote_manifest run
              [(''operation'', JStr ''record-head''), (''job_id'', JStr head_job_id)] run_id None)) (\<lambda>manifest.
     sbind (submit_initial_lanes run now base_job_name run_id head_job_id
              (int_of_json (obj_get manifest ''lane_allocations'')) directory [0..worker_lanes - 1]) (\<lambda>lane_job_ids.
     sbind (tracked (mutate_remote_manifest run [(''operation'', JStr ''finish-submission'')] run_id None)) (\<lambda>_.
     sreturn \<lparr>sub_run_id = run_id, sub_cluster = cluster_name, sub_state_dir = state_dir,
       sub_manifest_path = manifest_path directory, sub_log_dir = directory @ ''/logs'',
       sub_head_job_id = head_job_id, sub_lane_job_ids = lane_job_ids\<rparr>)))))"

text \<open>\<open>describe\<close> is the text of an exception, which the failure recorded in the manifest carries.\<close>

definition submit_jobs ::
  "'s remote \<Rightarrow> ('s \<Rightarrow> string) \<Rightarrow> (op_error \<Rightarrow> string) \<Rightarrow> string \<Rightarrow> string \<Rightarrow> string \<Rightarrow> int \<Rightarrow> string \<Rightarrow> string \<Rightarrow>
   ('s, submission) tracked" where
  "submit_jobs run now describe state_dir run_id base_job_name worker_lanes cluster_name directory =
     scatch (submit_jobs_body run now state_dir run_id base_job_name worker_lanes cluster_name directory) (\<lambda>e.
       sbind (tracked (suppressed (mutate_remote_manifest run
                [(''operation'', JStr ''record-failure''), (''error'', JStr (''Submission failed: '' @ describe e))] run_id None))) (\<lambda>_.
       sbind submitted_so_far (\<lambda>submitted_job_ids.
       sbind (tracked (suppressed (cancel_jobs run (rev submitted_job_ids)))) (\<lambda>_.
       sbind (if submitted_job_ids = []
              then tracked (suppressed (mutate_remote_manifest run [(''operation'', JStr ''finalize'')] run_id None))
              else sreturn ()) (\<lambda>_.
       sraise e)))))"

section \<open>Scaling\<close>

definition required_head_job_id :: "json_object \<Rightarrow> op_error + string" where
  "required_head_job_id manifest =
     (case obj_get manifest ''head_job_id'' of JStr job_id \<Rightarrow> Inr job_id | _ \<Rightarrow> Inl SlurmRayOperationError)"

definition SCALABLE_HEAD_STATES :: "string list" where
  "SCALABLE_HEAD_STATES = ''PENDING'' # ACTIVE_HEAD_SLURM_STATES"

definition state_at :: "job_states \<Rightarrow> string \<Rightarrow> op_error + job_state" where
  "state_at states job_id = (case map_of states job_id of None \<Rightarrow> Inl OpKeyError | Some state \<Rightarrow> Inr state)"

definition manifest_state :: "json_object \<Rightarrow> op_error + run_state" where
  "manifest_state manifest = (case run_state_of manifest of Inl _ \<Rightarrow> Inl SlurmRayOperationError | Inr s \<Rightarrow> Inr s)"

definition unknown_states :: "job_states \<Rightarrow> string list" where
  "unknown_states states = map fst (filter (\<lambda>(job_id, state). js_state state = ''UNKNOWN'') states)"

definition verified_scale_job_states :: "'s remote \<Rightarrow> json_object \<Rightarrow> string \<Rightarrow> ('s, job_states) client" where
  "verified_scale_job_states run manifest head_job_id =
     sbind (slift (manifest_state manifest)) (\<lambda>state.
     if state \<notin> {STARTING, ACTIVE} then sraise SlurmRayOperationError
     else
       sbind (query_job_states run (head_job_id # map lane_job_id (manifest_lanes manifest))) (\<lambda>states.
       if unknown_states states \<noteq> [] then sraise SlurmRayOperationError
       else
         sbind (slift (state_at states head_job_id)) (\<lambda>head.
         if js_state head \<notin> set SCALABLE_HEAD_STATES then sraise SlurmRayOperationError
         else sreturn states)))"

fun active_lanes :: "job_states \<Rightarrow> json list \<Rightarrow> op_error + json list" where
  "active_lanes states [] = Inr []"
| "active_lanes states (lane # lanes) =
     rbind (state_at states (lane_job_id lane)) (\<lambda>state.
     rbind (active_lanes states lanes) (\<lambda>active.
     Inr (if is_nonterminal state then lane # active else active)))"

definition add_lane ::
  "'s remote \<Rightarrow> ('s \<Rightarrow> string) \<Rightarrow> string \<Rightarrow> json_object \<Rightarrow> string \<Rightarrow> int \<Rightarrow> ('s, unit) tracked" where
  "add_lane run now directory manifest head_job_id number =
     sbind (tracked (submit_lane run now (string_of (obj_get manifest ''job_name'')) (string_of (obj_get manifest ''run_id''))
              head_job_id number (int_of_json (obj_get manifest ''lane_allocations'')) directory)) (\<lambda>(job_id, record').
     sbind (note_submitted job_id) (\<lambda>_.
     on_exception
       (sbind (tracked (run_mutate run manifest
          [(''operation'', JStr ''append-lane''), (''lane'', JObj record')])) (\<lambda>_. sreturn ()))
       (\<lambda>e. sbind (tracked (cancel_jobs run [job_id])) (\<lambda>canceled.
            sbind (if canceled = [job_id] then note_canceled job_id else sreturn ()) (\<lambda>_.
            sraise e)))))"

fun add_lanes ::
  "'s remote \<Rightarrow> ('s \<Rightarrow> string) \<Rightarrow> string \<Rightarrow> json_object \<Rightarrow> string \<Rightarrow> int list \<Rightarrow> ('s, unit) tracked" where
  "add_lanes run now directory manifest head_job_id [] = sreturn ()"
| "add_lanes run now directory manifest head_job_id (number # numbers) =
     sbind (add_lane run now directory manifest head_job_id number) (\<lambda>_.
     add_lanes run now directory manifest head_job_id numbers)"

definition cancel_lane :: "'s remote \<Rightarrow> json \<Rightarrow> ('s, unit) tracked" where
  "cancel_lane run lane =
     (let job_id = lane_job_id lane in
      sbind (tracked (cancel_jobs run [job_id])) (\<lambda>canceled.
      if canceled \<noteq> [job_id] then sraise SlurmRayOperationError else note_canceled job_id))"

fun cancel_lanes :: "'s remote \<Rightarrow> json list \<Rightarrow> ('s, unit) tracked" where
  "cancel_lanes run [] = sreturn ()"
| "cancel_lanes run (lane # lanes) = sbind (cancel_lane run lane) (\<lambda>_. cancel_lanes run lanes)"

text \<open>The number of the next lane, and the lanes a scale down cancels: those with the highest numbers.\<close>

definition next_lane :: "json list \<Rightarrow> int" where
  "next_lane lanes = (case map lane_number lanes of [] \<Rightarrow> - 1 | n # ns \<Rightarrow> fold max ns n) + 1"

definition surplus_lanes :: "json list \<Rightarrow> int \<Rightarrow> json list" where
  "surplus_lanes active worker_lanes =
     take (nat (int (length active) - worker_lanes)) (sort_key (\<lambda>lane. - lane_number lane) active)"

definition reconcile_lanes ::
  "'s remote \<Rightarrow> ('s \<Rightarrow> string) \<Rightarrow> string \<Rightarrow> json_object \<Rightarrow> string \<Rightarrow> json list \<Rightarrow> int \<Rightarrow> ('s, unit) tracked" where
  "reconcile_lanes run now directory manifest head_job_id active worker_lanes =
     (let previous_worker_lanes = int (length active) in
      if previous_worker_lanes < worker_lanes then
        let first = next_lane (manifest_lanes manifest) in
        add_lanes run now directory manifest head_job_id [first..first + worker_lanes - previous_worker_lanes - 1]
      else if previous_worker_lanes > worker_lanes then cancel_lanes run (surplus_lanes active worker_lanes)
      else sreturn ())"

definition scale_result_of :: "int \<Rightarrow> int \<Rightarrow> progress_lists \<Rightarrow> scale_result" where
  "scale_result_of worker_lanes previous p =
     \<lparr>sc_target = worker_lanes, sc_previous = previous, sc_submitted = pr_submitted p, sc_canceled = pr_canceled p\<rparr>"

definition sc_worker_lanes :: "scale_result \<Rightarrow> int" where
  "sc_worker_lanes r = sc_previous r + int (length (sc_submitted r)) - int (length (sc_canceled r))"

text \<open>The reconciliation and the result or error it is reported with.\<close>

definition scale_reconcile ::
  "'s remote \<Rightarrow> ('s \<Rightarrow> string) \<Rightarrow> string \<Rightarrow> json_object \<Rightarrow> string \<Rightarrow> json list \<Rightarrow> int \<Rightarrow> ('s, scale_result) client" where
  "scale_reconcile run now directory manifest head_job_id active worker_lanes s =
     (case reconcile_lanes run now directory manifest head_job_id active worker_lanes (s, no_progress) of
        (Inr _, (s', p)) \<Rightarrow> (Inr (scale_result_of worker_lanes (int (length active)) p), s')
      | (Inl e, (s', p)) \<Rightarrow>
          (Inl (if e \<noteq> KeyboardInterrupt \<and> (pr_submitted p \<noteq> [] \<or> pr_canceled p \<noteq> [])
                then PartialScaleError (scale_result_of worker_lanes (int (length active)) p) else e), s'))"

definition scale_lanes ::
  "'s remote \<Rightarrow> ('s \<Rightarrow> string) \<Rightarrow> string \<Rightarrow> json_object \<Rightarrow> int \<Rightarrow> ('s, scale_result) client" where
  "scale_lanes run now directory manifest worker_lanes =
     sbind (slift (required_head_job_id manifest)) (\<lambda>head_job_id.
     sbind (verified_scale_job_states run manifest head_job_id) (\<lambda>states.
     sbind (slift (active_lanes states (manifest_lanes manifest))) (\<lambda>active.
     scale_reconcile run now directory manifest head_job_id active worker_lanes)))"

definition scale_slurm_ray_run ::
  "'s remote \<Rightarrow> ('s \<Rightarrow> string) \<Rightarrow> string \<Rightarrow> string \<Rightarrow> int \<Rightarrow> ('s, scale_result) client" where
  "scale_slurm_ray_run run now directory run_id worker_lanes =
     (if worker_lanes < 0 then sraise SlurmRayOperationError
      else sbind (open_remote_run run directory run_id) (\<lambda>manifest.
           scale_lanes run now directory manifest worker_lanes))"

section \<open>Stopping\<close>

definition cancel_lanes_then_head ::
  "'s remote \<Rightarrow> string list \<Rightarrow> string list \<Rightarrow> run_state \<Rightarrow> ('s, unit) client" where
  "cancel_lanes_then_head run lane_job_ids head_job_ids state =
     sbind (cancel_jobs run lane_job_ids) (\<lambda>canceled_lanes.
     if canceled_lanes \<noteq> lane_job_ids
     then sraise (PartialStopError \<lparr>st_state = state, st_canceled_lanes = canceled_lanes, st_canceled_head = []\<rparr>)
     else
       sbind (cancel_jobs run head_job_ids) (\<lambda>canceled_head.
       if canceled_head \<noteq> head_job_ids
       then sraise (PartialStopError \<lparr>st_state = state, st_canceled_lanes = canceled_lanes, st_canceled_head = canceled_head\<rparr>)
       else sreturn ()))"

fun active_jobs :: "job_states \<Rightarrow> string list \<Rightarrow> op_error + string list" where
  "active_jobs states [] = Inr []"
| "active_jobs states (job_id # job_ids) =
     rbind (state_at states job_id) (\<lambda>state.
     rbind (active_jobs states job_ids) (\<lambda>active.
     Inr (if is_nonterminal state then job_id # active else active)))"

definition head_job_ids :: "json_object \<Rightarrow> string list" where
  "head_job_ids manifest = (case obj_get manifest ''head_job_id'' of JStr job_id \<Rightarrow> [job_id] | _ \<Rightarrow> [])"

text \<open>The last part of a stop, once it knows which of the recorded jobs are active.\<close>

definition stop_jobs ::
  "'s remote \<Rightarrow> json_object \<Rightarrow> run_state \<Rightarrow> string list \<Rightarrow> string list \<Rightarrow> ('s, stop_result) client" where
  "stop_jobs run manifest original_state lanes head =
     (if original_state \<in> set TERMINAL_RUN_STATES then
        sbind (cancel_lanes_then_head run lanes head original_state) (\<lambda>_.
        sreturn \<lparr>st_state = original_state, st_canceled_lanes = lanes, st_canceled_head = head\<rparr>)
      else
        sbind (run_mutate run manifest [(''operation'', JStr ''request-stop'')]) (\<lambda>_.
        sbind (cancel_lanes_then_head run lanes head STOPPING) (\<lambda>_.
        sbind (if lanes \<noteq> [] \<or> head \<noteq> [] then sreturn STOPPING
               else sbind (run_mutate run manifest [(''operation'', JStr ''finalize'')]) (\<lambda>m.
                    slift (manifest_state m))) (\<lambda>state.
        sreturn \<lparr>st_state = state, st_canceled_lanes = lanes, st_canceled_head = head\<rparr>))))"

definition stop_run :: "'s remote \<Rightarrow> json_object \<Rightarrow> ('s, stop_result) client" where
  "stop_run run manifest =
     sbind (slift (manifest_state manifest)) (\<lambda>original_state.
     let lane_job_ids = map lane_job_id (manifest_lanes manifest) in
     sbind (query_job_states run (lane_job_ids @ head_job_ids manifest)) (\<lambda>states.
     if unknown_states states \<noteq> [] then sraise SlurmRayOperationError
     else
       sbind (slift (active_jobs states lane_job_ids)) (\<lambda>lanes.
       sbind (slift (active_jobs states (head_job_ids manifest))) (\<lambda>head.
       stop_jobs run manifest original_state lanes head))))"

definition stop_slurm_ray_run :: "'s remote \<Rightarrow> string \<Rightarrow> string \<Rightarrow> ('s, stop_result) client" where
  "stop_slurm_ray_run run directory run_id =
     sbind (open_remote_run run directory run_id) (stop_run run)"

end
