(* ===== verification/SlurmStatus.thy ===== *)
theory SlurmStatus
  imports SlurmRuns
begin

text \<open>
  \<^verbatim>\<open>client/slurm_cli/managed_ray/status.py\<close> and the run summary of \<^verbatim>\<open>lifecycle.py\<close>: the view that combines
  the manifest, the scheduler and the last Ray observation, and the one write it makes, which finishes a run
  whose jobs have all left Slurm. \<open>age_of\<close> is the age in seconds of an ISO timestamp, \<open>None\<close> where it does
  not parse.
\<close>

section \<open>Ray observations\<close>

datatype ray_view_state = RayStopped | RayUnknown | RayStale | RayLive

record ray_view =
  ray_state :: ray_view_state
  ray_age :: "rat option"
  ray_address_field :: "string option"
  ray_snapshot :: "json_object option"

definition STATUS_INTERVAL_SECONDS :: int where "STATUS_INTERVAL_SECONDS = 10"

definition RAY_STATUS_STALE_SECONDS :: int where "RAY_STATUS_STALE_SECONDS = 3 * STATUS_INTERVAL_SECONDS"

definition remote_path_exists :: "'s remote \<Rightarrow> string \<Rightarrow> ('s, bool) client" where
  "remote_path_exists run path =
     sbind (run_remote run (TestExists path)) (\<lambda>result.
     if rr_ok result then sreturn True
     else if rr_exited result \<noteq> 1 then sraise RemoteCallError
     else sreturn False)"

definition snapshot_age_seconds :: "(string \<Rightarrow> rat option) \<Rightarrow> json_object \<Rightarrow> rat option" where
  "snapshot_age_seconds age_of snapshot =
     (case obj_get snapshot ''timestamp'' of
        JStr timestamp \<Rightarrow> map_option (max 0) (age_of timestamp)
      | _ \<Rightarrow> None)"

definition read_remote_snapshot ::
  "'s remote \<Rightarrow> (string \<Rightarrow> rat option) \<Rightarrow> string \<Rightarrow> ('s, json_object option \<times> rat option) client" where
  "read_remote_snapshot run age_of path =
     sbind (remote_path_exists run path) (\<lambda>there.
     if \<not> there then sreturn (None, None)
     else sbind (read_remote_json run path) (\<lambda>snapshot.
          sreturn (Some snapshot, snapshot_age_seconds age_of snapshot)))"

definition driver_state :: "json_object option \<Rightarrow> bool \<Rightarrow> bool \<Rightarrow> string" where
  "driver_state snapshot ray_is_live terminal =
     (case snapshot of
        Some snap \<Rightarrow>
          if ray_is_live
          then (case obj_get snap ''driver_state'' of JStr observed \<Rightarrow> observed | _ \<Rightarrow> ''UNKNOWN'')
          else if terminal then ''EXITED'' else ''UNKNOWN''
      | None \<Rightarrow> if terminal then ''EXITED'' else ''UNKNOWN'')"

definition ray_address :: "'s remote \<Rightarrow> string \<Rightarrow> ('s, string option) client" where
  "ray_address run directory =
     sbind (remote_path_exists run (directory @ ''/bootstrap.json'')) (\<lambda>there.
     if \<not> there then sreturn None
     else
       scatch
         (sbind (read_remote_json run (directory @ ''/bootstrap.json'')) (\<lambda>bootstrap.
          sreturn (case obj_get bootstrap ''ray_address'' of JStr address \<Rightarrow> Some address | _ \<Rightarrow> None)))
         (\<lambda>e. if e = SlurmRayOperationError then sreturn None else sraise e))"

definition ray_status :: "json_object option \<Rightarrow> rat option \<Rightarrow> string option \<Rightarrow> bool \<Rightarrow> ray_view" where
  "ray_status snapshot snapshot_age address run_is_terminal =
     (if run_is_terminal
      then \<lparr>ray_state = RayStopped, ray_age = snapshot_age, ray_address_field = address, ray_snapshot = None\<rparr>
      else case snapshot of
        None \<Rightarrow> \<lparr>ray_state = RayUnknown, ray_age = None, ray_address_field = address, ray_snapshot = None\<rparr>
      | Some snap \<Rightarrow>
          if snapshot_age = None \<or> the snapshot_age > of_int RAY_STATUS_STALE_SECONDS
          then \<lparr>ray_state = RayStale, ray_age = snapshot_age, ray_address_field = address, ray_snapshot = None\<rparr>
          else \<lparr>ray_state = RayLive, ray_age = snapshot_age, ray_address_field = address, ray_snapshot = Some snap\<rparr>)"

section \<open>Reconciliation\<close>

fun observed_states :: "job_states \<Rightarrow> json list \<Rightarrow> op_error + string list" where
  "observed_states states [] = Inr []"
| "observed_states states (lane # lanes) =
     rbind (state_at states (lane_job_id lane)) (\<lambda>state.
     rbind (observed_states states lanes) (\<lambda>observed.
     Inr (js_state state # observed)))"

definition maybe_alive :: "string \<Rightarrow> bool" where
  "maybe_alive state \<longleftrightarrow> state \<in> set NONTERMINAL_SLURM_STATES \<or> state = ''UNKNOWN''"

definition reconcile_terminal_state ::
  "'s remote \<Rightarrow> json_object \<Rightarrow> string \<Rightarrow> job_states \<Rightarrow> ('s, json_object) client" where
  "reconcile_terminal_state run manifest head_state states =
     sbind (slift (observed_states states (manifest_lanes manifest))) (\<lambda>observed.
     sbind (slift (manifest_state manifest)) (\<lambda>state.
     if state \<in> set TERMINAL_RUN_STATES \<or> list_ex maybe_alive (head_state # observed) then sreturn manifest
     else
       scatch
         (mutate_remote_manifest run
            [(''operation'', JStr ''finalize''),
             (''fallback_error'', JStr (''Head job entered terminal Slurm state '' @ head_state))]
            (string_of (obj_get manifest ''run_id'')) (Some (int_of_json (obj_get manifest ''revision''))))
         (\<lambda>e. if e = RemoteManifestRevisionConflictError then sreturn manifest else sraise e)))"

section \<open>The status view\<close>

record lane_view =
  lv_lane :: int
  lv_job_id :: string
  lv_state :: job_state

record status_view =
  sv_run_id :: string
  sv_cluster :: json
  sv_state :: run_state
  sv_exit_status :: json
  sv_driver_state :: string
  sv_error :: json
  sv_head_job_id :: "string option"
  sv_head :: job_state
  sv_lane_allocations :: int
  sv_lanes :: "lane_view list"
  sv_ray :: ray_view
  sv_manifest_path :: string
  sv_log_dir :: string

fun lane_views :: "job_states \<Rightarrow> json list \<Rightarrow> op_error + lane_view list" where
  "lane_views states [] = Inr []"
| "lane_views states (lane # lanes) =
     rbind (state_at states (lane_job_id lane)) (\<lambda>state.
     rbind (lane_views states lanes) (\<lambda>views.
     Inr (\<lparr>lv_lane = lane_number lane, lv_job_id = lane_job_id lane, lv_state = state\<rparr> # views)))"

definition head_status_of :: "json_object \<Rightarrow> job_states \<Rightarrow> job_state" where
  "head_status_of manifest states =
     (case head_job_ids manifest of
        [] \<Rightarrow> unknown_job_state ''UNKNOWN''
      | j # _ \<Rightarrow> (case map_of states j of None \<Rightarrow> unknown_job_state ''UNKNOWN'' | Some state \<Rightarrow> state))"

text \<open>The view, from the manifest as it was read, the job states and the manifest after the reconciliation.\<close>

definition status_view_of ::
  "'s remote \<Rightarrow> (string \<Rightarrow> rat option) \<Rightarrow> string \<Rightarrow> string \<Rightarrow> json_object \<Rightarrow> job_states \<Rightarrow> json_object \<Rightarrow>
   ('s, status_view) client" where
  "status_view_of run age_of directory run_id manifest0 states manifest =
     sbind (slift (manifest_state manifest)) (\<lambda>state.
     let run_is_terminal = (state \<in> set TERMINAL_RUN_STATES) in
     sbind (read_remote_snapshot run age_of (directory @ ''/ray-status.json'')) (\<lambda>(snapshot, snapshot_age).
     sbind (ray_address run directory) (\<lambda>address.
     let ray = ray_status snapshot snapshot_age address run_is_terminal in
     sbind (slift (lane_views states (sort_key lane_number (manifest_lanes manifest0)))) (\<lambda>lanes.
     sreturn
       \<lparr>sv_run_id = run_id, sv_cluster = obj_get manifest ''slurm_cluster_name'', sv_state = state,
        sv_exit_status = obj_get manifest ''pipeline_exit_status'',
        sv_driver_state = driver_state snapshot (ray_state ray = RayLive) run_is_terminal,
        sv_error = obj_get manifest ''error'',
        sv_head_job_id = (case head_job_ids manifest0 of [] \<Rightarrow> None | j # _ \<Rightarrow> Some j),
        sv_head = head_status_of manifest0 states,
        sv_lane_allocations = int_of_json (obj_get manifest ''lane_allocations''), sv_lanes = lanes,
        sv_ray = ray, sv_manifest_path = manifest_path directory, sv_log_dir = directory @ ''/logs''\<rparr>))))"

definition status_of_run ::
  "'s remote \<Rightarrow> (string \<Rightarrow> rat option) \<Rightarrow> string \<Rightarrow> string \<Rightarrow> json_object \<Rightarrow> ('s, status_view) client" where
  "status_of_run run age_of directory run_id manifest0 =
     sbind (query_job_states run (head_job_ids manifest0 @ map lane_job_id (manifest_lanes manifest0))) (\<lambda>states.
     sbind (reconcile_terminal_state run manifest0 (js_state (head_status_of manifest0 states)) states) (\<lambda>manifest.
     status_view_of run age_of directory run_id manifest0 states manifest))"

definition status_slurm_ray_run ::
  "'s remote \<Rightarrow> (string \<Rightarrow> rat option) \<Rightarrow> string \<Rightarrow> string \<Rightarrow> ('s, status_view) client" where
  "status_slurm_ray_run run age_of directory run_id =
     sbind (open_remote_run run directory run_id) (status_of_run run age_of directory run_id)"

section \<open>Summaries\<close>

record run_summary =
  sm_run_id :: string
  sm_cluster :: json
  sm_state :: json
  sm_job_name :: json
  sm_created_at :: json
  sm_lanes :: "int option"
  sm_manifest_path :: string

definition run_summary_of :: "string \<Rightarrow> string \<Rightarrow> json_object option \<Rightarrow> run_summary" where
  "run_summary_of run_id path manifest =
     (let damaged = \<lparr>sm_run_id = run_id, sm_cluster = JNull, sm_state = JStr ''UNREADABLE'', sm_job_name = JNull,
            sm_created_at = JNull, sm_lanes = None, sm_manifest_path = path\<rparr>
      in case manifest of
           None \<Rightarrow> damaged
         | Some m \<Rightarrow>
             (case validate_manifest m of
                Inl _ \<Rightarrow> damaged
              | Inr validated \<Rightarrow>
                  damaged\<lparr>sm_state := obj_get validated ''state'', sm_cluster := obj_get validated ''slurm_cluster_name'',
                    sm_job_name := obj_get validated ''job_name'', sm_created_at := obj_get validated ''created_at'',
                    sm_lanes := Some (int (length (list_of (obj_get validated ''lanes''))))\<rparr>))"

end
