(* ===== verification/SlurmCluster.thy ===== *)
theory SlurmCluster
  imports SlurmStatus "HOL-Library.Multiset"
begin

text \<open>
  The client operations of \<open>SlurmRuns\<close> and \<open>SlurmStatus\<close> on a login node that runs the state module of
  \<open>RunManifest\<close>: what a client can rely on is a locale, its model is a cluster whose other parts (Slurm,
  the network, other clients of the run) are parameters.
\<close>

section \<open>Relations every command keeps\<close>

lemma spreserves_scatch:
  assumes "transp R" "spreserves R m" "\<And>e. spreserves R (h e)"
  shows "spreserves R (scatch m h)"
  unfolding spreserves_def
proof
  fix s
  obtain r s' where m: "m s = (r, s')" by (cases "m s")
  then have "R s s'" using assms(2) by (metis snd_conv spreserves_def)
  moreover have "R s' (snd (h e s'))" for e using assms(3) by (simp add: spreserves_def)
  ultimately show "R s (snd (scatch m h s))" using m assms(1)
    by (cases r) (auto simp: scatch_def dest: transpD)
qed

definition on_world :: "('s \<Rightarrow> 's \<Rightarrow> bool) \<Rightarrow> 's \<times> progress_lists \<Rightarrow> 's \<times> progress_lists \<Rightarrow> bool" where
  "on_world R sp sp' \<longleftrightarrow> R (fst sp) (fst sp')"

locale remote_relation =
  fixes run :: "'s remote" and R :: "'s \<Rightarrow> 's \<Rightarrow> bool"
  assumes reflp: "reflp R" and transp: "transp R"
    and step: "run cmd s = (r, s') \<Longrightarrow> R s s'"
begin

lemmas pbind = spreserves_sbind [OF transp]
lemmas psimple = spreserves_simple [OF reflp]
lemmas pcatch = spreserves_scatch [OF transp]

lemma transp_on_world: "transp (on_world R)"
  using transp by (auto simp: on_world_def transp_def)

lemma reflp_on_world: "reflp (on_world R)"
  using reflp by (auto simp: on_world_def reflp_def)

lemmas wbind = spreserves_sbind [OF transp_on_world]
lemmas wsimple = spreserves_simple [OF reflp_on_world]
lemmas wcatch = spreserves_scatch [OF transp_on_world]

lemma run_remote_keeps: "spreserves R (run_remote run cmd)"
  unfolding spreserves_def
proof
  fix s
  obtain r s' where "run cmd s = (r, s')" by (cases "run cmd s")
  with step show "R s (snd (run_remote run cmd s))"
    by (cases r) (auto simp: run_remote_def split: call_error.splits)
qed

lemma run_checked_keeps: "spreserves R (run_checked run cmd)"
  unfolding run_checked_def by (intro pbind run_remote_keeps) (simp add: psimple)

lemma on_exception_keeps:
  "spreserves R m \<Longrightarrow> (\<And>e. spreserves R (h e)) \<Longrightarrow> spreserves R (on_exception m h)"
  unfolding on_exception_def by (rule pcatch) (simp_all add: psimple)

lemma suppressed_keeps: "spreserves R m \<Longrightarrow> spreserves R (suppressed m)"
  unfolding suppressed_def by (intro on_exception_keeps pbind psimple)

lemma find_job_keeps: "spreserves R (find_job_by_exact_name run name)"
  unfolding find_job_by_exact_name_def Let_def
  by (rule pbind [OF run_remote_keeps])
    (auto intro!: pbind psimple split: list.split)

lemma submit_script_keeps: "spreserves R (submit_script run path name options arguments)"
  unfolding submit_script_def
  by (intro on_exception_keeps pbind run_checked_keeps psimple find_job_keeps)
    (simp add: psimple split: option.split)

lemma cancel_jobs_keeps: "spreserves R (cancel_jobs run job_ids)"
proof (induction job_ids)
  case (Cons job_id job_ids)
  show ?case unfolding cancel_jobs.simps by (intro pbind run_remote_keeps Cons.IH psimple)
qed (simp add: psimple)

lemma query_job_states_keeps: "spreserves R (query_job_states run job_ids)"
  unfolding query_job_states_def accounting_job_states_def queued_job_states_def
  by (auto intro!: pbind run_remote_keeps psimple)

lemma mutate_remote_manifest_keeps: "spreserves R (mutate_remote_manifest run mutation run_id expected)"
  unfolding mutate_remote_manifest_def by (intro pbind run_remote_keeps) (simp add: psimple)

lemma submit_lane_keeps: "spreserves R (submit_lane run now base run_id head n allocations directory)"
proof -
  have "spreserves R (\<lambda>s. (Inr (j, lane_record n j (now s)), s))" for j
    using reflp by (simp add: spreserves_def reflp_def)
  then show ?thesis unfolding submit_lane_def by (intro pbind submit_script_keeps)
qed

lemma tracked_keeps: "spreserves R m \<Longrightarrow> spreserves (on_world R) (tracked m)"
  by (auto simp: spreserves_def tracked_def on_world_def split: prod.splits) (metis snd_conv)

lemma notes_keep: "spreserves (on_world R) (note_submitted j)" "spreserves (on_world R) (note_canceled j)"
  using reflp by (auto simp: spreserves_def note_submitted_def note_canceled_def on_world_def reflp_def)

lemma add_lane_keeps: "spreserves (on_world R) (add_lane run now directory manifest head n)"
  unfolding add_lane_def on_exception_def run_mutate_def
  by (auto simp del: cancel_jobs.simps intro!: wbind wcatch tracked_keeps submit_lane_keeps mutate_remote_manifest_keeps cancel_jobs_keeps
      notes_keep wsimple split: prod.split)

lemma add_lanes_keeps: "spreserves (on_world R) (add_lanes run now directory manifest head ns)"
proof (induction ns)
  case (Cons n ns)
  show ?case unfolding add_lanes.simps by (intro wbind add_lane_keeps Cons.IH)
qed (simp add: wsimple)

lemma cancel_lanes_keeps: "spreserves (on_world R) (cancel_lanes run lanes)"
proof (induction lanes)
  case (Cons lane lanes)
  have "spreserves (on_world R) (cancel_lane run lane)"
    unfolding cancel_lane_def Let_def
    by (intro wbind tracked_keeps cancel_jobs_keeps) (simp add: wsimple notes_keep)
  with Cons.IH show ?case unfolding cancel_lanes.simps by (intro wbind)
qed (simp add: wsimple)

lemma reconcile_lanes_keeps: "spreserves (on_world R) (reconcile_lanes run now directory manifest head active n)"
  unfolding reconcile_lanes_def Let_def by (simp add: add_lanes_keeps cancel_lanes_keeps wsimple)

lemma read_remote_json_keeps: "spreserves R (read_remote_json run path)"
  unfolding read_remote_json_def by (intro pbind run_checked_keeps psimple)

end

section \<open>The manifest file\<close>

definition lanes_of :: "json_object option \<Rightarrow> json list" where
  "lanes_of disk = (case disk of None \<Rightarrow> [] | Some m \<Rightarrow> manifest_lanes m)"

definition lane_recorded_for :: "json_object option \<Rightarrow> string \<Rightarrow> bool" where
  "lane_recorded_for disk job_id \<longleftrightarrow> (\<exists>lane \<in> set (lanes_of disk). lane_job_id lane = job_id)"

definition lane_recorded_as :: "json_object option \<Rightarrow> int \<Rightarrow> string \<Rightarrow> bool" where
  "lane_recorded_as disk n job_id \<longleftrightarrow> (\<exists>lane \<in> set (lanes_of disk). lane_job_id lane = job_id \<and> lane_number lane = n)"

lemma lane_recorded_as_for: "lane_recorded_as disk n j \<Longrightarrow> lane_recorded_for disk j"
  by (auto simp: lane_recorded_as_def lane_recorded_for_def)

text \<open>A fenced file: the run is stopping or has ended.\<close>

definition fenced :: "json_object option \<Rightarrow> bool" where
  "fenced disk \<longleftrightarrow> (\<exists>m s. disk = Some m \<and> run_state_of m = Inr s \<and> STOPPING \<le> s)"

lemma calls_None: "fold run_mutation calls None = None"
proof (induction calls)
  case (Cons call calls)
  have "run_mutation call None = None"
    by (cases call) (auto simp: run_mutation_def mutate_manifest_def)
  with Cons show ?case by simp
qed simp

lemma calls_lanes: "prefix (lanes_of disk) (lanes_of (fold run_mutation calls disk))"
proof (cases disk)
  case None
  then show ?thesis by (simp add: lanes_of_def)
next
  case (Some m)
  obtain m' where m': "fold run_mutation calls (Some m) = Some m'" "run_step\<^sup>*\<^sup>* (view_of m) (view_of m')"
    using run_mutations_steps by blast
  with run_steps_lanes [OF m'(2)] Some show ?thesis by (simp add: lanes_of_def manifest_lanes_def view_of_simps)
qed

lemma lane_recorded_calls:
  "lane_recorded_for disk j \<Longrightarrow> lane_recorded_for (fold run_mutation calls disk) j"
  "lane_recorded_as disk n j \<Longrightarrow> lane_recorded_as (fold run_mutation calls disk) n j"
  using set_mono_prefix [OF calls_lanes [of disk calls]] by (auto simp: lane_recorded_for_def lane_recorded_as_def)

lemma fenced_calls:
  assumes "fenced disk"
  shows "fenced (fold run_mutation calls disk) \<and> lanes_of (fold run_mutation calls disk) = lanes_of disk"
proof -
  from assms obtain m s where m: "disk = Some m" "run_state_of m = Inr s" "STOPPING \<le> s" by (auto simp: fenced_def)
  obtain m' where m': "fold run_mutation calls (Some m) = Some m'" "run_step\<^sup>*\<^sup>* (view_of m) (view_of m')"
    using run_mutations_steps by blast
  have "STOPPING \<le> rv_state (view_of m)" using m by (simp add: view_of_simps)
  from run_steps_fence [OF m'(2) this] run_mutations_state [OF m'(1) m(2)] m'(1) m(1) show ?thesis
    by (auto simp: fenced_def lanes_of_def manifest_lanes_def view_of_simps(6))
qed

lemma py_eq_dict_get:
  assumes "py_eq (JObj d) (JObj e)" "map_of d k = Some x"
  shows "\<exists>y. map_of e k = Some y \<and> py_eq x y"
proof -
  have "list_all (\<lambda>(k, x). case map_of e k of None \<Rightarrow> False | Some y \<Rightarrow> py_eq x y) d"
    using assms(1) by (simp add: py_eq.simps [of "JObj d"])
  with map_of_SomeD [OF assms(2)] show ?thesis by (auto simp: list_all_iff split: option.splits)
qed

lemma lane_recorded_True: "lane_recorded lane lanes = Inr True \<Longrightarrow> \<exists>current \<in> set lanes. py_eq current (JObj lane)"
  by (induction lanes) (auto split: if_splits)

lemma dict_get_job_id: "obj_get d k = JStr j \<longleftrightarrow> map_of d k = Some (JStr j)"
  by (auto simp: obj_get_def split: option.splits)

lemma py_eq_int: "is_int x \<Longrightarrow> py_eq x (JInt n) \<Longrightarrow> int_of_json x = n"
  by (cases x) (auto simp: py_eq.simps split: if_splits)

lemma same_lane:
  assumes "valid_lane current" "py_eq current (JObj (lane_record n j t))"
  shows "lane_job_id current = j \<and> lane_number current = n"
proof -
  from assms(1) obtain d i where d: "current = JObj d" "obj_get d ''job_id'' = JStr i" "is_int (obj_get d ''lane'')"
    by (cases current; cases "obj_get (dict_of current) ''job_id''") (auto simp: valid_lane_def nonempty_str_def)
  then obtain y where "map_of (lane_record n j t) ''job_id'' = Some y" "py_eq (JStr i) y"
    using py_eq_dict_get [of d "lane_record n j t" "''job_id''" "JStr i"] assms(2) by (auto simp: dict_get_job_id)
  moreover from d(3) obtain x where x: "map_of d ''lane'' = Some x" "obj_get d ''lane'' = x"
    by (cases "map_of d ''lane''") (auto simp: obj_get_def)
  then obtain z where "map_of (lane_record n j t) ''lane'' = Some z" "py_eq x z"
    using py_eq_dict_get [of d "lane_record n j t" "''lane''" x] assms(2) d(1) by auto
  then have "int_of_json x = n" using py_eq_int [of x n] d(3) x(2) by (simp add: lane_record_def)
  ultimately show ?thesis using d x by (auto simp: lane_record_def lane_job_id_def lane_number_def)
qed

text \<open>A lane whose append has returned is in the file; a fenced file takes no lane.\<close>

lemma append_lane_recorded:
  assumes "mutate_manifest [(''operation'', JStr ''append-lane''), (''lane'', JObj (lane_record n j t))] run_id expected
    now now' (Some m) = (Inr v, disk)"
  shows "lane_recorded_as disk n j"
proof -
  let ?lane = "lane_record n j t"
  from mutate_manifest_Inr [OF assms] obtain m1 where valid: "validate_manifest m = Inr m"
    and m1: "apply_manifest_mutation m [(''operation'', JStr ''append-lane''), (''lane'', JObj ?lane)] now = Inr m1"
    and out: "dumps_sorted (JObj m1) = dumps_sorted (JObj m) \<and> disk = Some m \<or>
      disk = Some v \<and> v = obj_set (obj_set m1 ''revision'' (JInt (int_of_json (obj_get m1 ''revision'') + 1))) ''updated_at'' (JStr now')"
    by metis
  from m1 have "append_lane m [(''operation'', JStr ''append-lane''), (''lane'', JObj ?lane)] now = Inr m1"
    by (simp add: apply_manifest_mutation_def MANIFEST_MUTATORS_def obj_get_def)
  then obtain lanes found where found: "map_of m ''lanes'' = Some lanes" "lane_recorded ?lane (list_of lanes) = Inr found"
    "m1 = (if found then m else obj_set m ''lanes'' (JArr (list_of lanes @ [JObj ?lane])))"
    by (auto simp: append_lane_def result_simps obj_get_def [of "_ # _"] split: if_splits option.splits)
  have lanes: "manifest_lanes m = list_of lanes" using found(1) by (simp add: manifest_lanes_def obj_get_def)
  show ?thesis
  proof (cases found)
    case True
    from lane_recorded_True [of ?lane "list_of lanes"] found(2) True
    obtain current where current: "current \<in> set (list_of lanes)" "py_eq current (JObj ?lane)" by auto
    have "valid_lane current" using valid_manifestD(7) [OF valid] current(1) lanes by (simp add: manifest_lanes_def)
    from same_lane [OF this current(2)] have "lane_recorded_as (Some m) n j"
      using current(1) lanes by (auto simp: lane_recorded_as_def lanes_of_def)
    moreover have "lanes_of disk = lanes_of (Some m)" using out found(3) True
      by (auto simp: lanes_of_def manifest_lanes_def)
    ultimately show ?thesis by (simp add: lane_recorded_as_def)
  next
    case False
    have "dumps_sorted (JObj m1) \<noteq> dumps_sorted (JObj m)"
    proof
      assume eq: "dumps_sorted (JObj m1) = dumps_sorted (JObj m)"
      obtain xs where "lanes = JArr xs" using valid_manifestD(4) [OF valid] found(1) by (cases lanes) (auto simp: obj_get_def)
      moreover from dumps_sorted_get [OF eq, of "''lanes''"]
      have "dumps_sorted (JArr (list_of lanes @ [JObj ?lane])) = dumps_sorted lanes"
        using found(1,3) False by (simp del: dumps_sorted.simps) (simp add: obj_get_def)
      ultimately show False by (auto dest: arg_cong [of _ _ length])
    qed
    with out have "disk = Some v" "manifest_lanes v = list_of lanes @ [JObj ?lane]"
      using found(3) False by (auto simp: manifest_lanes_def)
    then show ?thesis by (simp add: lane_recorded_as_def lanes_of_def lane_job_id_def lane_number_def lane_record_def obj_get_def)
  qed
qed

lemma append_lane_fenced:
  assumes "fenced disk"
  shows "\<exists>e. fst (mutate_manifest [(''operation'', JStr ''append-lane''), (''lane'', lane)] run_id expected now now' disk) = Inl e"
proof (rule ccontr)
  assume "\<not> ?thesis"
  then obtain v disk' where call: "mutate_manifest [(''operation'', JStr ''append-lane''), (''lane'', lane)] run_id expected now now' disk = (Inr v, disk')"
    by (metis obj_sumE prod.collapse)
  from assms obtain m s where m: "disk = Some m" "run_state_of m = Inr s" "STOPPING \<le> s" by (auto simp: fenced_def)
  from mutate_manifest_Inr [OF call [unfolded m(1)]] obtain m1 where
    "apply_manifest_mutation m [(''operation'', JStr ''append-lane''), (''lane'', lane)] now = Inr m1" by metis
  then have "append_lane m [(''operation'', JStr ''append-lane''), (''lane'', lane)] now = Inr m1"
    by (simp add: apply_manifest_mutation_def MANIFEST_MUTATORS_def obj_get_def)
  with m terminal_iff_after_stopping [of s] show False by (auto simp: append_lane_def split: if_splits)
qed


section \<open>What a client can rely on\<close>

text \<open>Every command is in the history; between and during commands other clients may mutate the manifest
  file; a state command that reports success has applied its mutation to the file.\<close>

locale login_node =
  fixes run :: "'s remote" and disk :: "'s \<Rightarrow> json_object option"
    and log :: "'s \<Rightarrow> (remote_command \<times> (call_error + remote_result)) list"
  assumes logged: "run cmd s = (r, s') \<Longrightarrow> log s' = log s @ [(cmd, r)]"
    and others: "run cmd s = (r, s') \<Longrightarrow> \<exists>calls. disk s' = fold run_mutation calls (disk s)"
    and applied: "run (StateModule mutation run_id expected) s = (Inr result, s') \<Longrightarrow> rr_ok result \<Longrightarrow>
      \<exists>calls now now' v. mutate_manifest mutation run_id expected now now' (fold run_mutation calls (disk s)) = (Inr v, disk s') \<and>
        rr_json result = Some (JObj v)"
begin

definition later :: "'s \<Rightarrow> 's \<Rightarrow> bool" where
  "later s s' \<longleftrightarrow> (\<exists>calls. disk s' = fold run_mutation calls (disk s)) \<and> prefix (log s) (log s')"

lemma later_refl: "later s s"
  using exI [of "\<lambda>calls. disk s = fold run_mutation calls (disk s)" "[]"] by (simp add: later_def)

lemma later_trans: "later s1 s2 \<Longrightarrow> later s2 s3 \<Longrightarrow> later s1 s3"
proof -
  assume "later s1 s2" "later s2 s3"
  then obtain calls calls' where "disk s2 = fold run_mutation calls (disk s1)" "disk s3 = fold run_mutation calls' (disk s2)"
    "prefix (log s1) (log s2)" "prefix (log s2) (log s3)" by (auto simp: later_def)
  then have "disk s3 = fold run_mutation (calls @ calls') (disk s1)" "prefix (log s1) (log s3)" by auto
  then show ?thesis unfolding later_def by blast
qed

lemma later_fenced: "later s s' \<Longrightarrow> fenced (disk s) \<Longrightarrow> fenced (disk s') \<and> lanes_of (disk s') = lanes_of (disk s)"
  using fenced_calls by (auto simp: later_def)

text \<open>What has become of a job: a lane is recorded for it, or its \<^verbatim>\<open>scancel\<close> has been sent.\<close>

definition accounted :: "'s \<Rightarrow> string \<Rightarrow> bool" where
  "accounted s j \<longleftrightarrow> lane_recorded_for (disk s) j \<or> (\<exists>x. (Scancel j, x) \<in> set (log s))"

lemma accounted_later: "later s s' \<Longrightarrow> accounted s j \<Longrightarrow> accounted s' j"
  using lane_recorded_calls by (fastforce simp: later_def accounted_def dest: set_mono_prefix)

lemma mutate_applied:
  assumes "mutate_remote_manifest run mutation run_id expected s = (Inr v, s')"
  obtains calls now now' where
    "mutate_manifest mutation run_id expected now now' (fold run_mutation calls (disk s)) = (Inr v, disk s')"
proof -
  from assms obtain result s1 where call: "run (StateModule mutation run_id expected) s = (Inr result, s1)"
    and rest: "(if \<not> rr_ok result then
       if rr_exited result = MANIFEST_REVISION_CONFLICT_EXIT_CODE then sraise RemoteManifestRevisionConflictError
       else sraise SlurmRayOperationError
     else slift (rbind (decode_remote_json result) validated_manifest)) s1 = (Inr v, s')"
    by (auto simp: mutate_remote_manifest_def result_simps)
  from rest have ok: "rr_ok result" and s': "s' = s1"
    and v: "rbind (decode_remote_json result) validated_manifest = Inr v"
    by (auto simp: slift_def sraise_def split: if_splits)
  from applied [OF call ok] obtain calls now now' v' where
    v': "mutate_manifest mutation run_id expected now now' (fold run_mutation calls (disk s)) = (Inr v', disk s1)"
    "rr_json result = Some (JObj v')" by blast
  from v v'(2) have "v = v'"
    by (auto simp: decode_remote_json_def validated_manifest_def dest: valid_manifestD(1) split: sum.splits)
  with v'(1) s' that show ?thesis by blast
qed

end

sublocale login_node \<subseteq> history: remote_relation run later
proof
  show "reflp later" by (simp add: reflp_def later_refl)
  show "transp later" using later_trans by (auto simp: transp_def)
  show "later s s'" if "run cmd s = (r, s')" for cmd s r s'
    using logged [OF that] others [OF that] by (simp add: later_def)
qed

context login_node
begin

lemma later_run: "spreserves later m \<Longrightarrow> m s = (r, s') \<Longrightarrow> later s s'"
  by (metis snd_conv spreserves_def)

lemma later_tracked: "spreserves (on_world later) m \<Longrightarrow> m (s, p) = (r, (s', p')) \<Longrightarrow> later s s'"
  by (metis fst_conv on_world_def snd_conv spreserves_def)

lemma cancel_one_logged:
  assumes "cancel_jobs run [j] s = (r, s')"
  shows "\<exists>x. (Scancel j, x) \<in> set (log s')"
proof -
  obtain x s1 where call: "run (Scancel j) s = (x, s1)" by (cases "run (Scancel j) s")
  from assms have "s' = s1"
    by (auto simp: sbind_def run_remote_def call sreturn_def split: sum.splits call_error.splits)
  with logged [OF call] show ?thesis by auto
qed

lemma run_mutate_recorded:
  assumes "run_mutate run manifest [(''operation'', JStr ''append-lane''), (''lane'', JObj (lane_record n j t))] s = (Inr v, s')"
  shows "lane_recorded_as (disk s') n j"
proof -
  from mutate_applied [OF assms [unfolded run_mutate_def]] obtain calls now now' where
    call: "mutate_manifest [(''operation'', JStr ''append-lane''), (''lane'', JObj (lane_record n j t))]
      (string_of (obj_get manifest ''run_id'')) None now now' (fold run_mutation calls (disk s)) = (Inr v, disk s')" .
  then obtain m where "fold run_mutation calls (disk s) = Some m"
    by (cases "fold run_mutation calls (disk s)") (auto simp: mutate_manifest_def)
  with append_lane_recorded call show ?thesis by metis
qed

lemma run_mutate_fenced:
  assumes "fenced (disk s)"
  shows "\<exists>e s'. run_mutate run manifest [(''operation'', JStr ''append-lane''), (''lane'', lane)] s = (Inl e, s')"
proof (rule ccontr)
  assume "\<not> ?thesis"
  then obtain v s' where "run_mutate run manifest [(''operation'', JStr ''append-lane''), (''lane'', lane)] s = (Inr v, s')"
    by (metis obj_sumE prod.collapse)
  from mutate_applied [OF this [unfolded run_mutate_def]] obtain calls now now' where
    "mutate_manifest [(''operation'', JStr ''append-lane''), (''lane'', lane)]
      (string_of (obj_get manifest ''run_id'')) None now now' (fold run_mutation calls (disk s)) = (Inr v, disk s')" .
  with append_lane_fenced fenced_calls [OF assms] show False by (metis Inl_Inr_False fst_conv)
qed

text \<open>One new lane: either it is recorded, or its job has been sent a \<^verbatim>\<open>scancel\<close>; behind a fence it is the
  latter.\<close>

lemma add_lane_cases:
  assumes "add_lane run now directory manifest head n (s, p) = (r, (s', p'))"
  obtains
    (not_submitted) "pr_submitted p' = pr_submitted p" "later s s'" "\<exists>e. r = Inl e"
  | (recorded) j where "pr_submitted p' = pr_submitted p @ [j]" "r = Inr ()" "lane_recorded_for (disk s') j"
      "later s s'" "\<not> fenced (disk s)"
  | (canceled) j where "pr_submitted p' = pr_submitted p @ [j]" "later s s'" "\<exists>x. (Scancel j, x) \<in> set (log s')" "\<exists>e. r = Inl e"
  | (interrupted) j where "pr_submitted p' = pr_submitted p @ [j]" "later s s'" "r = Inl KeyboardInterrupt"
proof -
  have later: "later s s'" by (rule later_tracked [OF history.add_lane_keeps assms])
  let ?submit = "submit_lane run now (string_of (obj_get manifest ''job_name'')) (string_of (obj_get manifest ''run_id''))
              head n (int_of_json (obj_get manifest ''lane_allocations'')) directory"
  obtain x s1 where x: "?submit s = (x, s1)" by (cases "?submit s")
  show ?thesis
  proof (cases x)
    case (Inl e)
    with assms x have "r = Inl e" "p' = p" by (auto simp: add_lane_def tracked_def sbind_def)
    with later not_submitted show ?thesis by blast
  next
    case (Inr jr)
    from x Inr obtain j t where jr: "jr = (j, lane_record n j t)"
      by (auto simp: submit_lane_def result_simps)
    let ?p1 = "p\<lparr>pr_submitted := pr_submitted p @ [j]\<rparr>"
    let ?append = "run_mutate run manifest [(''operation'', JStr ''append-lane''), (''lane'', JObj (lane_record n j t))]"
    obtain y s2 where y: "?append s1 = (y, s2)" by (cases "?append s1")
    have later1: "later s s1" by (rule later_run [OF history.submit_lane_keeps x])
    have body: "(r, (s', p')) =
       on_exception (sbind (tracked ?append) (\<lambda>_. sreturn ()))
         (\<lambda>e. sbind (tracked (cancel_jobs run [j])) (\<lambda>canceled.
            sbind (if canceled = [j] then note_canceled j else sreturn ()) (\<lambda>_. sraise e))) (s1, ?p1)"
      using assms x Inr jr by (simp add: add_lane_def tracked_def sbind_def note_submitted_def del: cancel_jobs.simps)
    show ?thesis
    proof (cases y)
      case (Inr v)
      with body y have "r = Inr ()" "s' = s2" "p' = ?p1"
        by (simp_all add: on_exception_def scatch_def sbind_def tracked_def sreturn_def del: cancel_jobs.simps)
      moreover from lane_recorded_as_for [OF run_mutate_recorded [OF y [unfolded Inr]]] have "lane_recorded_for (disk s2) j" .
      moreover have "\<not> fenced (disk s)"
      proof
        assume "fenced (disk s)"
        with later_fenced [OF later1] have "fenced (disk s1)" by blast
        from run_mutate_fenced [OF this, of manifest "JObj (lane_record n j t)"] y Inr show False by auto
      qed
      ultimately show ?thesis using recorded [of j] later by simp
    next
      case (Inl e)
      show ?thesis
      proof (cases "e = KeyboardInterrupt")
        case True
        with body y Inl have "r = Inl KeyboardInterrupt" "p' = ?p1"
          by (simp_all add: on_exception_def scatch_def sbind_def tracked_def sraise_def del: cancel_jobs.simps)
        with interrupted [of j] later show ?thesis by simp
      next
        case False
        obtain z s3 where z: "cancel_jobs run [j] s2 = (z, s3)" by (cases "cancel_jobs run [j] s2")
        from body y Inl False z have "s' = s3" "pr_submitted p' = pr_submitted p @ [j]" "\<exists>e. r = Inl e"
          by (auto simp: on_exception_def scatch_def sbind_def tracked_def sraise_def sreturn_def note_canceled_def
              simp del: cancel_jobs.simps split: sum.splits if_splits)
        with canceled [of j] later cancel_one_logged [OF z] show ?thesis by simp
      qed
    qed
  qed
qed

lemma add_lanes_accounted:
  assumes "add_lanes run now directory manifest head ns (s, p) = (r, (s', p'))" "r \<noteq> Inl KeyboardInterrupt"
    and "\<forall>j \<in> set (pr_submitted p). accounted s j"
  shows "\<forall>j \<in> set (pr_submitted p'). accounted s' j"
  using assms
proof (induction ns arbitrary: s p)
  case Nil
  then show ?case by (simp add: sreturn_def)
next
  case (Cons n ns)
  obtain x s1 p1 where x: "add_lane run now directory manifest head n (s, p) = (x, (s1, p1))"
    by (cases "add_lane run now directory manifest head n (s, p)") auto
  have r: "(case x of Inl e \<Rightarrow> (Inl e, (s1, p1)) | Inr _ \<Rightarrow> add_lanes run now directory manifest head ns (s1, p1)) = (r, (s', p'))"
    using Cons.prems(1) by (simp add: sbind_def x split: sum.splits)
  with Cons.prems(2) have x': "x \<noteq> Inl KeyboardInterrupt" by auto
  from x have "\<forall>j \<in> set (pr_submitted p1). accounted s1 j"
    using Cons.prems(3) x' by (cases rule: add_lane_cases) (auto dest: accounted_later simp: accounted_def [of s1])
  with Cons.IH r Cons.prems(2) show ?case by (cases x) auto
qed

text \<open>Behind a fence no lane is recorded, and every job that was submitted all the same is sent a
  \<^verbatim>\<open>scancel\<close>, unless the user interrupts the command.\<close>

lemma add_lanes_fenced:
  assumes "add_lanes run now directory manifest head ns (s, p) = (r, (s', p'))" "r \<noteq> Inl KeyboardInterrupt"
    and "fenced (disk s)" "\<forall>j \<in> set (pr_submitted p). \<exists>x. (Scancel j, x) \<in> set (log s)"
  shows "\<forall>j \<in> set (pr_submitted p'). \<exists>x. (Scancel j, x) \<in> set (log s')"
  using assms
proof (induction ns arbitrary: s p)
  case Nil
  then show ?case by (simp add: sreturn_def)
next
  case (Cons n ns)
  obtain x s1 p1 where x: "add_lane run now directory manifest head n (s, p) = (x, (s1, p1))"
    by (cases "add_lane run now directory manifest head n (s, p)") auto
  have r: "(case x of Inl e \<Rightarrow> (Inl e, (s1, p1)) | Inr _ \<Rightarrow> add_lanes run now directory manifest head ns (s1, p1)) = (r, (s', p'))"
    using Cons.prems(1) by (simp add: sbind_def x split: sum.splits)
  with Cons.prems(2) have x': "x \<noteq> Inl KeyboardInterrupt" by auto
  from x have x1: "(\<exists>e. x = Inl e) \<and> later s s1 \<and> (\<forall>j \<in> set (pr_submitted p1). \<exists>x. (Scancel j, x) \<in> set (log s1))"
    using Cons.prems(3,4) x'
    by (cases rule: add_lane_cases) (auto simp: later_def dest!: set_mono_prefix)
  with r show ?case by auto
qed

end


section \<open>Stopping and scaling\<close>

text \<open>A stop request that returns leaves the run fenced, whatever its state was.\<close>

lemma request_stop_fences:
  assumes "mutate_manifest [(''operation'', JStr ''request-stop'')] run_id expected now now' d = (Inr v, disk)"
  shows "fenced disk"
proof -
  obtain m where m: "d = Some m" using assms by (cases d) (auto simp: mutate_manifest_def)
  from mutate_manifest_Inr [OF assms [unfolded m]] have valid: "validate_manifest m = Inr m" by metis
  then obtain s where s: "run_state_of m = Inr s" using valid_manifestD(2) by blast
  show ?thesis
  proof (cases "s \<le> STOPPING")
    case True
    from request_stop_file [OF s True assms [unfolded m]] obtain m0 where m0: "disk = Some m0"
      "validate_manifest m0 = Inr m0" "stopping_for_good (view_of m0)" by blast
    moreover obtain s0 where "run_state_of m0 = Inr s0" using valid_manifestD(2) [OF m0(2)] by blast
    ultimately show ?thesis by (auto simp: fenced_def stopping_for_good_def view_of_simps run_state_order)
  next
    case False
    then have past: "STOPPING < rv_state (view_of m)" using s by (simp add: view_of_simps)
    from mutate_manifest_step [OF assms [unfolded m]] obtain m' where m': "disk = Some m'" "run_step (view_of m) (view_of m')"
      by blast
    from run_step_terminal [OF m'(2) past] past have "STOPPING \<le> rv_state (view_of m')" by simp
    moreover have "\<exists>s'. run_state_of m' = Inr s'"
      using mutate_manifest_cases [OF assms [unfolded m]] m'(1) s valid_manifestD(2) [of m' m'] by auto
    ultimately show ?thesis using m'(1) by (auto simp: fenced_def view_of_simps)
  qed
qed

text \<open>The jobs whose \<^verbatim>\<open>scancel\<close> a list of answered commands shows accepted, in order.\<close>

fun accepted_cancels :: "(remote_command \<times> (call_error + remote_result)) list \<Rightarrow> string list" where
  "accepted_cancels [] = []"
| "accepted_cancels ((cmd, answer) # rest) =
     (case (cmd, answer) of
        (Scancel j, Inr result) \<Rightarrow> if rr_ok result then j # accepted_cancels rest else accepted_cancels rest
      | _ \<Rightarrow> accepted_cancels rest)"

lemma accepted_cancels_append: "accepted_cancels (xs @ ys) = accepted_cancels xs @ accepted_cancels ys"
  by (induction xs rule: accepted_cancels.induct) (auto split: remote_command.split sum.split)

text \<open>What the commands \<open>sent\<close> by \<^verbatim>\<open>_cancel_lanes_then_head\<close> show: they are the cancellations of the lanes and then
  of the head, up to where it stopped; all were accepted when it returns; an error lists those that were; and
  the head's turn comes only once every lane's has been accepted.\<close>

definition cancel_report ::
  "string list \<Rightarrow> string list \<Rightarrow> run_state \<Rightarrow> op_error + unit \<Rightarrow> (remote_command \<times> (call_error + remote_result)) list \<Rightarrow> bool" where
  "cancel_report lanes head st r sent \<longleftrightarrow>
     (\<exists>n. map fst sent = map Scancel (take n (lanes @ head))) \<and>
     (r = Inr () \<longrightarrow> accepted_cancels sent = lanes @ head) \<and>
     (\<forall>res. r = Inl (PartialStopError res) \<longrightarrow>
        accepted_cancels sent = st_canceled_lanes res @ st_canceled_head res \<and> st_state res = st) \<and>
     (length lanes < length sent \<longrightarrow> accepted_cancels (take (length lanes) sent) = lanes)"

lemma cancel_jobs_error: "cancel_jobs run js s = (Inl e, s') \<Longrightarrow> e \<noteq> PartialStopError res"
proof -
  have "raises (\<lambda>e. e \<noteq> PartialStopError res) (cancel_jobs run js)"
  proof (induction js)
    case (Cons j js)
    have "raises (\<lambda>e. e \<noteq> PartialStopError res) (run_remote run (Scancel j))"
      by (auto simp: raises_def run_remote_def split: prod.splits sum.splits call_error.splits)
    with Cons show ?case unfolding cancel_jobs.simps by (intro raises_sbind) (simp_all add: raises_simple)
  qed (simp add: raises_simple)
  then show "cancel_jobs run js s = (Inl e, s') \<Longrightarrow> e \<noteq> PartialStopError res" by (auto simp: raises_def)
qed

context login_node
begin

lemma run_remote_logged:
  "run_remote run cmd s = (r, s') \<Longrightarrow> \<exists>answer. log s' = log s @ [(cmd, answer)] \<and>
     (\<forall>result. r = Inr result \<longrightarrow> answer = Inr result)"
  using logged [of cmd s] by (cases "run cmd s") (auto simp: run_remote_def split: sum.splits call_error.splits)

lemma cancel_jobs_log:
  assumes "cancel_jobs run js s = (r, s')"
  shows "\<exists>sent. log s' = log s @ sent \<and> (\<exists>n. map fst sent = map Scancel (take n js)) \<and>
    (\<forall>canceled. r = Inr canceled \<longrightarrow> accepted_cancels sent = canceled \<and> map fst sent = map Scancel js)"
  using assms
proof (induction js arbitrary: s r s')
  case Nil
  then show ?case by (auto simp: sreturn_def)
next
  case (Cons j js)
  obtain x s1 where x: "run_remote run (Scancel j) s = (x, s1)" by fastforce
  from run_remote_logged [OF x] obtain answer where a: "log s1 = log s @ [(Scancel j, answer)]"
    "\<forall>result. x = Inr result \<longrightarrow> answer = Inr result" by blast
  show ?case
  proof (cases x)
    case (Inl e)
    with Cons.prems x a(1) have "r = Inl e" "log s' = log s @ [(Scancel j, answer)]" by (simp_all add: sbind_def)
    then show ?thesis by (auto intro!: exI [of _ 1])
  next
    case (Inr result)
    obtain y s2 where y: "cancel_jobs run js s1 = (y, s2)" by fastforce
    from Cons.IH [OF y] obtain sent n where sent: "log s2 = log s1 @ sent" "map fst sent = map Scancel (take n js)"
      "\<forall>canceled. y = Inr canceled \<longrightarrow> accepted_cancels sent = canceled \<and> map fst sent = map Scancel js" by blast
    have r: "s' = s2 \<and> r = (case y of Inl e \<Rightarrow> Inl e | Inr canceled \<Rightarrow> Inr (if rr_ok result then j # canceled else canceled))"
      using Cons.prems x y Inr by (auto simp: sbind_def sreturn_def split: sum.splits)
    let ?sent = "(Scancel j, answer) # sent"
    have "log s' = log s @ ?sent" "map fst ?sent = map Scancel (take (Suc n) (j # js))"
      using a(1) sent(1,2) r by simp_all
    moreover have "accepted_cancels ?sent = canceled \<and> map fst ?sent = map Scancel (j # js)" if "r = Inr canceled" for canceled
      using that r sent(3) a(2) Inr by (auto split: sum.splits)
    ultimately show ?thesis by blast
  qed
qed

lemma cancel_lanes_then_head_log:
  assumes "cancel_lanes_then_head run lanes head st s = (r, s')"
  shows "\<exists>sent. log s' = log s @ sent \<and> cancel_report lanes head st r sent"
proof -
  obtain x s1 where x: "cancel_jobs run lanes s = (x, s1)" by fastforce
  from cancel_jobs_log [OF x] obtain A n where A: "log s1 = log s @ A" "map fst A = map Scancel (take n lanes)"
    "\<forall>canceled. x = Inr canceled \<longrightarrow> accepted_cancels A = canceled \<and> map fst A = map Scancel lanes" by blast
  have lenA: "length A = min (length lanes) n" using arg_cong [OF A(2), of length] by simp
  have "take n lanes = take (min (length lanes) n) (lanes @ head)" by (simp add: min_def)
  then have partial: "cancel_report lanes head st (Inl e) A"
    if "\<And>res. e = PartialStopError res \<Longrightarrow> accepted_cancels A = st_canceled_lanes res @ st_canceled_head res \<and> st_state res = st" for e
    using that A(2) lenA unfolding cancel_report_def by (metis Inl_Inr_False Inl_inject linorder_not_less min.cobounded1)
  show ?thesis
  proof (cases x)
    case (Inl e)
    with assms x have "s' = s1" "r = Inl e" by (simp_all add: cancel_lanes_then_head_def sbind_def)
    moreover have "cancel_report lanes head st (Inl e) A"
      by (rule partial) (use cancel_jobs_error [OF x [unfolded Inl]] in simp)
    ultimately show ?thesis using A(1) by blast
  next
    case (Inr canceled)
    with A(3) have acc: "accepted_cancels A = canceled" "map fst A = map Scancel lanes" by auto
    show ?thesis
    proof (cases "canceled = lanes")
      case False
      with assms x Inr have "s' = s1" "r = Inl (PartialStopError \<lparr>st_state = st, st_canceled_lanes = canceled, st_canceled_head = []\<rparr>)"
        by (simp_all add: cancel_lanes_then_head_def sbind_def sraise_def)
      moreover have "cancel_report lanes head st (Inl (PartialStopError \<lparr>st_state = st, st_canceled_lanes = canceled, st_canceled_head = []\<rparr>)) A"
        by (rule partial) (auto simp: acc)
      ultimately show ?thesis using A(1) by blast
    next
      case True
      obtain y s2 where y: "cancel_jobs run head s1 = (y, s2)" by fastforce
      from cancel_jobs_log [OF y] obtain B k where B: "log s2 = log s1 @ B" "map fst B = map Scancel (take k head)"
        "\<forall>canceled. y = Inr canceled \<longrightarrow> accepted_cancels B = canceled \<and> map fst B = map Scancel head" by blast
      have len: "length A = length lanes" using arg_cong [OF acc(2), of length] by simp
      have r: "s' = s2 \<and> r = (case y of Inl e \<Rightarrow> Inl e | Inr canceled_head \<Rightarrow>
          if canceled_head \<noteq> head then Inl (PartialStopError \<lparr>st_state = st, st_canceled_lanes = lanes, st_canceled_head = canceled_head\<rparr>)
          else Inr ())"
        using assms x y Inr True
        by (auto simp: cancel_lanes_then_head_def sbind_def sraise_def sreturn_def split: sum.splits)
      have noerr: "e \<noteq> PartialStopError res" if "y = Inl e" for e res
        using cancel_jobs_error [OF y [unfolded that]] .
      have "log s' = log s @ A @ B" using A(1) B(1) r by simp
      moreover have "map fst (A @ B) = map Scancel (take (length lanes + k) (lanes @ head))" using acc(2) B(2) by simp
      moreover have "accepted_cancels (A @ B) = lanes @ head" if "r = Inr ()"
        using that r B(3) acc(1) True by (auto simp: accepted_cancels_append split: sum.splits if_splits)
      moreover have "accepted_cancels (A @ B) = st_canceled_lanes res @ st_canceled_head res \<and> st_state res = st"
        if "r = Inl (PartialStopError res)" for res
        using that r noerr B(3) acc(1) True by (auto simp: accepted_cancels_append split: sum.splits if_splits)
      moreover have "accepted_cancels (take (length lanes) (A @ B)) = lanes" using acc(1) True len by simp
      ultimately show ?thesis unfolding cancel_report_def by blast
    qed
  qed
qed

end


text \<open>A login node whose \<^verbatim>\<open>cat\<close> of the manifest shows the file.\<close>

locale run_directory = login_node +
  fixes directory :: string
  assumes shown: "run (CatFile (manifest_path directory)) s = (Inr result, s') \<Longrightarrow> rr_ok result \<Longrightarrow>
    rr_json result = Some (JObj m) \<Longrightarrow> disk s' = Some m"
begin

lemma open_remote_run_reads:
  assumes "open_remote_run run directory run_id s = (Inr m, s')"
  obtains s1 where "disk s1 = Some m" "validate_manifest m = Inr m" "obj_get m ''run_id'' = JStr run_id" "later s1 s'"
proof -
  from assms obtain s1 where m: "read_run_manifest run directory run_id s = (Inr m, s1)"
    and verify: "verify_manifest_cluster run m s1 = (Inr (), s')"
    by (auto simp: open_remote_run_def result_simps split: if_splits)
  from m obtain result where call: "run (CatFile (manifest_path directory)) s = (Inr result, s1)" "rr_ok result"
    "rbind (decode_remote_json result) validated_manifest = Inr m" "obj_get m ''run_id'' = JStr run_id"
    by (auto simp: read_run_manifest_def read_remote_manifest_def sbind_Pair_Inr run_remote_Inr slift_def sraise_def sreturn_def
        split: if_splits)
  from call(3) have json: "rr_json result = Some (JObj m)" "validate_manifest m = Inr m"
    by (auto simp: rbind_eq_Inr decode_remote_json_def validated_manifest_def
        split: option.splits json.splits sum.splits dest: valid_manifestD(1))
  have "spreserves later (verify_manifest_cluster run m)"
    unfolding verify_manifest_cluster_def slurm_cluster_name_def
    by (intro history.pbind history.run_remote_keeps) (auto intro!: history.psimple split: list.split)
  from later_run [OF this verify] that shown [OF call(1,2) json(1)] json(2) call(4) show ?thesis by blast
qed

text \<open>However a stop ends that does not raise, the run is fenced.\<close>

lemma stop_run_fences:
  assumes s0: "disk s0 = Some m" "later s0 s" and stop: "stop_run run m s = (Inr res, s')"
  shows "fenced (disk s')"
proof -
  from stop obtain original states lanes head s1 where
    original: "manifest_state m = Inr original"
    and query: "query_job_states run (map lane_job_id (manifest_lanes m) @ head_job_ids m) s = (Inr states, s1)"
    and rest: "stop_jobs run m original lanes head s1 = (Inr res, s')"
    by (auto simp: stop_run_def Let_def sbind_Pair_Inr slift_Pair sraise_Pair split: if_splits) metis
  have cancel: "spreserves later (cancel_lanes_then_head run lanes head st)" for st
    unfolding cancel_lanes_then_head_def
    by (auto intro!: history.pbind history.cancel_jobs_keeps history.psimple)
  have later1: "later s0 s1"
    using later_trans [OF s0(2) later_run [OF history.query_job_states_keeps query]] .
  show ?thesis
  proof (cases "original \<in> set TERMINAL_RUN_STATES")
    case True
    have "fenced (disk s0)" using original True s0(1) terminal_iff_after_stopping [of original]
      by (auto simp: fenced_def manifest_state_def split: sum.splits)
    moreover from rest True obtain u where "cancel_lanes_then_head run lanes head original s1 = (Inr u, s')"
      by (auto simp: stop_jobs_def sbind_Pair_Inr sreturn_Pair)
    from later_trans [OF later1 later_run [OF cancel this]] have "later s0 s'" .
    ultimately show ?thesis using later_fenced by blast
  next
    case False
    with rest obtain v s2 where request: "run_mutate run m [(''operation'', JStr ''request-stop'')] s1 = (Inr v, s2)"
      and after: "sbind (cancel_lanes_then_head run lanes head STOPPING) (\<lambda>_.
         sbind (if lanes \<noteq> [] \<or> head \<noteq> [] then sreturn STOPPING
                else sbind (run_mutate run m [(''operation'', JStr ''finalize'')]) (\<lambda>m.
                     slift (manifest_state m))) (\<lambda>state.
         sreturn \<lparr>st_state = state, st_canceled_lanes = lanes, st_canceled_head = head\<rparr>)) s2 = (Inr res, s')"
      by (auto simp: stop_jobs_def sbind_Pair_Inr)
    from mutate_applied [OF request [unfolded run_mutate_def]] request_stop_fences
    have "fenced (disk s2)" by metis
    moreover have "spreserves later (sbind (cancel_lanes_then_head run lanes head STOPPING) (\<lambda>_.
         sbind (if lanes \<noteq> [] \<or> head \<noteq> [] then sreturn STOPPING
                else sbind (run_mutate run m [(''operation'', JStr ''finalize'')]) (\<lambda>m.
                     slift (manifest_state m))) (\<lambda>state.
         sreturn \<lparr>st_state = state, st_canceled_lanes = lanes, st_canceled_head = head\<rparr>)))"
      unfolding run_mutate_def
      by (intro history.pbind cancel) (auto intro!: history.pbind history.mutate_remote_manifest_keeps history.psimple)
    from later_run [OF this after] have "later s2 s'" .
    ultimately show ?thesis using later_fenced by blast
  qed
qed

lemma stop_fences:
  assumes "stop_slurm_ray_run run directory run_id s = (Inr res, s')"
  shows "fenced (disk s')"
proof -
  from assms obtain m s1 where m: "open_remote_run run directory run_id s = (Inr m, s1)" "stop_run run m s1 = (Inr res, s')"
    by (auto simp: stop_slurm_ray_run_def sbind_Pair_Inr)
  from open_remote_run_reads [OF m(1)] obtain s0 where "disk s0 = Some m" "later s0 s1" by metis
  from stop_run_fences [OF this m(2)] show ?thesis .
qed

lemma cancel_lanes_submitted:
  "cancel_lanes run lanes (s, p) = (r, (s', p')) \<Longrightarrow> pr_submitted p' = pr_submitted p"
proof (induction lanes arbitrary: s p)
  case (Cons lane lanes)
  obtain x s1 p1 where x: "cancel_lane run lane (s, p) = (x, (s1, p1))"
    by (cases "cancel_lane run lane (s, p)") auto
  then have "pr_submitted p1 = pr_submitted p"
    by (auto simp: cancel_lane_def Let_def sbind_def tracked_def note_canceled_def sraise_def
        simp del: cancel_jobs.simps split: prod.splits sum.splits if_splits)
  moreover have "(case x of Inl e \<Rightarrow> (Inl e, (s1, p1)) | Inr _ \<Rightarrow> cancel_lanes run lanes (s1, p1)) = (r, (s', p'))"
    using Cons.prems by (simp add: sbind_def x split: sum.splits)
  ultimately show ?case using Cons.IH by (cases x) auto
qed (simp add: sreturn_def)

text \<open>The operations before the reconciliation do not raise a partial error.\<close>

lemma before_reconcile_error:
  "raises (\<lambda>e. e \<noteq> PartialScaleError res) (open_remote_run run directory run_id)"
  "raises (\<lambda>e. e \<noteq> PartialScaleError res) (verified_scale_job_states run m head)"
proof -
  have remote: "raises (\<lambda>e. e \<noteq> PartialScaleError res) (run_remote run cmd)" for cmd
    by (auto simp: raises_def run_remote_def split: prod.splits sum.splits call_error.splits)
  show "raises (\<lambda>e. e \<noteq> PartialScaleError res) (open_remote_run run directory run_id)"
    unfolding open_remote_run_def read_run_manifest_def read_remote_manifest_def verify_manifest_cluster_def slurm_cluster_name_def
    by (auto intro!: raises_sbind remote simp: raises_simple rbind_eq_Inl decode_remote_json_def validated_manifest_def
        split: list.splits option.splits json.splits sum.splits)
  show "raises (\<lambda>e. e \<noteq> PartialScaleError res) (verified_scale_job_states run m head)"
    unfolding verified_scale_job_states_def query_job_states_def accounting_job_states_def queued_job_states_def
    by (auto intro!: raises_sbind remote simp: raises_simple manifest_state_def state_at_def
        split: option.splits sum.splits)
qed

lemma reconcile_accounted:
  assumes "reconcile_lanes run now directory m head active n (s, no_progress) = (r, (s', p))" "r \<noteq> Inl KeyboardInterrupt"
  shows "\<forall>j \<in> set (pr_submitted p). accounted s' j"
proof -
  consider "int (length active) < n" | "n < int (length active)" | "n = int (length active)" by linarith
  then show ?thesis
  proof cases
    case 1
    then obtain ns where "add_lanes run now directory m head ns (s, no_progress) = (r, (s', p))"
      using assms(1) by (simp add: reconcile_lanes_def Let_def)
    from add_lanes_accounted [OF this assms(2)] show ?thesis by (simp add: no_progress_def)
  next
    case 2
    then have "cancel_lanes run (surplus_lanes active n) (s, no_progress) = (r, (s', p))"
      using assms(1) by (simp add: reconcile_lanes_def Let_def)
    from cancel_lanes_submitted [OF this] show ?thesis by (simp add: no_progress_def)
  next
    case 3
    then show ?thesis using assms(1) by (auto simp: reconcile_lanes_def Let_def sreturn_def no_progress_def)
  qed
qed

lemma reconcile_error:
  assumes "reconcile_lanes run now directory m head active n sp = (Inl e, sp')"
  shows "e \<noteq> PartialScaleError res"
proof -
  let ?E = "\<lambda>e. e \<noteq> PartialScaleError res"
  have remote: "raises ?E (run_remote run cmd)" for cmd
    by (auto simp: raises_def run_remote_def split: prod.splits sum.splits call_error.splits)
  have cancel: "raises ?E (cancel_jobs run js)" for js
    by (induction js) (auto intro!: raises_sbind remote simp: raises_simple)
  have lift: "raises ?E m \<Longrightarrow> raises ?E (tracked m)" for m :: "('a, 'b) client"
    by (auto simp: raises_def tracked_def split: prod.splits)
  have noted: "raises ?E (note_submitted j)" "raises ?E (note_canceled j)" for j
    by (auto simp: raises_def note_submitted_def note_canceled_def)
  have pure: "raises ?E (\<lambda>s. (Inr (f s), s))" for f :: "'a \<Rightarrow> 'b" by (simp add: raises_def)
  have submit: "raises ?E (submit_lane run now base rid h i a d)" for base rid h i a d
    unfolding submit_lane_def submit_script_def on_exception_def find_job_by_exact_name_def run_checked_def Let_def
      parse_sbatch_job_id_def
    by (auto intro!: raises_sbind remote raises_scatch [of ?E] pure simp: raises_simple
        split: list.splits option.splits)
  have mutate: "raises ?E (run_mutate run m mu)" for mu
    unfolding run_mutate_def mutate_remote_manifest_def
    by (auto intro!: raises_sbind remote simp: raises_simple rbind_eq_Inl decode_remote_json_def validated_manifest_def
        split: option.splits json.splits sum.splits)
  have add: "raises ?E (add_lanes run now directory m head ns)" for ns
  proof (induction ns)
    case (Cons i ns)
    have "raises ?E (add_lane run now directory m head i)"
      unfolding add_lane_def on_exception_def
      by (auto simp del: cancel_jobs.simps intro!: raises_sbind lift submit mutate cancel noted raises_scatch [of ?E]
          simp: raises_simple split: prod.splits)
    with Cons.IH show ?case by (auto intro: raises_sbind)
  qed (simp add: raises_simple)
  have surplus: "raises ?E (cancel_lanes run ls)" for ls
  proof (induction ls)
    case (Cons l ls)
    have "raises ?E (cancel_lane run l)"
      unfolding cancel_lane_def Let_def
      by (auto simp del: cancel_jobs.simps intro!: raises_sbind lift cancel noted simp: raises_simple)
    with Cons.IH show ?case by (auto intro: raises_sbind)
  qed (simp add: raises_simple)
  have "raises ?E (reconcile_lanes run now directory m head active n)"
    unfolding reconcile_lanes_def Let_def by (simp add: add surplus raises_simple)
  from this [unfolded raises_def] assms show ?thesis by metis
qed

lemma scale_accounted:
  assumes scale: "scale_slurm_ray_run run now directory run_id n s = (r, s')"
    and r: "r = Inr res \<or> r = Inl (PartialScaleError res)"
  shows "\<forall>j \<in> set (sc_submitted res). accounted s' j"
proof -
  have "n \<ge> 0" using scale r by (auto simp: scale_slurm_ray_run_def sraise_def split: if_splits)
  with scale have opened: "sbind (open_remote_run run directory run_id) (\<lambda>m. scale_lanes run now directory m n) s = (r, s')"
    by (simp add: scale_slurm_ray_run_def)
  obtain x s1 where x: "open_remote_run run directory run_id s = (x, s1)" by fastforce
  with opened r obtain m where m: "x = Inr m" "scale_lanes run now directory m n s1 = (r, s')"
    using before_reconcile_error(1) [of res run_id] by (cases x) (auto simp: sbind_def raises_def)
  from m(2) r obtain head where head: "required_head_job_id m = Inr head"
    by (auto simp: scale_lanes_def sbind_def slift_def required_head_job_id_def split: json.splits)
  obtain y s2 where y: "verified_scale_job_states run m head s1 = (y, s2)" by fastforce
  with m(2) head r obtain states where states: "y = Inr states"
    "sbind (slift (active_lanes states (manifest_lanes m))) (\<lambda>active.
       scale_reconcile run now directory m head active n) s2 = (r, s')"
    using before_reconcile_error(2) [of res m head] by (cases y) (auto simp: scale_lanes_def sbind_def slift_def raises_def)
  have "active_lanes st ls \<noteq> Inl (PartialScaleError res)" for st ls
    by (induction ls) (auto simp: rbind_eq_Inl state_at_def split: option.splits)
  with states(2) r obtain active where active: "scale_reconcile run now directory m head active n s2 = (r, s')"
    by (cases "active_lanes states (manifest_lanes m)") (auto simp: sbind_def slift_def)
  obtain z s3 p where z: "reconcile_lanes run now directory m head active n (s2, no_progress) = (z, (s3, p))"
    by (metis surj_pair)
  have "z \<noteq> Inl (PartialScaleError res)" using reconcile_error z by metis
  with active z r have "res = scale_result_of n (int (length active)) p" "s' = s3"
      "z \<noteq> Inl KeyboardInterrupt"
    by (auto simp: scale_reconcile_def split: sum.splits if_splits)
  with reconcile_accounted [OF z] show ?thesis by (simp add: scale_result_of_def)
qed

end


section \<open>What a status writes\<close>

lemma spreservesD: "spreserves R m \<Longrightarrow> m s = (r, s') \<Longrightarrow> R s s'"
  by (metis snd_conv spreserves_def)

lemma observed_states_Inr:
  "observed_states states lanes = Inr observed \<Longrightarrow>
   \<forall>lane \<in> set lanes. \<exists>state. map_of states (lane_job_id lane) = Some state \<and> js_state state \<in> set observed"
  by (induction lanes arbitrary: observed) (fastforce simp: rbind_eq_Inr state_at_def split: option.splits)+

definition finalizes_dead_run :: "json_object \<Rightarrow> job_states \<Rightarrow> remote_command \<Rightarrow> bool" where
  "finalizes_dead_run m states cmd \<longleftrightarrow>
     (\<exists>head e. head_job_ids m = [head] \<and>
        cmd = StateModule [(''operation'', JStr ''finalize''), (''fallback_error'', e)] (string_of (obj_get m ''run_id''))
                (Some (int_of_json (obj_get m ''revision''))) \<and>
        (\<forall>j \<in> set (head # map lane_job_id (manifest_lanes m)). \<exists>state. map_of states j = Some state \<and> \<not> maybe_alive (js_state state)))"

context login_node
begin

definition sends_only :: "(remote_command \<Rightarrow> bool) \<Rightarrow> 's \<Rightarrow> 's \<Rightarrow> bool" where
  "sends_only C s s' \<longleftrightarrow> (\<exists>sent. log s' = log s @ sent \<and> (\<forall>(cmd, _) \<in> set sent. C cmd))"

lemma sends_trans: "transp (sends_only C)"
  by (auto simp: transp_def sends_only_def)

lemma sends_refl: "reflp (sends_only C)"
  by (auto simp: reflp_def sends_only_def)

lemmas qbind = spreserves_sbind [OF sends_trans]
lemmas qcatch = spreserves_scatch [OF sends_trans]
lemmas qsimple = spreserves_simple [OF sends_refl]

lemma run_remote_sends: "C cmd \<Longrightarrow> spreserves (sends_only C) (run_remote run cmd)"
  unfolding spreserves_def
proof
  fix s
  assume C: "C cmd"
  obtain r s' where r: "run_remote run cmd s = (r, s')" by fastforce
  with run_remote_logged [OF r] C show "sends_only C s (snd (run_remote run cmd s))"
    by (auto simp: sends_only_def)
qed

definition no_mutation :: "remote_command \<Rightarrow> bool" where
  "no_mutation cmd \<longleftrightarrow> (\<forall>mutation run_id expected. cmd \<noteq> StateModule mutation run_id expected)"

lemma reads_no_mutation:
  "spreserves (sends_only no_mutation) (query_job_states run job_ids)"
  "spreserves (sends_only no_mutation) (read_remote_snapshot run age_of path)"
  "spreserves (sends_only no_mutation) (ray_address run directory)"
proof -
  have quiet: "no_mutation (CatFile f)" "no_mutation (TestExists f)" "no_mutation (Sacct js)" "no_mutation SqueueUser" for f js
    by (simp_all add: no_mutation_def)
  note intros = qbind qcatch run_remote_sends quiet
  show "spreserves (sends_only no_mutation) (query_job_states run job_ids)"
    unfolding query_job_states_def accounting_job_states_def queued_job_states_def
    by (auto intro!: intros qsimple)
  show "spreserves (sends_only no_mutation) (read_remote_snapshot run age_of path)"
    unfolding read_remote_snapshot_def remote_path_exists_def read_remote_json_def run_checked_def
    by (auto intro!: intros qsimple)
  show "spreserves (sends_only no_mutation) (ray_address run directory)"
    unfolding ray_address_def remote_path_exists_def read_remote_json_def run_checked_def
    by (auto intro!: intros qsimple)
qed

lemma reconcile_sends:
  "spreserves (sends_only (finalizes_dead_run m states))
     (reconcile_terminal_state run m (js_state (head_status_of m states)) states)"
proof -
  have unknown: "maybe_alive (js_state (unknown_job_state ''UNKNOWN''))" by (simp add: maybe_alive_def unknown_job_state_def)
  have alive: "finalizes_dead_run m states (StateModule [(''operation'', JStr ''finalize''), (''fallback_error'', e)]
      (string_of (obj_get m ''run_id'')) (Some (int_of_json (obj_get m ''revision''))))"
    if obs: "observed_states states (manifest_lanes m) = Inr observed"
      and dead: "\<not> list_ex maybe_alive (js_state (head_status_of m states) # observed)" for observed e
  proof -
    obtain j state where j: "head_job_ids m = [j]" "map_of states j = Some state" "head_status_of m states = state"
    proof (cases "head_job_ids m")
      case Nil
      with dead unknown show ?thesis by (simp add: head_status_of_def)
    next
      case (Cons j js)
      then have "js = []" by (auto simp: head_job_ids_def split: json.splits)
      with Cons dead unknown show ?thesis using that by (cases "map_of states j") (auto simp: head_status_of_def)
    qed
    with dead have "\<not> maybe_alive (js_state state)" by simp
    moreover have "\<exists>state. map_of states (lane_job_id lane) = Some state \<and> \<not> maybe_alive (js_state state)"
      if "lane \<in> set (manifest_lanes m)" for lane
      using observed_states_Inr [OF obs] that dead by (fastforce simp: list_ex_iff)
    ultimately show ?thesis using j unfolding finalizes_dead_run_def by auto
  qed
  show ?thesis
  proof (cases "observed_states states (manifest_lanes m)")
    case (Inl e)
    then have "reconcile_terminal_state run m (js_state (head_status_of m states)) states = sraise e"
      by (simp add: reconcile_terminal_state_def fun_eq_iff sbind_def slift_def sraise_def)
    then show ?thesis by (simp add: qsimple)
  next
    case (Inr observed)
    note send = alive [OF Inr]
    show ?thesis
    proof (cases "list_ex maybe_alive (js_state (head_status_of m states) # observed)")
      case True
      with Inr have "reconcile_terminal_state run m (js_state (head_status_of m states)) states =
          sbind (slift (manifest_state m)) (\<lambda>_. sreturn m)"
        by (simp add: reconcile_terminal_state_def fun_eq_iff sbind_def slift_def split: sum.splits)
      then show ?thesis by (simp add: qbind qsimple)
    next
      case False
      from send [OF False] have "spreserves (sends_only (finalizes_dead_run m states))
          (mutate_remote_manifest run [(''operation'', JStr ''finalize''), (''fallback_error'', e)]
            (string_of (obj_get m ''run_id'')) (Some (int_of_json (obj_get m ''revision''))))" for e
        unfolding mutate_remote_manifest_def by (intro qbind run_remote_sends) (auto intro!: qsimple)
      then show ?thesis unfolding reconcile_terminal_state_def
        by (intro qbind) (auto intro!: qsimple qcatch)
    qed
  qed
qed

lemma status_of_run_sends:
  assumes "status_of_run run age_of directory run_id m s = (r, s')"
  shows "\<exists>sent. log s' = log s @ sent \<and>
    (\<forall>(cmd, _) \<in> set sent. no_mutation cmd \<or>
      (\<exists>states s1. query_job_states run (head_job_ids m @ map lane_job_id (manifest_lanes m)) s = (Inr states, s1) \<and>
         finalizes_dead_run m states cmd))"
proof -
  obtain q s1 where q: "query_job_states run (head_job_ids m @ map lane_job_id (manifest_lanes m)) s = (q, s1)" by fastforce
  let ?C = "\<lambda>cmd. no_mutation cmd \<or> (\<exists>states. q = Inr states \<and> finalizes_dead_run m states cmd)"
  have weaken: "sends_only C a b \<Longrightarrow> (\<And>cmd. C cmd \<Longrightarrow> ?C cmd) \<Longrightarrow> sends_only ?C a b" for C a b
    by (fastforce simp: sends_only_def)
  have "sends_only no_mutation s s1" by (rule spreservesD [OF reads_no_mutation(1) q])
  then have first: "sends_only ?C s s1" by (rule weaken) blast
  have "sends_only ?C s s'"
  proof (cases q)
    case (Inl e)
    with assms q first show ?thesis by (simp add: status_of_run_def sbind_def)
  next
    case (Inr states)
    have quiet: "spreserves (sends_only ?C) act" if "spreserves (sends_only no_mutation) act" for act :: "('s, 'b) client"
      using that weaken [of no_mutation] unfolding spreserves_def by blast
    have rec: "spreserves (sends_only ?C) (reconcile_terminal_state run m (js_state (head_status_of m states)) states)"
      using reconcile_sends [of m states] weaken [of "finalizes_dead_run m states"] Inr unfolding spreserves_def by blast
    have view: "spreserves (sends_only ?C) (status_view_of run age_of directory run_id m states manifest)" for manifest
      unfolding status_view_of_def Let_def
      by (auto intro!: qbind qsimple quiet [OF reads_no_mutation(2)] quiet [OF reads_no_mutation(3)] split: prod.split)
    have keeps: "spreserves (sends_only ?C) (sbind (reconcile_terminal_state run m (js_state (head_status_of m states)) states)
        (status_view_of run age_of directory run_id m states))"
      by (intro qbind rec view)
    have ends: "sbind (reconcile_terminal_state run m (js_state (head_status_of m states)) states)
        (status_view_of run age_of directory run_id m states) s1 = (r, s')"
      using assms q Inr by (simp add: status_of_run_def sbind_def)
    have "sends_only ?C s1 s'" by (rule spreservesD [OF keeps ends])
    with first sends_trans show ?thesis by (auto dest: transpD)
  qed
  then obtain sent where "log s' = log s @ sent" "\<forall>(cmd, _) \<in> set sent. ?C cmd" by (auto simp: sends_only_def)
  then show ?thesis using q by (intro exI [of _ sent]) fastforce
qed

end

section \<open>What a scale does\<close>

lemma next_lane_free:
  "(\<forall>lane \<in> set lanes. lane_number lane < next_lane lanes) \<and>
   (if lanes = [] then next_lane lanes = 0 else \<exists>lane \<in> set lanes. next_lane lanes = lane_number lane + 1)"
proof (cases lanes)
  case (Cons lane rest)
  then have next_lane: "next_lane lanes = Max (lane_number ` set lanes) + 1"
    by (simp add: next_lane_def flip: Max.set_eq_fold)
  have "Max (lane_number ` set lanes) \<in> lane_number ` set lanes" using Cons by (intro Max_in) auto
  moreover have "lane_number l \<le> Max (lane_number ` set lanes)" if "l \<in> set lanes" for l using that by simp
  ultimately show ?thesis using Cons unfolding next_lane by (force simp: zle_add1_eq_le)
qed (simp add: next_lane_def)

lemma surplus_lanes_highest:
  assumes "0 \<le> n" "n \<le> int (length active)"
  obtains kept where "mset active = mset kept + mset (surplus_lanes active n)" "int (length kept) = n"
    "\<forall>a \<in> set kept. \<forall>b \<in> set (surplus_lanes active n). lane_number a \<le> lane_number b"
proof -
  let ?sorted = "sort_key (\<lambda>lane. - lane_number lane) active" and ?k = "nat (int (length active) - n)"
  have parts: "?sorted = surplus_lanes active n @ drop ?k ?sorted" by (simp add: surplus_lanes_def)
  have "sorted (map (\<lambda>lane. - lane_number lane) ?sorted)" by simp
  then have "\<forall>a \<in> set (drop ?k ?sorted). \<forall>b \<in> set (surplus_lanes active n). lane_number a \<le> lane_number b"
    by (subst (asm) parts) (auto simp: sorted_append)
  moreover have "mset active = mset (drop ?k ?sorted) + mset (surplus_lanes active n)"
    by (metis mset_append mset_sort parts union_commute)
  moreover have "int (length (drop ?k ?sorted)) = n" using assms by simp
  ultimately show ?thesis using that by blast
qed

lemma active_lanes_Inr:
  "active_lanes states lanes = Inr active \<Longrightarrow>
   active = filter (\<lambda>lane. \<exists>state. map_of states (lane_job_id lane) = Some state \<and> is_nonterminal state) lanes \<and>
   (\<forall>lane \<in> set lanes. \<exists>state. map_of states (lane_job_id lane) = Some state)"
  by (induction lanes arbitrary: active) (auto simp: rbind_eq_Inr state_at_def split: option.splits)

text \<open>What a scale of the lanes \<open>lanes\<close> to \<open>n\<close> does, by the states \<open>states\<close> of their jobs: the live lanes are kept but
  for those it drops, which are the ones with the highest numbers; together with the jobs submitted there are \<open>n\<close>; it
  never does both; the cancellations accepted are those of the dropped lanes, and each job submitted has its lane in the
  file, numbered on from the first number that no lane of the run has.\<close>

definition reconciled ::
  "json list \<Rightarrow> job_states \<Rightarrow> int \<Rightarrow> string list \<Rightarrow> string list \<Rightarrow> json_object option \<Rightarrow>
   (remote_command \<times> (call_error + remote_result)) list \<Rightarrow> bool" where
  "reconciled lanes states n submitted canceled disk' sent \<longleftrightarrow>
     (\<exists>kept dropped first.
        mset (filter (\<lambda>lane. \<exists>state. map_of states (lane_job_id lane) = Some state \<and> is_nonterminal state) lanes) =
          mset kept + mset dropped \<and>
        int (length kept) + int (length submitted) = n \<and> (dropped = [] \<or> submitted = []) \<and>
        (\<forall>a \<in> set kept. \<forall>b \<in> set dropped. lane_number a \<le> lane_number b) \<and>
        canceled = map lane_job_id dropped \<and> accepted_cancels sent = canceled \<and>
        (\<forall>lane \<in> set lanes. lane_number lane < first) \<and>
        (if lanes = [] then first = 0 else \<exists>lane \<in> set lanes. first = lane_number lane + 1) \<and>
        (\<forall>k < length submitted. lane_recorded_as disk' (first + int k) (submitted ! k)))"

lemma reconciledI:
  assumes "mset (filter (\<lambda>lane. \<exists>state. map_of states (lane_job_id lane) = Some state \<and> is_nonterminal state) lanes) =
      mset kept + mset dropped"
    and "int (length kept) + int (length submitted) = n" "dropped = [] \<or> submitted = []"
    and "\<forall>a \<in> set kept. \<forall>b \<in> set dropped. lane_number a \<le> lane_number b"
    and "canceled = map lane_job_id dropped" "accepted_cancels sent = canceled"
    and "\<forall>k < length submitted. lane_recorded_as disk' (next_lane lanes + int k) (submitted ! k)"
  shows "reconciled lanes states n submitted canceled disk' sent"
  using assms next_lane_free [of lanes] unfolding reconciled_def by blast

lemma reconciled_count:
  assumes "reconciled lanes states n submitted canceled disk' sent"
    and "active = filter (\<lambda>lane. \<exists>state. map_of states (lane_job_id lane) = Some state \<and> is_nonterminal state) lanes"
  shows "int (length active) + int (length submitted) - int (length canceled) = n"
proof -
  from assms(1) obtain kept dropped where parts: "mset active = mset kept + mset dropped"
    "int (length kept) + int (length submitted) = n" "length canceled = length dropped"
    unfolding reconciled_def assms(2) by auto
  from parts(1) have "length active = length kept + length dropped" by (metis size_mset size_union)
  with parts(2,3) show ?thesis by simp
qed

definition no_cancel :: "remote_command \<Rightarrow> bool" where
  "no_cancel cmd \<longleftrightarrow> (\<forall>job_id. cmd \<noteq> Scancel job_id)"

lemma no_cancel_accepted: "\<forall>(cmd, _) \<in> set sent. no_cancel cmd \<Longrightarrow> accepted_cancels sent = []"
  by (induction sent rule: accepted_cancels.induct) (auto simp: no_cancel_def split: remote_command.split)

context login_node
begin

lemma open_remote_run_log:
  assumes "open_remote_run run directory run_id s = (Inr m, s')"
  obtains result sent where "log s' = log s @ sent" "(CatFile (manifest_path directory), Inr result) \<in> set sent"
    "rr_ok result" "rr_json result = Some (JObj m)" "obj_get m ''run_id'' = JStr run_id"
proof -
  from assms obtain s1 where m: "read_run_manifest run directory run_id s = (Inr m, s1)"
    and verify: "verify_manifest_cluster run m s1 = (Inr (), s')"
    by (auto simp: open_remote_run_def result_simps split: if_splits)
  from m obtain result where call: "run (CatFile (manifest_path directory)) s = (Inr result, s1)" "rr_ok result"
    "rbind (decode_remote_json result) validated_manifest = Inr m" "obj_get m ''run_id'' = JStr run_id"
    by (auto simp: read_run_manifest_def read_remote_manifest_def sbind_Pair_Inr run_remote_Inr slift_def sraise_def sreturn_def
        split: if_splits)
  from call(3) have json: "rr_json result = Some (JObj m)"
    by (auto simp: rbind_eq_Inr decode_remote_json_def validated_manifest_def
        split: option.splits json.splits sum.splits dest: valid_manifestD(1))
  have "spreserves later (verify_manifest_cluster run m)"
    unfolding verify_manifest_cluster_def slurm_cluster_name_def
    by (intro history.pbind history.run_remote_keeps) (auto intro!: history.psimple split: list.split)
  from later_run [OF this verify] obtain rest where "log s' = log s1 @ rest" by (auto simp: later_def prefix_def)
  with logged [OF call(1)] json call(2,4) that show ?thesis by fastforce
qed

lemma query_job_states_log:
  "query_job_states run job_ids s = (r, s') \<Longrightarrow> \<exists>sent. log s' = log s @ sent"
  using later_run [OF history.query_job_states_keeps] by (force simp: later_def prefix_def)

lemma submit_sends:
  "spreserves (sends_only no_cancel) (submit_lane run now base run_id head n allocations directory)"
  "spreserves (sends_only no_cancel) (run_mutate run manifest mutation)"
proof -
  have quiet: "no_cancel (Sbatch path name options arguments)" "no_cancel SqueueUser" "no_cancel (SqueueByName name)"
    "no_cancel (StateModule mu i e)" for path name options arguments mu i e
    by (simp_all add: no_cancel_def)
  have read_clock: "spreserves (sends_only no_cancel) (\<lambda>s. (Inr (j, lane_record n j (now s)), s))" for j
    using sends_refl by (simp add: spreserves_def reflp_def)
  note intros = qbind qcatch run_remote_sends quiet read_clock
  show "spreserves (sends_only no_cancel) (submit_lane run now base run_id head n allocations directory)"
    unfolding submit_lane_def submit_script_def find_job_by_exact_name_def on_exception_def run_checked_def
    by (auto intro!: intros qsimple split: option.split list.split)
  show "spreserves (sends_only no_cancel) (run_mutate run manifest mutation)"
    unfolding run_mutate_def mutate_remote_manifest_def
    by (auto intro!: intros qsimple)
qed

lemma add_lane_Inr:
  assumes "add_lane run now directory manifest head n (s, p) = (Inr u, (s', p'))"
  obtains j where "p' = p\<lparr>pr_submitted := pr_submitted p @ [j]\<rparr>" "lane_recorded_as (disk s') n j"
    "sends_only no_cancel s s'"
proof -
  let ?submit = "submit_lane run now (string_of (obj_get manifest ''job_name'')) (string_of (obj_get manifest ''run_id''))
              head n (int_of_json (obj_get manifest ''lane_allocations'')) directory"
  obtain x s1 where x: "?submit s = (x, s1)" by fastforce
  with assms obtain jr where jr: "x = Inr jr" by (cases x) (auto simp: add_lane_def tracked_def sbind_def)
  with x obtain j t where "jr = (j, lane_record n j t)" by (auto simp: submit_lane_def result_simps)
  with jr x have x': "?submit s = (Inr (j, lane_record n j t), s1)" by simp
  let ?append = "run_mutate run manifest [(''operation'', JStr ''append-lane''), (''lane'', JObj (lane_record n j t))]"
  obtain y s2 where y: "?append s1 = (y, s2)" by fastforce
  show ?thesis
  proof (cases y)
    case (Inr v)
    with assms x' y have "s' = s2" "p' = p\<lparr>pr_submitted := pr_submitted p @ [j]\<rparr>"
      by (auto simp: add_lane_def tracked_def sbind_def note_submitted_def on_exception_def scatch_def sreturn_def
          simp del: cancel_jobs.simps)
    moreover have "sends_only no_cancel s s2"
      using spreservesD [OF submit_sends(1) x'] spreservesD [OF submit_sends(2) y] sends_trans by (auto dest: transpD)
    ultimately show ?thesis using that run_mutate_recorded [OF y [unfolded Inr]] by blast
  next
    case (Inl e)
    obtain z s3 where "cancel_jobs run [j] s2 = (z, s3)" by fastforce
    with assms x' y Inl have False
      by (auto simp: add_lane_def tracked_def sbind_def note_submitted_def on_exception_def scatch_def sreturn_def
          sraise_def note_canceled_def simp del: cancel_jobs.simps split: if_splits sum.splits)
    then show ?thesis ..
  qed
qed

lemma add_lanes_Inr:
  "add_lanes run now directory manifest head ns (s, p) = (Inr u, (s', p')) \<Longrightarrow>
   \<exists>js. p' = p\<lparr>pr_submitted := pr_submitted p @ js\<rparr> \<and> list_all2 (lane_recorded_as (disk s')) ns js \<and> sends_only no_cancel s s'"
proof (induction ns arbitrary: s p)
  case Nil
  then show ?case using sends_refl by (auto simp: sreturn_def reflp_def)
next
  case (Cons n ns)
  from Cons.prems obtain v sp1 where one: "add_lane run now directory manifest head n (s, p) = (Inr v, sp1)"
    and rest: "add_lanes run now directory manifest head ns sp1 = (Inr u, (s', p'))"
    by (auto simp: sbind_Pair_Inr)
  obtain s1 p1 where sp1: "sp1 = (s1, p1)" by fastforce
  from add_lane_Inr [OF one [unfolded sp1]] obtain j where j: "p1 = p\<lparr>pr_submitted := pr_submitted p @ [j]\<rparr>"
    "lane_recorded_as (disk s1) n j" "sends_only no_cancel s s1" .
  from Cons.IH [OF rest [unfolded sp1]] obtain js where js: "p' = p1\<lparr>pr_submitted := pr_submitted p1 @ js\<rparr>"
    "list_all2 (lane_recorded_as (disk s')) ns js" "sends_only no_cancel s1 s'" by blast
  have "later s1 s'" by (rule later_tracked [OF history.add_lanes_keeps rest [unfolded sp1]])
  with j(2) have "lane_recorded_as (disk s') n j" using lane_recorded_calls(2) by (auto simp: later_def)
  with j js sends_trans show ?case by (intro exI [of _ "j # js"]) (auto dest: transpD)
qed

lemma cancel_lanes_Inr:
  "cancel_lanes run lanes (s, p) = (Inr u, (s', p')) \<Longrightarrow>
   p' = p\<lparr>pr_canceled := pr_canceled p @ map lane_job_id lanes\<rparr> \<and>
   (\<exists>sent. log s' = log s @ sent \<and> accepted_cancels sent = map lane_job_id lanes)"
proof (induction lanes arbitrary: s p)
  case (Cons lane lanes)
  let ?j = "lane_job_id lane"
  from Cons.prems obtain v sp1 where one: "cancel_lane run lane (s, p) = (Inr v, sp1)"
    and rest: "cancel_lanes run lanes sp1 = (Inr u, (s', p'))"
    by (auto simp: sbind_Pair_Inr)
  obtain s1 p1 where sp1: "sp1 = (s1, p1)" by fastforce
  from one sp1 have one': "cancel_jobs run [?j] s = (Inr [?j], s1)" "p1 = p\<lparr>pr_canceled := pr_canceled p @ [?j]\<rparr>"
    by (auto simp: cancel_lane_def Let_def sbind_Pair_Inr note_canceled_def sraise_def tracked_def
        simp del: cancel_jobs.simps split: if_splits prod.splits)
  from cancel_jobs_log [OF one'(1)] obtain sent where sent: "log s1 = log s @ sent" "accepted_cancels sent = [?j]" by blast
  from Cons.IH [OF rest [unfolded sp1]] obtain sent' where
    "p' = p1\<lparr>pr_canceled := pr_canceled p1 @ map lane_job_id lanes\<rparr>"
    "log s' = log s1 @ sent'" "accepted_cancels sent' = map lane_job_id lanes" by blast
  with sent one'(2) show ?case by (auto simp: accepted_cancels_append intro!: exI [of _ "sent @ sent'"])
qed (auto simp: sreturn_def)

lemma reconcile_lanes_Inr:
  assumes "reconcile_lanes run now directory m head active n (s, no_progress) = (Inr u, (s', p))" "0 \<le> n"
    and "active = filter (\<lambda>lane. \<exists>state. map_of states (lane_job_id lane) = Some state \<and> is_nonterminal state) (manifest_lanes m)"
  obtains sent where "log s' = log s @ sent"
    "reconciled (manifest_lanes m) states n (pr_submitted p) (pr_canceled p) (disk s') sent"
proof -
  let ?first = "next_lane (manifest_lanes m)"
  consider "int (length active) < n" | "n < int (length active)" | "n = int (length active)" by linarith
  then show ?thesis
  proof cases
    case 1
    with assms(1) have "add_lanes run now directory m head
        [?first..?first + n - int (length active) - 1] (s, no_progress) = (Inr u, (s', p))"
      by (simp add: reconcile_lanes_def Let_def)
    from add_lanes_Inr [OF this] obtain js sent where js: "p = no_progress\<lparr>pr_submitted := js\<rparr>"
      "list_all2 (lane_recorded_as (disk s')) [?first..?first + n - int (length active) - 1] js"
      "log s' = log s @ sent" "\<forall>(cmd, _) \<in> set sent. no_cancel cmd"
      by (auto simp: sends_only_def no_progress_def)
    then have "int (length active) + int (length js) = n" "\<forall>k < length js. lane_recorded_as (disk s') (?first + int k) (js ! k)"
      using 1 by (auto simp: list_all2_conv_all_nth)
    with js(1) no_cancel_accepted [OF js(4)] have "reconciled (manifest_lanes m) states n (pr_submitted p) (pr_canceled p) (disk s') sent"
      by (intro reconciledI [where kept = active and dropped = "[]"]) (simp_all add: no_progress_def flip: assms(3))
    with js(3) that show ?thesis by blast
  next
    case 2
    then have "cancel_lanes run (surplus_lanes active n) (s, no_progress) = (Inr u, (s', p))"
      using assms(1) by (simp add: reconcile_lanes_def Let_def)
    from cancel_lanes_Inr [OF this] obtain sent where sent: "p = no_progress\<lparr>pr_canceled := map lane_job_id (surplus_lanes active n)\<rparr>"
      "log s' = log s @ sent" "accepted_cancels sent = map lane_job_id (surplus_lanes active n)"
      by (auto simp: no_progress_def)
    from 2 assms(2) obtain kept where kept: "mset active = mset kept + mset (surplus_lanes active n)" "int (length kept) = n"
      "\<forall>a \<in> set kept. \<forall>b \<in> set (surplus_lanes active n). lane_number a \<le> lane_number b"
      using surplus_lanes_highest [of n active] by auto
    then have "reconciled (manifest_lanes m) states n (pr_submitted p) (pr_canceled p) (disk s') sent"
      using sent(1,3) by (intro reconciledI [where kept = kept and dropped = "surplus_lanes active n"])
        (simp_all add: no_progress_def flip: assms(3))
    with sent(2) that show ?thesis by blast
  next
    case 3
    with assms(1) have p: "p = no_progress" "s' = s" by (auto simp: reconcile_lanes_def Let_def sreturn_def)
    have "reconciled (manifest_lanes m) states n (pr_submitted p) (pr_canceled p) (disk s') []"
      using 3 p by (intro reconciledI [where kept = active and dropped = "[]"]) (simp_all add: no_progress_def flip: assms(3))
    with p(2) that show ?thesis by simp
  qed
qed

end

section \<open>The cluster\<close>

text \<open>The manifest file of one run, the commands answered so far, and the rest of the world, of which the
  environment says: how the shell and Slurm answer, what other clients do to the file before a command
  arrives, the clock, and whether a command that reads or writes the file gets through.\<close>

record 'c cluster =
  cl_disk :: "json_object option"
  cl_log :: "(remote_command \<times> (call_error + remote_result)) list"
  cl_rest :: 'c

datatype delivery = Delivered | RequestFailed call_error | ResponseFailed call_error

record 'c environment =
  env_shell :: "remote_command \<Rightarrow> 'c \<Rightarrow> (call_error + remote_result) \<times> 'c"
  env_others :: "'c \<Rightarrow> manifest_call list"
  env_clock :: "'c \<Rightarrow> string \<times> string"
  env_link :: "'c \<Rightarrow> delivery"

fun module_result :: "int \<times> main_output \<Rightarrow> remote_result" where
  "module_result (status, PrintedManifest m) = \<lparr>rr_exited = status, rr_stdout = [], rr_json = Some (JObj m)\<rparr>"
| "module_result (status, PrintedRevision n) = \<lparr>rr_exited = status, rr_stdout = py_str_int n, rr_json = Some (JInt n)\<rparr>"
| "module_result (status, PrintedNothing) = \<lparr>rr_exited = status, rr_stdout = [], rr_json = None\<rparr>"

definition cat_result :: "json_object option \<Rightarrow> remote_result" where
  "cat_result disk =
     (case disk of
        None \<Rightarrow> \<lparr>rr_exited = 1, rr_stdout = [], rr_json = None\<rparr>
      | Some m \<Rightarrow> \<lparr>rr_exited = 0, rr_stdout = [], rr_json = Some (JObj m)\<rparr>)"

definition delivered :: "delivery \<Rightarrow> remote_result \<Rightarrow> 'd \<Rightarrow> 'd \<Rightarrow> (call_error + remote_result) \<times> 'd" where
  "delivered link result before' after =
     (case link of
        Delivered \<Rightarrow> (Inr result, after)
      | RequestFailed e \<Rightarrow> (Inl e, before')
      | ResponseFailed e \<Rightarrow> (Inl e, after))"

definition cluster_run :: "'c environment \<Rightarrow> string \<Rightarrow> 'c cluster remote" where
  "cluster_run env directory cmd w =
     (let rest = cl_rest w;
          disk = fold run_mutation (env_others env rest) (cl_disk w);
          shell = env_shell env cmd rest;
          outcome = (case cmd of
              StateModule mutation run_id expected \<Rightarrow>
                (case state_main mutation run_id expected (fst (env_clock env rest)) (snd (env_clock env rest)) disk of
                   (out, disk') \<Rightarrow> delivered (env_link env rest) (module_result out) disk disk')
            | CatFile path \<Rightarrow>
                if path = manifest_path directory then delivered (env_link env rest) (cat_result disk) disk disk
                else (fst shell, disk)
            | _ \<Rightarrow> (fst shell, disk))
      in (fst outcome,
          \<lparr>cl_disk = snd outcome, cl_log = cl_log w @ [(cmd, fst outcome)], cl_rest = snd shell\<rparr>))"

lemma state_main_ok:
  assumes "state_main mutation run_id expected now now' disk = (out, disk')" "rr_ok (module_result out)"
  shows "\<exists>v. mutate_manifest mutation run_id expected now now' disk = (Inr v, disk') \<and>
    rr_json (module_result out) = Some (JObj v)"
  using assms
  by (auto simp: state_main_def rr_ok_def MANIFEST_REVISION_CONFLICT_EXIT_CODE_def
      split: prod.splits sum.splits state_error.splits)

lemma state_main_disk:
  "state_main mutation run_id expected now now' disk = (out, disk') \<Longrightarrow>
   disk' = run_mutation (mutation, run_id, expected, now, now') disk"
  by (auto simp: state_main_def run_mutation_def split: prod.splits sum.splits state_error.splits)

lemma calls_compose:
  "\<exists>calls. run_mutation call (fold run_mutation others disk) = fold run_mutation calls disk"
  by (rule exI [of _ "others @ [call]"]) simp

interpretation managed: run_directory "cluster_run env directory" cl_disk cl_log directory for env directory
proof
  fix cmd s r s' mutation run_id expected result m
  show "cl_log s' = cl_log s @ [(cmd, r)]" if "cluster_run env directory cmd s = (r, s')"
    using that by (auto simp: cluster_run_def Let_def)
  show "\<exists>calls. cl_disk s' = fold run_mutation calls (cl_disk s)" if "cluster_run env directory cmd s = (r, s')"
  proof (cases cmd)
    case (StateModule mutation run_id expected)
    obtain out disk' where main: "state_main mutation run_id expected (fst (env_clock env (cl_rest s)))
        (snd (env_clock env (cl_rest s))) (fold run_mutation (env_others env (cl_rest s)) (cl_disk s)) = (out, disk')"
      by fastforce
    with that StateModule have "cl_disk s' \<in> {disk', fold run_mutation (env_others env (cl_rest s)) (cl_disk s)}"
      by (auto simp: cluster_run_def Let_def delivered_def split: delivery.splits)
    with state_main_disk [OF main] calls_compose show ?thesis by (metis empty_iff insert_iff)
  qed (use that in \<open>auto simp: cluster_run_def Let_def delivered_def split: delivery.splits if_splits\<close>)
  show "\<exists>calls now now' v. mutate_manifest mutation run_id expected now now' (fold run_mutation calls (cl_disk s)) =
      (Inr v, cl_disk s') \<and> rr_json result = Some (JObj v)"
    if "cluster_run env directory (StateModule mutation run_id expected) s = (Inr result, s')" "rr_ok result"
  proof -
    obtain out disk' where main: "state_main mutation run_id expected (fst (env_clock env (cl_rest s)))
        (snd (env_clock env (cl_rest s))) (fold run_mutation (env_others env (cl_rest s)) (cl_disk s)) = (out, disk')"
      by fastforce
    with that(1) have "result = module_result out" "cl_disk s' = disk'"
      by (auto simp: cluster_run_def Let_def delivered_def split: delivery.splits)
    with state_main_ok [OF main] that(2) show ?thesis by blast
  qed
  show "cl_disk s' = Some m"
    if "cluster_run env directory (CatFile (manifest_path directory)) s = (Inr result, s')" "rr_ok result"
      "rr_json result = Some (JObj m)"
    using that by (auto simp: cluster_run_def Let_def delivered_def cat_result_def rr_ok_def
        split: delivery.splits option.splits)
qed

section \<open>Properties\<close>

text \<open>C8: A scale that returns has reached its target on the lanes themselves. It has read the manifest of the run and
  asked for the states of its head and of all its lanes, none of which is unknown; the lanes whose jobs are live are
  the previous ones it reports. It keeps them but for the lanes with the highest numbers, whose cancellations are
  accepted and are the only ones, or it submits new lanes, each of which is then in the manifest under the next free
  number; the lanes kept and submitted are as many as requested.\<close>

theorem scale_reaches_target:
  assumes "scale_slurm_ray_run (cluster_run env directory) now directory run_id worker_lanes w = (Inr res, w')"
  shows "\<exists>result m head states w1 w2 reading asking sent.
    cl_log w1 = cl_log w @ reading \<and> cl_log w2 = cl_log w1 @ asking \<and> cl_log w' = cl_log w2 @ sent \<and>
    (CatFile (manifest_path directory), Inr result) \<in> set reading \<and> rr_ok result \<and> rr_json result = Some (JObj m) \<and>
    obj_get m ''run_id'' = JStr run_id \<and> obj_get m ''head_job_id'' = JStr head \<and>
    query_job_states (cluster_run env directory) (head # map lane_job_id (manifest_lanes m)) w1 = (Inr states, w2) \<and>
    (\<exists>state. map_of states head = Some state \<and> js_state state \<in> set SCALABLE_HEAD_STATES) \<and>
    (\<forall>lane \<in> set (manifest_lanes m). \<exists>state. map_of states (lane_job_id lane) = Some state \<and> js_state state \<noteq> ''UNKNOWN'') \<and>
    reconciled (manifest_lanes m) states worker_lanes (sc_submitted res) (sc_canceled res) (cl_disk w') sent \<and>
    sc_previous res = int (length (filter (\<lambda>lane. \<exists>state. map_of states (lane_job_id lane) = Some state \<and> is_nonterminal state)
      (manifest_lanes m))) \<and>
    sc_worker_lanes res = worker_lanes \<and> sc_target res = worker_lanes"
proof -
  let ?run = "cluster_run env directory"
  from assms obtain m w1 where n: "0 \<le> worker_lanes"
    and opened: "open_remote_run ?run directory run_id w = (Inr m, w1)"
    and scale: "scale_lanes ?run now directory m worker_lanes w1 = (Inr res, w')"
    by (auto simp: scale_slurm_ray_run_def sbind_Pair_Inr sraise_def split: if_splits)
  from managed.open_remote_run_log [OF opened] obtain result reading where reading: "cl_log w1 = cl_log w @ reading"
    "(CatFile (manifest_path directory), Inr result) \<in> set reading" "rr_ok result" "rr_json result = Some (JObj m)"
    "obj_get m ''run_id'' = JStr run_id" .
  from scale obtain head states active w2 where head: "obj_get m ''head_job_id'' = JStr head"
    and states: "verified_scale_job_states ?run m head w1 = (Inr states, w2)"
    and active: "active_lanes states (manifest_lanes m) = Inr active"
    and reconcile: "scale_reconcile ?run now directory m head active worker_lanes w2 = (Inr res, w')"
    by (auto simp: scale_lanes_def sbind_Pair_Inr slift_Pair required_head_job_id_def split: json.splits) metis
  from states have query: "query_job_states ?run (head # map lane_job_id (manifest_lanes m)) w1 = (Inr states, w2)"
    and known: "unknown_states states = []"
    and scalable: "\<exists>state. map_of states head = Some state \<and> js_state state \<in> set SCALABLE_HEAD_STATES"
    by (auto simp: verified_scale_job_states_def sbind_Pair_Inr slift_Pair sraise_def sreturn_def state_at_def
        split: if_splits option.splits)
  from managed.query_job_states_log [OF query] obtain asking where asking: "cl_log w2 = cl_log w1 @ asking" ..
  from reconcile obtain u p where p: "reconcile_lanes ?run now directory m head active worker_lanes (w2, no_progress) = (Inr u, (w', p))"
    "res = scale_result_of worker_lanes (int (length active)) p"
    by (auto simp: scale_reconcile_def split: prod.splits sum.splits)
  note live = active_lanes_Inr [OF active]
  from managed.reconcile_lanes_Inr [OF p(1) n conjunct1 [OF live]] obtain sent where sent: "cl_log w' = cl_log w2 @ sent"
    "reconciled (manifest_lanes m) states worker_lanes (sc_submitted res) (sc_canceled res) (cl_disk w') sent"
    by (auto simp: p(2) scale_result_of_def)
  have "\<forall>lane \<in> set (manifest_lanes m). \<exists>state. map_of states (lane_job_id lane) = Some state \<and> js_state state \<noteq> ''UNKNOWN''"
    using live known by (fastforce simp: unknown_states_def filter_empty_conv dest: map_of_SomeD)
  moreover have "sc_worker_lanes res = worker_lanes"
    using reconciled_count [OF sent(2) conjunct1 [OF live]] by (simp add: sc_worker_lanes_def p(2) scale_result_of_def)
  moreover have "sc_previous res = int (length (filter (\<lambda>lane. \<exists>state. map_of states (lane_job_id lane) = Some state \<and>
      is_nonterminal state) (manifest_lanes m)))" "sc_target res = worker_lanes"
    using live by (simp_all add: p(2) scale_result_of_def)
  ultimately show ?thesis using reading asking head query scalable sent by blast
qed

text \<open>C5: No job is lost by a scale: whatever Slurm, the network and other clients do, every job that the
  result or the partial error lists as submitted has its lane in the manifest, or was sent a \<^verbatim>\<open>scancel\<close>.\<close>

theorem scale_accounts_for_every_job:
  assumes "scale_slurm_ray_run (cluster_run env directory) now directory run_id worker_lanes w = (r, w')"
    and "r = Inr res \<or> r = Inl (PartialScaleError res)"
  shows "\<forall>j \<in> set (sc_submitted res). lane_recorded_for (cl_disk w') j \<or> (\<exists>x. (Scancel j, x) \<in> set (cl_log w'))"
  using managed.scale_accounted [OF assms] by (simp add: managed.accounted_def)

text \<open>C6: A stop that returns fences every scale in flight: whatever is done to the manifest after it, lanes
  that a scale then tries to add on its old view of the run do not enter the manifest, and each job it has
  submitted is sent a \<^verbatim>\<open>scancel\<close>, unless the user interrupts it.\<close>

theorem stop_fences_scale_in_flight:
  assumes "stop_slurm_ray_run (cluster_run env directory) directory run_id w = (Inr res, w1)"
    and "cl_disk w2 = fold run_mutation calls (cl_disk w1)"
    and "add_lanes (cluster_run env directory) now directory manifest head ns (w2, no_progress) = (r, (w3, p))"
    and "r \<noteq> Inl KeyboardInterrupt"
  shows "lanes_of (cl_disk w3) = lanes_of (cl_disk w1) \<and>
    (\<forall>j \<in> set (pr_submitted p). \<exists>x. (Scancel j, x) \<in> set (cl_log w3))"
proof -
  have "fenced (cl_disk w1)" by (rule managed.stop_fences [OF assms(1)])
  with assms(2) fenced_calls have w2: "fenced (cl_disk w2)" "lanes_of (cl_disk w2) = lanes_of (cl_disk w1)" by simp_all
  have "managed.later w2 w3" using managed.later_tracked [OF managed.history.add_lanes_keeps assms(3)] .
  from managed.later_fenced [OF this w2(1)] w2(2) have "lanes_of (cl_disk w3) = lanes_of (cl_disk w1)" by simp
  moreover from managed.add_lanes_fenced [OF assms(3,4) w2(1)]
  have "\<forall>j \<in> set (pr_submitted p). \<exists>x. (Scancel j, x) \<in> set (cl_log w3)" by (simp add: no_progress_def)
  ultimately show ?thesis ..
qed

text \<open>A stop cancels the lanes before the head: the commands it sends are the cancellations of the lanes
  and then of the head, the head's come only after all of the lanes' were accepted, all were accepted when
  it returns, and the partial error lists exactly those that were.\<close>

theorem stop_cancels_lanes_before_head:
  assumes "cancel_lanes_then_head (cluster_run env directory) lanes head st w = (r, w')"
  shows "\<exists>sent. cl_log w' = cl_log w @ sent \<and>
    (\<exists>n. map fst sent = map Scancel (take n (lanes @ head))) \<and>
    (length lanes < length sent \<longrightarrow> accepted_cancels (take (length lanes) sent) = lanes) \<and>
    (r = Inr () \<longrightarrow> accepted_cancels sent = lanes @ head) \<and>
    (\<forall>res. r = Inl (PartialStopError res) \<longrightarrow>
       accepted_cancels sent = st_canceled_lanes res @ st_canceled_head res)"
  using managed.cancel_lanes_then_head_log [OF assms] by (auto simp: cancel_report_def)

text \<open>C7: A status only ever finishes runs that are over: its one write is a finalize, conditional on the
  revision it read, and it is sent only when the head and every lane of that manifest have a state in the
  merged view of Slurm that is neither unknown nor one of a job that may still hold an allocation.\<close>

theorem status_finalizes_only_dead_runs:
  assumes "status_of_run (cluster_run env directory) age_of directory run_id m w = (r, w')"
  shows "\<exists>sent. cl_log w' = cl_log w @ sent \<and>
    (\<forall>mutation rid expected answer. (StateModule mutation rid expected, answer) \<in> set sent \<longrightarrow>
       (\<exists>states w1 head e.
          query_job_states (cluster_run env directory) (head_job_ids m @ map lane_job_id (manifest_lanes m)) w = (Inr states, w1) \<and>
          head_job_ids m = [head] \<and> expected = Some (int_of_json (obj_get m ''revision'')) \<and>
          mutation = [(''operation'', JStr ''finalize''), (''fallback_error'', e)] \<and>
          (\<forall>j \<in> set (head # map lane_job_id (manifest_lanes m)).
             \<exists>state. map_of states j = Some state \<and> \<not> maybe_alive (js_state state))))"
proof -
  from managed.status_of_run_sends [OF assms] obtain sent where sent: "cl_log w' = cl_log w @ sent"
    "\<forall>(cmd, _) \<in> set sent. managed.no_mutation cmd \<or>
      (\<exists>states s1. query_job_states (cluster_run env directory) (head_job_ids m @ map lane_job_id (manifest_lanes m)) w =
         (Inr states, s1) \<and> finalizes_dead_run m states cmd)" by blast
  have "\<exists>states w1 head e.
          query_job_states (cluster_run env directory) (head_job_ids m @ map lane_job_id (manifest_lanes m)) w = (Inr states, w1) \<and>
          head_job_ids m = [head] \<and> expected = Some (int_of_json (obj_get m ''revision'')) \<and>
          mutation = [(''operation'', JStr ''finalize''), (''fallback_error'', e)] \<and>
          (\<forall>j \<in> set (head # map lane_job_id (manifest_lanes m)).
             \<exists>state. map_of states j = Some state \<and> \<not> maybe_alive (js_state state))"
    if cmd: "(StateModule mutation rid expected, answer) \<in> set sent" for mutation rid expected answer
  proof -
    from sent(2) cmd obtain states s1 where
      "query_job_states (cluster_run env directory) (head_job_ids m @ map lane_job_id (manifest_lanes m)) w = (Inr states, s1)"
      "finalizes_dead_run m states (StateModule mutation rid expected)"
      by (force simp: managed.no_mutation_def)
    then show ?thesis unfolding finalizes_dead_run_def by blast
  qed
  with sent(1) show ?thesis by blast
qed


section \<open>A small cluster\<close>

text \<open>A run with one lane on a cluster that answers every command; in the second environment the jobs have
  ended.\<close>

definition answer :: "string \<Rightarrow> remote_result" where
  "answer text = \<lparr>rr_exited = 0, rr_stdout = text, rr_json = None\<rparr>"

definition sample_shell :: "string \<Rightarrow> remote_command \<Rightarrow> unit \<Rightarrow> (call_error + remote_result) \<times> unit" where
  "sample_shell queue cmd u =
     (Inr (case cmd of
        SqueueUser \<Rightarrow> answer queue
      | Sbatch _ _ _ _ \<Rightarrow> answer ''8''
      | Scancel _ \<Rightarrow> answer []
      | ShowConfig \<Rightarrow> answer ''ClusterName = cluster''
      | _ \<Rightarrow> \<lparr>rr_exited = 1, rr_stdout = [], rr_json = None\<rparr>), u)"

definition sample_env :: "string \<Rightarrow> unit environment" where
  "sample_env queue =
     \<lparr>env_shell = sample_shell queue, env_others = (\<lambda>_. []), env_clock = (\<lambda>_. (''t1'', ''t2'')), env_link = (\<lambda>_. Delivered)\<rparr>"

definition sample_queue :: string where
  "sample_queue = ''5|RUNNING|None|n1'' @ [CHR 0x0A] @ ''7|RUNNING|None|n2''"

definition sample_run_id :: string where "sample_run_id = ''cc-ray-0123abcd''"

definition sample_active :: json_object where
  "sample_active =
     obj_set (obj_set (obj_set (new_manifest ''job'' (JObj []) 1 sample_run_id [''run''] [(''run_dir'', JStr ''/d'')] ''cluster'' ''t0'')
       ''state'' (JStr ''ACTIVE'')) ''head_job_id'' (JStr ''5''))
       ''lanes'' (JArr [JObj [(''lane'', JInt 0), (''job_id'', JStr ''7'')]])"

definition sample_cluster :: "unit cluster" where
  "sample_cluster = \<lparr>cl_disk = Some sample_active, cl_log = [], cl_rest = ()\<rparr>"

abbreviation sample_scale :: "(op_error + scale_result) \<times> unit cluster" where
  "sample_scale \<equiv> scale_slurm_ray_run (cluster_run (sample_env sample_queue) ''/d'') (\<lambda>_. ''t'') ''/d'' sample_run_id 2 sample_cluster"

lemma sample_scale_eq:
  "fst sample_scale = Inr \<lparr>sc_target = 2, sc_previous = 1, sc_submitted = [''8''], sc_canceled = []\<rparr>"
  by code_simp

lemma scale_reaches_target_witness:
  "\<exists>m states w1 w2 sent. obj_get m ''run_id'' = JStr sample_run_id \<and>
     query_job_states (cluster_run (sample_env sample_queue) ''/d'')
       (string_of (obj_get m ''head_job_id'') # map lane_job_id (manifest_lanes m)) w1 = (Inr states, w2) \<and>
     cl_log (snd sample_scale) = cl_log w2 @ sent \<and>
     reconciled (manifest_lanes m) states 2 [''8''] [] (cl_disk (snd sample_scale)) sent \<and>
     length (filter (\<lambda>lane. \<exists>state. map_of states (lane_job_id lane) = Some state \<and> is_nonterminal state)
       (manifest_lanes m)) = 1"
proof -
  have "sample_scale = (Inr \<lparr>sc_target = 2, sc_previous = 1, sc_submitted = [''8''], sc_canceled = []\<rparr>, snd sample_scale)"
    by (metis sample_scale_eq prod.collapse)
  from scale_reaches_target [OF this] show ?thesis by fastforce
qed

lemma scale_accounts_for_every_job_witness:
  "lane_recorded_for (cl_disk (snd sample_scale)) ''8'' \<or> (\<exists>x. (Scancel ''8'', x) \<in> set (cl_log (snd sample_scale)))"
proof -
  have "sample_scale = (Inr \<lparr>sc_target = 2, sc_previous = 1, sc_submitted = [''8''], sc_canceled = []\<rparr>, snd sample_scale)"
    by (metis sample_scale_eq prod.collapse)
  from scale_accounts_for_every_job [OF this disjI1 [OF refl]] show ?thesis by simp
qed

abbreviation sample_stop :: "(op_error + stop_result) \<times> unit cluster" where
  "sample_stop \<equiv> stop_slurm_ray_run (cluster_run (sample_env sample_queue) ''/d'') ''/d'' sample_run_id sample_cluster"

lemma stop_fences_scale_in_flight_witness:
  "\<exists>r w p. add_lanes (cluster_run (sample_env sample_queue) ''/d'') (\<lambda>_. ''t'') ''/d'' sample_active ''5'' [1]
       (snd sample_stop, no_progress) = (r, (w, p)) \<and>
     lanes_of (cl_disk w) = lanes_of (cl_disk (snd sample_stop)) \<and>
     (\<forall>j \<in> set (pr_submitted p). \<exists>x. (Scancel j, x) \<in> set (cl_log w))"
proof -
  let ?add = "add_lanes (cluster_run (sample_env sample_queue) ''/d'') (\<lambda>_. ''t'') ''/d'' sample_active ''5'' [1]
    (snd sample_stop, no_progress)"
  have stopped: "(case fst sample_stop of Inr _ \<Rightarrow> True | _ \<Rightarrow> False) \<and> fst ?add = Inl SlurmRayOperationError" by code_simp
  then obtain res where res: "sample_stop = (Inr res, snd sample_stop)" by (cases sample_stop; cases "fst sample_stop") auto
  obtain r w p where r: "?add = (r, (w, p))" by (metis surj_pair)
  with stopped have "r \<noteq> Inl KeyboardInterrupt" by auto
  from stop_fences_scale_in_flight [OF res, of "snd sample_stop" "[]", OF _ r this] r show ?thesis by auto
qed

lemma stop_cancels_lanes_before_head_witness:
  "\<exists>sent. cl_log (snd (cancel_lanes_then_head (cluster_run (sample_env sample_queue) ''/d'') [''7''] [''5''] STOPPING sample_cluster)) =
     cl_log sample_cluster @ sent \<and> accepted_cancels sent = [''7'', ''5'']"
proof -
  let ?cancel = "cancel_lanes_then_head (cluster_run (sample_env sample_queue) ''/d'') [''7''] [''5''] STOPPING sample_cluster"
  have "fst ?cancel = Inr ()" by code_simp
  then have "?cancel = (Inr (), snd ?cancel)" by (metis prod.collapse)
  from stop_cancels_lanes_before_head [OF this] show ?thesis by auto
qed

lemma status_finalizes_only_dead_runs_witness:
  "\<exists>mutation rid expected answer.
     (StateModule mutation rid expected, answer) \<in>
       set (cl_log (snd (status_of_run (cluster_run (sample_env []) ''/d'') (\<lambda>_. None) ''/d'' sample_run_id sample_active sample_cluster))) \<and>
     expected = Some 0"
proof -
  let ?status = "status_of_run (cluster_run (sample_env []) ''/d'') (\<lambda>_. None) ''/d'' sample_run_id sample_active sample_cluster"
  have "list_ex (\<lambda>(cmd, _). case cmd of StateModule _ _ _ \<Rightarrow> True | _ \<Rightarrow> False) (cl_log (snd ?status))" by code_simp
  then obtain mutation rid expected answer where sent: "(StateModule mutation rid expected, answer) \<in> set (cl_log (snd ?status))"
    by (auto simp: list_ex_iff split: remote_command.splits)
  have "?status = (fst ?status, snd ?status)" by simp
  from status_finalizes_only_dead_runs [OF this] sent
  have "expected = Some (int_of_json (obj_get sample_active ''revision''))" by (fastforce simp: sample_cluster_def)
  moreover have "int_of_json (obj_get sample_active ''revision'') = 0" by code_simp
  ultimately show ?thesis using sent by auto
qed

end
