(* ===== verification/RayNode.thy ===== *)
theory RayNode
  imports SlurmJobs
begin

text \<open>
  \<^verbatim>\<open>client/slurm_cli/managed_ray/onnode/slurm_ray_runtime.py\<close>: what runs inside the allocations of a
  managed run. The Ray command lines, the waits, a lane's probe of its head, the restarts of a worker that
  lost a port, the head's supervision of the pipeline driver and the cleanup after it. The manifest file is
  that of \<open>RunManifest\<close>; Slurm, Ray, processes, clocks and the
  failures of the file system are parameters. A loop on the clock is a partial
  function: it has a value exactly when it returns.
\<close>

section \<open>Command lines\<close>

definition HEAD_PORT_NAMES :: "string list" where
  "HEAD_PORT_NAMES =
     [''gcs'', ''dashboard'', ''object_manager'', ''node_manager'', ''dashboard_agent_grpc'', ''dashboard_agent_http'',
      ''runtime_env_agent'', ''metrics_export'', ''ray_client_server'']"

definition WORKER_PORT_NAMES :: "string list" where
  "WORKER_PORT_NAMES =
     [''object_manager'', ''node_manager'', ''runtime_env_agent'', ''metrics_export'', ''dashboard_agent_grpc'',
      ''dashboard_agent_http'']"

definition RANDOM_WORKER_PORTS :: string where "RANDOM_WORKER_PORTS = ''0''"

definition resources_json :: "int \<Rightarrow> string" where
  "resources_json io_slots_per_node = ''{'' @ [CHR 0x22] @ ''curator_io'' @ [CHR 0x22] @ '': '' @ py_str_int io_slots_per_node @ ''}''"

definition optional_arguments :: "int option \<Rightarrow> string option \<Rightarrow> string list" where
  "optional_arguments num_cpus temp_dir =
     (case num_cpus of None \<Rightarrow> [] | Some n \<Rightarrow> [''--num-cpus'', py_str_int n]) @
     (case temp_dir of None \<Rightarrow> [] | Some d \<Rightarrow> [''--temp-dir'', d])"

definition ray_head_command ::
  "string \<Rightarrow> (string \<Rightarrow> int) \<Rightarrow> string option \<Rightarrow> int \<Rightarrow> int option \<Rightarrow> string list" where
  "ray_head_command head_node ports temp_dir io_slots_per_node num_cpus =
     [''ray'', ''start'', ''--head'', ''--block'',
      ''--node-ip-address'', head_node,
      ''--port'', py_str_int (ports ''gcs''),
      ''--object-manager-port'', py_str_int (ports ''object_manager''),
      ''--node-manager-port'', py_str_int (ports ''node_manager''),
      ''--runtime-env-agent-port'', py_str_int (ports ''runtime_env_agent''),
      ''--metrics-export-port'', py_str_int (ports ''metrics_export''),
      ''--dashboard-host'', ''127.0.0.1'',
      ''--dashboard-port'', py_str_int (ports ''dashboard''),
      ''--dashboard-agent-grpc-port'', py_str_int (ports ''dashboard_agent_grpc''),
      ''--dashboard-agent-listen-port'', py_str_int (ports ''dashboard_agent_http''),
      ''--ray-client-server-port'', py_str_int (ports ''ray_client_server''),
      ''--min-worker-port'', RANDOM_WORKER_PORTS,
      ''--max-worker-port'', RANDOM_WORKER_PORTS,
      ''--disable-usage-stats'',
      ''--resources'', resources_json io_slots_per_node] @
     optional_arguments num_cpus temp_dir"

definition ray_worker_command ::
  "string \<Rightarrow> string \<Rightarrow> (string \<Rightarrow> int) \<Rightarrow> string option \<Rightarrow> int \<Rightarrow> int option \<Rightarrow> string list" where
  "ray_worker_command hostname address ports temp_dir io_slots_per_node num_cpus =
     [''ray'', ''start'', ''--block'',
      ''--address'', address,
      ''--node-ip-address'', hostname,
      ''--object-manager-port'', py_str_int (ports ''object_manager''),
      ''--node-manager-port'', py_str_int (ports ''node_manager''),
      ''--runtime-env-agent-port'', py_str_int (ports ''runtime_env_agent''),
      ''--metrics-export-port'', py_str_int (ports ''metrics_export''),
      ''--dashboard-agent-grpc-port'', py_str_int (ports ''dashboard_agent_grpc''),
      ''--dashboard-agent-listen-port'', py_str_int (ports ''dashboard_agent_http''),
      ''--min-worker-port'', RANDOM_WORKER_PORTS,
      ''--max-worker-port'', RANDOM_WORKER_PORTS,
      ''--disable-usage-stats'',
      ''--resources'', resources_json io_slots_per_node] @
     optional_arguments num_cpus temp_dir"

text \<open>The value of \<^verbatim>\<open>SLURM_CPUS_PER_TASK\<close>, empty when it is not set.\<close>

definition allocated_cpus :: "string \<Rightarrow> int option" where
  "allocated_cpus raw =
     (if py_strip raw = [] then None
      else case py_int (py_strip raw) of
             None \<Rightarrow> None
           | Some cpus \<Rightarrow> if cpus \<le> 0 then None else Some cpus)"

section \<open>The node\<close>

text \<open>The log of a node: the runs of \<^verbatim>\<open>scancel\<close> with the jobs given to it and its exit status, \<open>None\<close> when running it
  raised, and the answers of \<^verbatim>\<open>squeue\<close>.\<close>

datatype node_event = ScancelRun "string list" "int option" | QueueAsked "(string \<times> string) list option"

record 'c node =
  nd_disk :: "json_object option"
  nd_log :: "node_event list"
  nd_rest :: 'c

text \<open>Whether the file system lets a call through: it may raise \<^verbatim>\<open>OSError\<close> before anything is written, as on
  opening, locking or reading, or after the file has been replaced, as on flushing the directory.\<close>

datatype file_access = FilesWork | FailsBefore | FailsAfter

record 'c node_env =
  ne_others :: "'c \<Rightarrow> manifest_call list"
  ne_files :: "'c \<Rightarrow> file_access"
  ne_utc :: "'c \<Rightarrow> string \<times> string"
  ne_squeue :: "'c \<Rightarrow> string option"
  ne_scancel :: "string list \<Rightarrow> 'c \<Rightarrow> int option \<times> 'c"
  ne_monotonic :: "'c \<Rightarrow> rat"
  ne_sleep :: "rat \<Rightarrow> 'c \<Rightarrow> 'c"
  ne_later :: "'c \<Rightarrow> 'c"

text \<open>Other clients may have mutated the file before a call reads it; \<open>ne_later\<close> is the passing of time in
  a call.\<close>

definition current_disk :: "'c node_env \<Rightarrow> 'c node \<Rightarrow> json_object option" where
  "current_disk env w = fold run_mutation (ne_others env (nd_rest w)) (nd_disk w)"

definition node_mutate :: "'c node_env \<Rightarrow> json_object \<Rightarrow> string \<Rightarrow> ('c node, state_error, json_object) stm" where
  "node_mutate env mutation run_id w =
     (case mutate_manifest mutation run_id None (fst (ne_utc env (nd_rest w))) (snd (ne_utc env (nd_rest w)))
             (current_disk env w) of
        (r, disk') \<Rightarrow>
          let (r', disk'') = (case ne_files env (nd_rest w) of
                FilesWork \<Rightarrow> (r, disk')
              | FailsBefore \<Rightarrow> (Inl StateOSError, current_disk env w)
              | FailsAfter \<Rightarrow> (rbind r (\<lambda>_. Inl StateOSError), disk'))
          in (r', w\<lparr>nd_disk := disk'', nd_rest := ne_later env (nd_rest w)\<rparr>))"

text \<open>\<^verbatim>\<open>manifest_lane_job_ids\<close> on the file as it is: no lanes when reading it raises \<^verbatim>\<open>OSError\<close>.\<close>

definition node_lane_job_ids :: "'c node_env \<Rightarrow> 'c node \<Rightarrow> string list \<times> 'c node" where
  "node_lane_job_ids env w =
     (if ne_files env (nd_rest w) = FailsBefore then [] else manifest_lane_job_ids (current_disk env w),
      w\<lparr>nd_disk := current_disk env w, nd_rest := ne_later env (nd_rest w)\<rparr>)"

definition node_scancel :: "'c node_env \<Rightarrow> string list \<Rightarrow> 'c node \<Rightarrow> 'c node" where
  "node_scancel env job_ids w =
     (case ne_scancel env job_ids (nd_rest w) of
        (status, c) \<Rightarrow> w\<lparr>nd_log := nd_log w @ [ScancelRun job_ids status], nd_rest := c\<rparr>)"

section \<open>Waiting\<close>

definition POLL_INTERVAL_SECONDS :: rat where "POLL_INTERVAL_SECONDS = 1"

datatype wait_error = WaitTimeout | FatalStartupError | WaitState state_error

text \<open>\<^verbatim>\<open>_poll_for\<close>: an attempt gives a value, \<open>None\<close>, or an exception that is tolerated or not.\<close>

partial_function (option) poll_for ::
  "'c node_env \<Rightarrow> ('c \<Rightarrow> (wait_error + 'a option) \<times> 'c) \<Rightarrow> (wait_error \<Rightarrow> bool) \<Rightarrow> rat \<Rightarrow> 'c \<Rightarrow>
   ((wait_error + 'a) \<times> 'c) option" where
  "poll_for env attempt tolerate deadline c =
     (if \<not> ne_monotonic env c < deadline then Some (Inl WaitTimeout, c)
      else case attempt c of
        (Inr (Some x), c') \<Rightarrow> Some (Inr x, c')
      | (Inr None, c') \<Rightarrow> poll_for env attempt tolerate deadline (ne_sleep env POLL_INTERVAL_SECONDS c')
      | (Inl e, c') \<Rightarrow>
          if tolerate e then poll_for env attempt tolerate deadline (ne_sleep env POLL_INTERVAL_SECONDS c')
          else Some (Inl e, c'))"

text \<open>The attempt of \<^verbatim>\<open>_wait_for_submitted_manifest\<close> on the file as it is.\<close>

definition submitted_manifest :: "string \<Rightarrow> json_object option \<Rightarrow> wait_error + json_object option" where
  "submitted_manifest run_id disk =
     (case read_manifest disk of
        Inl e \<Rightarrow> Inl (WaitState e)
      | Inr manifest \<Rightarrow>
          if obj_get manifest ''run_id'' \<noteq> JStr run_id then Inl FatalStartupError
          else case run_state_of manifest of
                 Inl e \<Rightarrow> Inl (WaitState e)
               | Inr state \<Rightarrow>
                   if state = SUBMITTING then Inr None
                   else if state \<noteq> STARTING then Inl FatalStartupError
                   else Inr (Some manifest))"

fun tolerated :: "wait_error \<Rightarrow> bool" where
  "tolerated (WaitState StateOSError) = True"
| "tolerated (WaitState StateValueError) = True"
| "tolerated (WaitState StateTypeError) = True"
| "tolerated _ = False"

text \<open>The attempt of \<^verbatim>\<open>_wait_for_bootstrap\<close>: \<open>text_of\<close> is Python's \<^verbatim>\<open>str\<close> of a decoded value.\<close>

definition matching_bootstrap :: "(json \<Rightarrow> string) \<Rightarrow> string \<Rightarrow> string \<Rightarrow> json_object option \<Rightarrow> wait_error + json_object option" where
  "matching_bootstrap text_of run_id head_job_id disk =
     (case disk of
        None \<Rightarrow> Inl (WaitState StateOSError)
      | Some bootstrap \<Rightarrow>
          if obj_get bootstrap ''run_id'' = JStr run_id \<and> text_of (obj_get bootstrap ''head_job_id'') = head_job_id
          then Inr (Some bootstrap) else Inr None)"

definition verified_head_job_id :: "json_object \<Rightarrow> string option \<Rightarrow> state_error + string" where
  "verified_head_job_id manifest actual =
     (case obj_get manifest ''head_job_id'' of
        JStr expected \<Rightarrow>
          (case actual of
             Some a \<Rightarrow> if expected \<noteq> a then Inl StateRuntimeError else Inr expected
           | None \<Rightarrow> Inr expected)
      | _ \<Rightarrow> Inl StateRuntimeError)"

definition bootstrap_record :: "string \<Rightarrow> string \<Rightarrow> string \<Rightarrow> (string \<times> int) list \<Rightarrow> string \<Rightarrow> json_object" where
  "bootstrap_record run_id head_job_id address ports now =
     [(''schema_version'', JInt 1), (''run_id'', JStr run_id), (''head_job_id'', JStr head_job_id),
      (''ray_address'', JStr address), (''ports'', JObj (map (\<lambda>(name, port). (name, JInt port)) ports)),
      (''created_at'', JStr now)]"

section \<open>The queue as a node sees it\<close>

definition queue_line :: "(string \<times> string) list \<Rightarrow> string \<Rightarrow> (string \<times> string) list" where
  "queue_line states line =
     (case py_partition (CHR ''|'') (py_strip line) of (reported_id, separator, state) \<Rightarrow>
        if \<not> separator then states
        else
          let job_id = base_job_id reported_id; normalized = normalize_slurm_state state in
          case map_of states job_id of
            None \<Rightarrow> AList.update job_id normalized states
          | Some old \<Rightarrow>
              if slurm_state_rank normalized > slurm_state_rank old then AList.update job_id normalized states else states)"

definition node_queue :: "'c node_env \<Rightarrow> 'c \<Rightarrow> (string \<times> string) list option" where
  "node_queue env c = map_option (\<lambda>text. foldl queue_line [] (py_splitlines text)) (ne_squeue env c)"

partial_function (option) drain_loop ::
  "'c node_env \<Rightarrow> rat \<Rightarrow> string list \<Rightarrow> 'c node \<Rightarrow> (bool \<times> 'c node) option" where
  "drain_loop env deadline remaining w =
     (if remaining = [] \<or> \<not> ne_monotonic env (nd_rest w) < deadline then Some (remaining = [], w)
      else
        let queued = node_queue env (nd_rest w);
            remaining' = (case queued of None \<Rightarrow> remaining | Some states \<Rightarrow> filter (\<lambda>j. j \<in> fst ` set states) remaining);
            c = ne_later env (nd_rest w)
        in drain_loop env deadline remaining'
             (w\<lparr>nd_log := nd_log w @ [QueueAsked queued],
                nd_rest := (if remaining' \<noteq> [] then ne_sleep env POLL_INTERVAL_SECONDS c else c)\<rparr>))"

definition wait_for_lanes_to_drain :: "'c node_env \<Rightarrow> string list \<Rightarrow> rat \<Rightarrow> 'c node \<Rightarrow> (bool \<times> 'c node) option" where
  "wait_for_lanes_to_drain env job_ids timeout_seconds w =
     drain_loop env (ne_monotonic env (nd_rest w) + timeout_seconds) job_ids w"

definition HEAD_PROBE_ATTEMPTS :: nat where "HEAD_PROBE_ATTEMPTS = 5"
definition HEAD_PROBE_RETRY_SECONDS :: rat where "HEAD_PROBE_RETRY_SECONDS = 15"

text \<open>The attempts a lane has left to probe its head: the exit status.\<close>

fun probe_attempts :: "'c node_env \<Rightarrow> string \<Rightarrow> nat \<Rightarrow> 'c \<Rightarrow> int \<times> 'c" where
  "probe_attempts env job_id 0 c = (1, c)"
| "probe_attempts env job_id (Suc n) c =
     (case node_queue env c of
        Some queued \<Rightarrow>
          (case map_of queued job_id of
             Some state \<Rightarrow> (if state \<in> set ACTIVE_HEAD_SLURM_STATES then 0 else 1, ne_later env c)
           | None \<Rightarrow> (1, ne_later env c))
      | None \<Rightarrow>
          probe_attempts env job_id n
            (if n > 0 then ne_sleep env HEAD_PROBE_RETRY_SECONDS (ne_later env c) else ne_later env c))"

definition run_probe_head :: "'c node_env \<Rightarrow> string \<Rightarrow> 'c \<Rightarrow> int \<times> 'c" where
  "run_probe_head env job_id c = probe_attempts env job_id HEAD_PROBE_ATTEMPTS c"

section \<open>Starting a worker\<close>

definition contains :: "string \<Rightarrow> string \<Rightarrow> bool" where
  "contains marker text \<longleftrightarrow> list_ex (\<lambda>i. take (length marker) (drop i text) = marker) [0..<Suc (length text)]"

definition PORT_TAKEN_MARKERS :: "string list" where
  "PORT_TAKEN_MARKERS = [''address already in use'', ''address in use'', ''failed to bind'']"

definition RAY_LOG_TAIL_BYTES :: int where "RAY_LOG_TAIL_BYTES = 64 * 1024"

definition py_lower :: "string \<Rightarrow> string" where
  "py_lower s = map (\<lambda>c. if is_upper c then char_of (ascii c + 32) else c) s"

text \<open>A log of the session: its path, and its modification time and contents, \<open>None\<close> where reading it
  raises \<^verbatim>\<open>OSError\<close>.\<close>

type_synonym ray_log = "string \<times> (rat \<times> string) option"

definition log_fingerprints :: "ray_log list \<Rightarrow> (string \<times> (rat \<times> int)) list" where
  "log_fingerprints logs =
     List.map_filter (\<lambda>(path, stat). map_option (\<lambda>(mtime, text). (path, (mtime, int (length text)))) stat) logs"

definition log_blames_port :: "(string \<times> (rat \<times> int)) list \<Rightarrow> ray_log \<Rightarrow> bool" where
  "log_blames_port earlier entry =
     (case entry of
        (path, None) \<Rightarrow> False
      | (path, Some (mtime, text)) \<Rightarrow>
          let tail = py_lower (drop (nat (max 0 (int (length text) - RAY_LOG_TAIL_BYTES))) text) in
          map_of (rev earlier) path \<noteq> Some (mtime, int (length text)) \<and>
          list_ex (\<lambda>marker. contains marker tail) PORT_TAKEN_MARKERS)"

definition port_taken_in_ray_logs :: "ray_log list \<Rightarrow> (string \<times> (rat \<times> int)) list \<Rightarrow> bool" where
  "port_taken_in_ray_logs logs earlier = list_ex (log_blames_port earlier) logs"

definition WORKER_START_ATTEMPTS :: nat where "WORKER_START_ATTEMPTS = 3"

text \<open>What \<^verbatim>\<open>_run_streaming\<close> reports of the lines a command printed.\<close>

definition streamed_port_taken :: "string list \<Rightarrow> bool" where
  "streamed_port_taken lines =
     list_ex (\<lambda>line. list_ex (\<lambda>marker. contains marker (py_lower line)) PORT_TAKEN_MARKERS) lines"

text \<open>The attempts left: \<open>logs\<close> reads the session's logs, \<open>start\<close> runs a command until it ends and gives its
  exit status and the lines it printed, \<open>reserve\<close> draws fresh ports.\<close>

fun worker_attempts ::
  "('c \<Rightarrow> ray_log list) \<Rightarrow> (string list \<Rightarrow> 'c \<Rightarrow> (int \<times> string list) \<times> 'c) \<Rightarrow> ('c \<Rightarrow> (string \<Rightarrow> int) \<times> 'c) \<Rightarrow>
   ((string \<Rightarrow> int) \<Rightarrow> string list) \<Rightarrow> nat \<Rightarrow> 'c \<Rightarrow> int option \<times> 'c" where
  "worker_attempts logs start reserve command 0 c = (None, c)"
| "worker_attempts logs start reserve command (Suc n) c =
     (case reserve c of (ports, c1) \<Rightarrow>
        let earlier = log_fingerprints (logs c1) in
        case start (command ports) c1 of ((returncode, lines), c2) \<Rightarrow>
          let port_taken = streamed_port_taken lines \<or> port_taken_in_ray_logs (logs c2) earlier in
          if returncode = 0 \<or> \<not> port_taken then (Some returncode, c2)
          else if n = 0 then (Some returncode, c2)
          else worker_attempts logs start reserve command n c2)"

definition start_worker_ray where
  "start_worker_ray logs start reserve hostname address temp_dir io_slots_per_node cpus c =
     worker_attempts logs start reserve
       (\<lambda>ports. ray_worker_command hostname address ports temp_dir io_slots_per_node (allocated_cpus cpus))
       WORKER_START_ATTEMPTS c"

section \<open>The head\<close>

definition TERMINATED_STATUS :: int where "TERMINATED_STATUS = 143"

text \<open>\<^verbatim>\<open>_supervise_head\<close> from the moment Ray has compute resources: whether a stop signal has come, and a
  driver that runs to its end and says whether Ray died under it.\<close>

definition supervise_driver ::
  "'c node_env \<Rightarrow> ('c node \<Rightarrow> bool) \<Rightarrow> ('c node \<Rightarrow> (int \<times> bool) \<times> 'c node) \<Rightarrow> string \<Rightarrow> string \<Rightarrow>
   ('c node, state_error, int) stm" where
  "supervise_driver env stop_signal driver head_error run_id w =
     (if stop_signal w then (Inr TERMINATED_STATUS, w)
      else
        sbind (node_mutate env [(''operation'', JStr ''activate'')] run_id) (\<lambda>m.
        if run_state_of m \<noteq> Inr ACTIVE then sreturn TERMINATED_STATUS
        else (\<lambda>w1. case driver w1 of ((status, head_exited), w2) \<Rightarrow>
          (if head_exited then
             sbind (node_mutate env [(''operation'', JStr ''record-failure''), (''exit_status'', JInt status),
                      (''error'', JStr head_error)] run_id) (\<lambda>_. sreturn 1)
           else
             sbind (node_mutate env [(''operation'', JStr ''record-driver-exit''), (''exit_status'', JInt status)] run_id) (\<lambda>_.
             sreturn status)) w2)) w)"

text \<open>\<^verbatim>\<open>_run_head\<close>: an exception of the supervision is recorded as the run's failure.\<close>

definition run_head ::
  "'c node_env \<Rightarrow> (state_error \<Rightarrow> string) \<Rightarrow> ('c node, state_error, int) stm \<Rightarrow> string \<Rightarrow> 'c node \<Rightarrow> int \<times> 'c node" where
  "run_head env describe supervise run_id w =
     (case supervise w of
        (Inr status, w') \<Rightarrow> (status, w')
      | (Inl e, w') \<Rightarrow>
          (1, snd (node_mutate env [(''operation'', JStr ''record-failure''), (''error'', JStr (describe e))] run_id w')))"

section \<open>Cleanup\<close>

definition LANE_DRAIN_TIMEOUT_SECONDS :: rat where "LANE_DRAIN_TIMEOUT_SECONDS = 180"

definition cleanup_outcome :: string where
  "cleanup_outcome = ''Head job exited before recording a terminal outcome''"

text \<open>Whatever \<open>begin-teardown\<close> raises of \<^verbatim>\<open>OSError\<close>, \<^verbatim>\<open>TypeError\<close>, \<^verbatim>\<open>ValueError\<close> and \<^verbatim>\<open>RuntimeError\<close> is suppressed,
  and these are all it can raise.\<close>

definition cancel_recorded_lanes :: "'c node_env \<Rightarrow> string \<Rightarrow> 'c node \<Rightarrow> string list \<times> 'c node" where
  "cancel_recorded_lanes env run_id w =
     (let w1 = snd (node_mutate env [(''operation'', JStr ''begin-teardown''), (''error'', JStr cleanup_outcome)] run_id w);
          (lane_job_ids, w2) = node_lane_job_ids env w1
      in (lane_job_ids, if lane_job_ids \<noteq> [] then node_scancel env lane_job_ids w2 else w2))"

definition run_cleanup :: "'c node_env \<Rightarrow> string \<Rightarrow> 'c node \<Rightarrow> ((state_error + int) \<times> 'c node) option" where
  "run_cleanup env run_id w =
     (case cancel_recorded_lanes env run_id w of (lane_job_ids, w1) \<Rightarrow>
        case wait_for_lanes_to_drain env lane_job_ids LANE_DRAIN_TIMEOUT_SECONDS w1 of
          None \<Rightarrow> None
        | Some (drained, w2) \<Rightarrow>
            if \<not> drained then Some (Inr 1, w2)
            else Some (sbind (node_mutate env [(''operation'', JStr ''finalize''), (''fallback_error'', JStr cleanup_outcome)] run_id)
                         (\<lambda>_. sreturn 0) w2))"

end
