(* ===== verification/RayRuns.thy ===== *)
theory RayRuns
  imports RayNode SlurmCluster
begin

text \<open>
  Properties of the on-node runtime of \<open>RayNode\<close> against the manifest of \<open>RunManifest\<close>: when the cleanup of a
  head reports success the run has ended and all of its lanes were cancelled, and it always returns when the
  clock advances.
\<close>

section \<open>The calls of the cleanup\<close>

lemma validate_manifest_typed:
  assumes "validate_manifest m = Inr m" "run_state_of m' = Inr s" "is_int (obj_get m' ''revision'')"
    and "or_none is_str (obj_get m' ''error'')"
    and "\<And>k. k \<in> {''schema_version'', ''run_id'', ''job_name'', ''slurm_cluster_name'',
      ''lane_allocations'', ''runtime_paths'', ''lanes'', ''head_job_id'', ''pipeline_exit_status''} \<Longrightarrow>
      obj_get m' k = obj_get m k"
  shows "validate_manifest m' = Inr m'"
proof -
  have "is_str (obj_get m' ''state'')"
    using assms(2) by (cases "obj_get m' ''state''") (simp_all add: run_state_of_def)
  with assms show ?thesis
    by (auto simp: validate_manifest_def Let_def required_types_def result_simps)
qed

lemma begin_teardown_fences:
  assumes valid: "validate_manifest m = Inr m" and rid: "obj_get m ''run_id'' = JStr run_id" and e: "e \<noteq> []"
  shows "fenced (snd (mutate_manifest [(''operation'', JStr ''begin-teardown''), (''error'', JStr e)] run_id None now now' (Some m)))"
proof -
  let ?mu = "[(''operation'', JStr ''begin-teardown''), (''error'', JStr e)]"
  obtain s where s: "run_state_of m = Inr s" using valid_manifestD(2) [OF valid] by blast
  have called: "apply_manifest_mutation m ?mu now = begin_teardown m ?mu now"
    by (simp add: apply_manifest_mutation_def MANIFEST_MUTATORS_def obj_get_def)
  show ?thesis
  proof (cases "STOPPING \<le> s")
    case True
    then have "apply_manifest_mutation m ?mu now = Inr m"
      using s terminal_iff_after_stopping [of s] unfolding called by (auto simp: begin_teardown_def)
    then have "mutate_manifest ?mu run_id None now now' (Some m) = (Inr m, Some m)"
      using valid rid by (simp add: mutate_manifest_def rguard_def)
    with s True show ?thesis by (simp add: fenced_def)
  next
    case False
    let ?m1 = "obj_set (obj_set m ''error'' (JStr e)) ''state'' (JStr ''STOPPING'')"
    let ?m2 = "obj_set (obj_set ?m1 ''revision'' (JInt (int_of_json (obj_get m ''revision'') + 1))) ''updated_at'' (JStr now')"
    have "required_string ?mu ''error'' = Inr (JStr e)" using e by (simp add: required_string_def nonempty_str_def obj_get_def)
    then have "apply_manifest_mutation m ?mu now = Inr ?m1"
      using s False not_terminal_iff [of s] stopping_allowed [of s] unfolding called
      by (auto simp: begin_teardown_def move_to_eq not_le)
    moreover have "dumps_sorted (JObj ?m1) \<noteq> dumps_sorted (JObj m)"
    proof
      assume "dumps_sorted (JObj ?m1) = dumps_sorted (JObj m)"
      from dumps_sorted_get [OF this, of "''state''"] s False show False
        by (cases s) (auto simp: run_state_of_def state_named_eq_Some run_state_order split: json.splits option.splits)
    qed
    moreover have st: "run_state_of ?m2 = Inr STOPPING" using state_named_name [of STOPPING] by simp
    moreover have "validate_manifest ?m2 = Inr ?m2"
      by (rule validate_manifest_typed [OF valid st]) (auto simp: or_none_def)
    ultimately have "mutate_manifest ?mu run_id None now now' (Some m) = (Inr ?m2, Some ?m2)"
      using valid rid by (simp add: mutate_manifest_def rguard_def Let_def)
    with st show ?thesis by (simp add: fenced_def)
  qed
qed

lemma finalize_ends:
  assumes "mutate_manifest [(''operation'', JStr ''finalize''), (''fallback_error'', e)] run_id expected now now' d = (Inr v, disk)"
  obtains m s where "disk = Some m" "run_state_of m = Inr s" "STOPPING < s"
proof -
  obtain m where m: "d = Some m" using assms by (cases d) (auto simp: mutate_manifest_def)
  from mutate_manifest_Inr [OF assms [unfolded m]] obtain m1 where valid: "validate_manifest m = Inr m"
    and m1: "apply_manifest_mutation m [(''operation'', JStr ''finalize''), (''fallback_error'', e)] now = Inr m1"
    and out: "dumps_sorted (JObj m1) = dumps_sorted (JObj m) \<and> disk = Some m \<or>
      disk = Some v \<and> v = obj_set (obj_set m1 ''revision'' (JInt (int_of_json (obj_get m1 ''revision'') + 1))) ''updated_at'' (JStr now')"
    by metis
  obtain s where s: "run_state_of m = Inr s" using valid_manifestD(2) [OF valid] by blast
  from m1 have fin: "finalize m [(''operation'', JStr ''finalize''), (''fallback_error'', e)] now = Inr m1"
    by (simp add: apply_manifest_mutation_def MANIFEST_MUTATORS_def obj_get_def)
  have "\<exists>s'. run_state_of m1 = Inr s' \<and> STOPPING < s'"
  proof (cases "s \<le> STOPPING")
    case False
    with fin s not_terminal_iff [of s] show ?thesis by (auto simp: finalize_def)
  next
    case True
    let ?expected = "if s = STOPPING then outcome (view_of m) else None"
    from fin s True obtain target m2 where chosen: "(case ?expected of
                Some target \<Rightarrow> Inr (target, m)
              | None \<Rightarrow>
                  let fallback_error = obj_get [(''operation'', JStr ''finalize''), (''fallback_error'', e)] ''fallback_error'' in
                  if \<not> nonempty_str fallback_error then Inl StateRuntimeError
                  else Inr (FAILED, obj_set m ''error'' fallback_error)) = Inr (target, m2)"
      and moved: "rbind (transition_run_state m2 target) (\<lambda>(moved, m').
           if moved \<and> target = STOPPED then Inr (obj_set m' ''stopped_at'' (JStr now)) else Inr m') = Inr m1"
      using not_terminal_iff [of s] expected_terminal_eq [OF s True]
      by (auto simp: finalize_def result_simps)
    have t: "target \<in> {SUCCEEDED, FAILED, STOPPED}" "run_state_of m2 = Inr s"
      using chosen s by (auto simp: Let_def outcome_def split: option.splits if_splits)
    note t = t moved
    have end_t: "STOPPING < target" using t(1) terminal_iff_after_stopping [of target] by simp
    have "transition_run_state m2 target = Inr (True, obj_set m2 ''state'' (JStr (state_name target)))"
    proof -
      have "\<exists>q. transition_run_state m2 target = Inr q" using t(3) by (auto simp: result_simps)
      then show ?thesis using t(1,2) not_terminal_iff [of s] True
        by (auto simp: transition_run_state_def run_state_order split: if_splits)
    qed
    with t(3) end_t show ?thesis by (auto simp del: state_name.simps split: if_splits)
  qed
  then obtain s' where s': "run_state_of m1 = Inr s'" "STOPPING < s'" by blast
  from out show ?thesis
  proof
    assume same: "dumps_sorted (JObj m1) = dumps_sorted (JObj m) \<and> disk = Some m"
    from dumps_sorted_get [OF conjunct1 [OF this], of "''state''"] s s' have "s = s'"
      by (auto simp: run_state_of_def state_named_eq_Some split: json.splits option.splits)
    with same s s' that show ?thesis by blast
  next
    assume "disk = Some v \<and> v = obj_set (obj_set m1 ''revision'' (JInt (int_of_json (obj_get m1 ''revision'') + 1))) ''updated_at'' (JStr now')"
    with s' that show ?thesis by auto
  qed
qed

lemma valid_lane_job_ids:
  assumes "validate_manifest m = Inr m"
  shows "manifest_lane_job_ids (Some m) = map lane_job_id (manifest_lanes m)"
proof -
  obtain xs where xs: "obj_get m ''lanes'' = JArr xs" using valid_manifestD(4) [OF assms]
    by (cases "obj_get m ''lanes''") auto
  then have "map_of m ''lanes'' = Some (JArr xs)" by (auto simp: obj_get_def split: option.splits)
  moreover have "\<forall>lane \<in> set xs. is_dict lane \<and> is_str (obj_get (dict_of lane) ''job_id'')"
    using valid_manifestD(7) [OF assms] xs by (auto simp: valid_lane_def nonempty_str_def)
  ultimately show ?thesis
    by (simp add: manifest_lane_job_ids_def manifest_lanes_def xs lane_job_id_def)
qed

text \<open>A file that is valid for the run after some calls was so before them.\<close>

definition serves :: "string \<Rightarrow> json_object option \<Rightarrow> bool" where
  "serves run_id disk \<longleftrightarrow> (\<exists>m. disk = Some m \<and> validate_manifest m = Inr m \<and> obj_get m ''run_id'' = JStr run_id)"

lemma serves_before:
  assumes "serves run_id (fold run_mutation calls disk)"
  shows "serves run_id disk"
proof (cases disk)
  case None
  with assms calls_None show ?thesis by (simp add: serves_def)
next
  case (Some m)
  obtain m' where m': "fold run_mutation calls (Some m) = Some m'" using run_mutations_steps by blast
  from run_mutations_cases [OF this] assms Some m' show ?thesis by (auto simp: serves_def)
qed

lemma mutate_serves: "mutate_manifest mutation run_id expected now now' disk = (Inr v, disk') \<Longrightarrow> serves run_id disk"
  by (cases disk) (auto simp: mutate_manifest_def serves_def result_simps Let_def
      dest: valid_manifestD(1) split: sum.splits)

lemma snd_mutate: "snd (mutate_manifest mutation run_id None now now' disk) = run_mutation (mutation, run_id, None, now, now') disk"
  by (simp add: run_mutation_def)

lemma node_mutate_disk:
  "ne_files env (nd_rest w) \<noteq> FailsBefore \<Longrightarrow>
   nd_disk (snd (node_mutate env mutation run_id w)) =
   snd (mutate_manifest mutation run_id None (fst (ne_utc env (nd_rest w))) (snd (ne_utc env (nd_rest w))) (current_disk env w))"
  by (cases "ne_files env (nd_rest w)") (auto simp: node_mutate_def split: prod.split)

lemma node_mutate_log [simp]: "nd_log (snd (node_mutate env mutation run_id w)) = nd_log w"
  and node_mutate_rest [simp]: "nd_rest (snd (node_mutate env mutation run_id w)) = ne_later env (nd_rest w)"
  by (auto simp: node_mutate_def Let_def split: prod.split)

text \<open>A mutation that returns was made, whatever others did before it.\<close>

lemma node_mutate_Inr:
  assumes "node_mutate env mutation run_id w = (Inr v, w')"
  obtains others now now' where
    "mutate_manifest mutation run_id None now now' (fold run_mutation others (nd_disk w)) = (Inr v, nd_disk w')"
    "nd_log w' = nd_log w"
  using assms
  by (cases "ne_files env (nd_rest w)")
    (auto simp: node_mutate_def current_disk_def Let_def rbind_eq_Inr split: prod.splits)

text \<open>What a wait for the queue has seen: it only asks, and when it reports the lanes drained, each of them was
  missing from an answer.\<close>

definition seen_gone :: "node_event list \<Rightarrow> string \<Rightarrow> bool" where
  "seen_gone asked job_id \<longleftrightarrow> (\<exists>states. QueueAsked (Some states) \<in> set asked \<and> job_id \<notin> fst ` set states)"

lemma drain_loop_seen:
  "drain_loop env deadline remaining w = Some r \<Longrightarrow>
   nd_disk (snd r) = nd_disk w \<and>
   (\<exists>asked. nd_log (snd r) = nd_log w @ asked \<and> (fst r \<longrightarrow> (\<forall>j \<in> set remaining. seen_gone asked j)))"
proof (induction rule: drain_loop.raw_induct [rotated 1, consumes 1, case_names step])
  case (step loop env deadline remaining w r)
  show ?case
  proof (cases "remaining = [] \<or> \<not> ne_monotonic env (nd_rest w) < deadline")
    case True
    with step(2) have "r = (remaining = [], w)" by simp
    then show ?thesis by auto
  next
    case False
    let ?queued = "node_queue env (nd_rest w)"
    let ?rest = "case ?queued of None \<Rightarrow> remaining | Some states \<Rightarrow> filter (\<lambda>j. j \<in> fst ` set states) remaining"
    obtain c where "loop env deadline ?rest (w\<lparr>nd_log := nd_log w @ [QueueAsked ?queued], nd_rest := c\<rparr>) = Some r"
      using step(2) False by (auto simp: Let_def)
    from step(1) [OF this] obtain asked where asked: "nd_disk (snd r) = nd_disk w"
      "nd_log (snd r) = nd_log w @ QueueAsked ?queued # asked" "fst r \<longrightarrow> (\<forall>j \<in> set ?rest. seen_gone asked j)"
      by auto
    have "seen_gone (QueueAsked ?queued # asked) j" if "fst r" "j \<in> set remaining" for j
    proof (cases "j \<in> set ?rest")
      case True
      with asked(3) that show ?thesis by (auto simp: seen_gone_def)
    next
      case False
      with that(2) show ?thesis by (auto simp: seen_gone_def split: option.splits)
    qed
    with asked(1,2) show ?thesis by auto
  qed
qed

section \<open>Properties\<close>

text \<open>C21: When the cleanup of a head reports success the run is over for good: whatever other clients did
  meanwhile, the manifest is in a terminal state. And unless the file system kept it from opening the teardown
  or from reading the lanes, which it ignores, none of the run's jobs was forgotten: every lane that the
  manifest records, also one recorded by a scale that raced with the cleanup, was given to a run of \<^verbatim>\<open>scancel\<close>, and after
  it \<^verbatim>\<open>squeue\<close> has given an answer in which its job was missing.\<close>

theorem cleanup_ends_run:
  assumes "run_cleanup env run_id w = Some (Inr 0, w')"
  shows "\<exists>m s. nd_disk w' = Some m \<and> run_state_of m = Inr s \<and> s \<in> {SUCCEEDED, FAILED, STOPPED} \<and>
    (ne_files env (nd_rest w) \<noteq> FailsBefore \<and> ne_files env (ne_later env (nd_rest w)) \<noteq> FailsBefore \<longrightarrow>
     (\<forall>lane \<in> set (manifest_lanes m). \<exists>job_ids status asked.
        nd_log w' = nd_log w @ ScancelRun job_ids status # asked \<and> lane_job_id lane \<in> set job_ids \<and>
        seen_gone asked (lane_job_id lane)))"
proof -
  let ?opening = "[(''operation'', JStr ''begin-teardown''), (''error'', JStr cleanup_outcome)]"
  let ?finalize = "[(''operation'', JStr ''finalize''), (''fallback_error'', JStr cleanup_outcome)]"
  let ?w0 = "snd (node_mutate env ?opening run_id w)"
  obtain ids w1 where w1: "cancel_recorded_lanes env run_id w = (ids, w1)" by fastforce
  from assms w1 obtain w2 v where wait: "wait_for_lanes_to_drain env ids LANE_DRAIN_TIMEOUT_SECONDS w1 = Some (True, w2)"
    and fin: "node_mutate env ?finalize run_id w2 = (Inr v, w')"
    by (auto simp: run_cleanup_def sbind_Pair_Inr sreturn_Pair split: option.splits if_splits)
  from drain_loop_seen [OF wait [unfolded wait_for_lanes_to_drain_def]] obtain asked where d2: "nd_disk w2 = nd_disk w1"
    and asked: "nd_log w2 = nd_log w1 @ asked" "\<forall>j \<in> set ids. seen_gone asked j" by auto
  from node_mutate_Inr [OF fin] obtain others now now' where
    call: "mutate_manifest ?finalize run_id None now now' (fold run_mutation others (nd_disk w1)) = (Inr v, nd_disk w')"
    and log: "nd_log w' = nd_log w2" unfolding d2 .
  from finalize_ends [OF call] obtain m s where m: "nd_disk w' = Some m" "run_state_of m = Inr s" "STOPPING < s" by metis
  have "\<exists>job_ids status asked. nd_log w' = nd_log w @ ScancelRun job_ids status # asked \<and> lane_job_id lane \<in> set job_ids \<and>
      seen_gone asked (lane_job_id lane)"
    if opened: "ne_files env (nd_rest w) \<noteq> FailsBefore" "ne_files env (ne_later env (nd_rest w)) \<noteq> FailsBefore"
      and lane: "lane \<in> set (manifest_lanes m)" for lane
  proof -
    have d1: "nd_disk w1 = current_disk env ?w0" and ids: "ids = manifest_lane_job_ids (nd_disk w1)"
      and canceled: "ids \<noteq> [] \<longrightarrow> (\<exists>status. nd_log w1 = nd_log w @ [ScancelRun ids status])"
      using w1 opened(2) by (auto simp: cancel_recorded_lanes_def node_lane_job_ids_def node_scancel_def Let_def split: if_splits prod.splits)
    from serves_before [OF mutate_serves [OF call]] have served: "serves run_id (nd_disk w1)" .
    then have "serves run_id (nd_disk ?w0)" using serves_before d1 by (metis current_disk_def)
    moreover obtain now1 now1' where w0: "nd_disk ?w0 = snd (mutate_manifest ?opening run_id None now1 now1' (current_disk env w))"
      using node_mutate_disk [OF opened(1)] by blast
    ultimately have "serves run_id (current_disk env w)"
      using serves_before [of run_id "[(?opening, run_id, None, now1, now1')]"] by (simp add: snd_mutate)
    then have "fenced (nd_disk ?w0)" using begin_teardown_fences w0 by (auto simp: serves_def cleanup_outcome_def)
    then have fence: "fenced (nd_disk w1)" using fenced_calls d1 by (metis current_disk_def)
    have "nd_disk w' = fold run_mutation (others @ [(?finalize, run_id, None, now, now')]) (nd_disk w1)"
      using call snd_mutate [of ?finalize run_id now now' "fold run_mutation others (nd_disk w1)"] by simp
    with fenced_calls [OF fence] have "lanes_of (nd_disk w') = lanes_of (nd_disk w1)" by metis
    moreover obtain m1 where m1: "nd_disk w1 = Some m1" "validate_manifest m1 = Inr m1" using served by (auto simp: serves_def)
    ultimately have "manifest_lanes m = manifest_lanes m1" using m(1) by (simp add: lanes_of_def)
    with lane ids valid_lane_job_ids [OF m1(2)] m1(1) have "lane_job_id lane \<in> set ids" by simp
    with asked canceled log show ?thesis by fastforce
  qed
  moreover have "s \<in> {SUCCEEDED, FAILED, STOPPED}" using m(3) terminal_iff_after_stopping by blast
  ultimately show ?thesis using m(1,2) by (intro exI [of _ m] exI [of _ s]) simp
qed

lemma drain_loop_returns:
  assumes clock: "\<And>c. ne_monotonic env c + 1 \<le> ne_monotonic env (ne_sleep env 1 c)"
    "\<And>c. ne_monotonic env c \<le> ne_monotonic env (ne_later env c)"
  shows "deadline - ne_monotonic env (nd_rest w) \<le> of_nat n \<Longrightarrow> \<exists>r. drain_loop env deadline remaining w = Some r"
proof (induction n arbitrary: w remaining)
  case 0
  then show ?case by (subst drain_loop.simps) auto
next
  case (Suc n)
  let ?c = "nd_rest w"
  let ?remaining = "case node_queue env ?c of None \<Rightarrow> remaining | Some queued \<Rightarrow> filter (\<lambda>j. j \<in> fst ` set queued) remaining"
  have "\<exists>r. drain_loop env deadline ?remaining (w\<lparr>nd_log := nd_log w @ [QueueAsked (node_queue env ?c)],
      nd_rest := if ?remaining \<noteq> [] then ne_sleep env POLL_INTERVAL_SECONDS (ne_later env ?c) else ne_later env ?c\<rparr>) = Some r"
  proof (cases "?remaining = []")
    case True
    then show ?thesis by (subst drain_loop.simps) auto
  next
    case False
    let ?w = "w\<lparr>nd_log := nd_log w @ [QueueAsked (node_queue env ?c)], nd_rest := ne_sleep env 1 (ne_later env ?c)\<rparr>"
    have "deadline - ne_monotonic env (nd_rest ?w) \<le> of_nat n"
      using Suc.prems clock(1) [of "ne_later env ?c"] clock(2) [of ?c] by simp
    from Suc.IH [OF this] False show ?thesis by (simp add: POLL_INTERVAL_SECONDS_def)
  qed
  then show ?case by (subst drain_loop.simps) (simp add: Let_def)
qed

text \<open>C22: The cleanup returns: when a sleep of one second advances the clock by at least that and no call
  sets it back, its wait for the lanes ends by its timeout, whatever Slurm answers.\<close>

theorem cleanup_returns:
  assumes "\<And>c. ne_monotonic env c + 1 \<le> ne_monotonic env (ne_sleep env 1 c)"
    and "\<And>c. ne_monotonic env c \<le> ne_monotonic env (ne_later env c)"
  shows "\<exists>r. run_cleanup env run_id w = Some r"
proof -
  obtain ids w1 where w1: "cancel_recorded_lanes env run_id w = (ids, w1)" by fastforce
  have "\<exists>r. wait_for_lanes_to_drain env ids LANE_DRAIN_TIMEOUT_SECONDS w1 = Some r"
    unfolding wait_for_lanes_to_drain_def
    by (rule drain_loop_returns [OF assms, of _ _ 180]) (simp_all add: LANE_DRAIN_TIMEOUT_SECONDS_def)
  with w1 show ?thesis by (auto simp: run_cleanup_def Let_def)
qed

text \<open>The loop over a worker's attempts never falls through.\<close>

lemma worker_attempts_return: "0 < n \<Longrightarrow> \<exists>status c'. worker_attempts logs start reserve command n c = (Some status, c')"
  by (induction n arbitrary: c) (auto simp: Let_def split: prod.splits)

lemma start_worker_ray_returns:
  "\<exists>status c'. start_worker_ray logs start reserve hostname address temp_dir slots cpus c = (Some status, c')"
  unfolding start_worker_ray_def by (rule worker_attempts_return) (simp add: WORKER_START_ATTEMPTS_def)

section \<open>A small node\<close>

text \<open>A node with a clock that only sleeping and the passing of time in a call advance and a queue that is empty
  after eight seconds.\<close>

definition sample_node_env :: "rat node_env" where
  "sample_node_env =
     \<lparr>ne_others = (\<lambda>_. []), ne_files = (\<lambda>_. FilesWork), ne_utc = (\<lambda>_. (''t1'', ''t2'')),
      ne_squeue = (\<lambda>c. if c < 8 then Some ''7|RUNNING'' else Some []), ne_scancel = (\<lambda>_ c. (Some 0, c)),
      ne_monotonic = (\<lambda>c. c), ne_sleep = (\<lambda>d c. c + d), ne_later = (\<lambda>c. c + 1)\<rparr>"

definition sample_node :: "rat node" where
  "sample_node = \<lparr>nd_disk = Some sample_active, nd_log = [], nd_rest = 4\<rparr>"

lemma cleanup_returns_witness: "\<exists>r. run_cleanup sample_node_env sample_run_id sample_node = Some r"
  by (rule cleanup_returns) (simp_all add: sample_node_env_def)

abbreviation sample_lanes_canceled :: "rat node_env \<Rightarrow> string list \<times> rat node" where
  "sample_lanes_canceled env \<equiv> cancel_recorded_lanes env sample_run_id sample_node"

abbreviation sample_finalize :: "rat node_env \<Rightarrow> rat node \<Rightarrow> (state_error + json_object) \<times> rat node" where
  "sample_finalize env \<equiv> node_mutate env [(''operation'', JStr ''finalize''), (''fallback_error'', JStr cleanup_outcome)] sample_run_id"

definition sample_lanes_of :: "(state_error + json_object) \<times> rat node \<Rightarrow> string list option" where
  "sample_lanes_of result =
     (case fst result of Inl e \<Rightarrow> None | Inr v \<Rightarrow> Some (map lane_job_id (lanes_of (nd_disk (snd result)))))"

lemma sample_drain:
  assumes "nd_rest w = 6"
  shows "wait_for_lanes_to_drain sample_node_env [''7''] LANE_DRAIN_TIMEOUT_SECONDS w =
    Some (True, w\<lparr>nd_log := nd_log w @ [QueueAsked (Some [(''7'', ''RUNNING'')]), QueueAsked (Some [])], nd_rest := 9\<rparr>)"
proof -
  have asked: "node_queue sample_node_env 6 = Some [(''7'', ''RUNNING'')]" "node_queue sample_node_env 8 = Some []"
    by code_simp+
  have fields: "ne_monotonic sample_node_env c = c" "ne_later sample_node_env c = c + 1" "ne_sleep sample_node_env d c = c + d" for c d
    by (simp_all add: sample_node_env_def)
  have gone: "drain_loop sample_node_env 186 [] v = Some (True, v)" for v by (simp add: drain_loop.simps)
  have last: "drain_loop sample_node_env 186 [''7''] v = Some (True, v\<lparr>nd_log := nd_log v @ [QueueAsked (Some [])], nd_rest := 9\<rparr>)"
    if "nd_rest v = 8" for v
    using that by (subst drain_loop.simps) (simp add: asked fields gone)
  show ?thesis
    unfolding wait_for_lanes_to_drain_def
    by (subst drain_loop.simps) (simp add: assms asked fields last LANE_DRAIN_TIMEOUT_SECONDS_def POLL_INTERVAL_SECONDS_def)
qed

lemma sample_cleanup:
  "\<exists>w. run_cleanup sample_node_env sample_run_id sample_node = Some (Inr 0, w) \<and> map lane_job_id (lanes_of (nd_disk w)) = [''7'']"
proof -
  have w1: "sample_lanes_canceled sample_node_env = ([''7''], snd (sample_lanes_canceled sample_node_env))"
    "nd_rest (snd (sample_lanes_canceled sample_node_env)) = 6"
    by code_simp+
  let ?w2 = "(snd (sample_lanes_canceled sample_node_env))\<lparr>nd_log := nd_log (snd (sample_lanes_canceled sample_node_env)) @
    [QueueAsked (Some [(''7'', ''RUNNING'')]), QueueAsked (Some [])], nd_rest := 9\<rparr>"
  have "sample_lanes_of (sample_finalize sample_node_env ?w2) = Some [''7'']" by code_simp
  then obtain v w where "sample_finalize sample_node_env ?w2 = (Inr v, w)" "map lane_job_id (lanes_of (nd_disk w)) = [''7'']"
    by (cases "sample_finalize sample_node_env ?w2") (auto simp: sample_lanes_of_def split: sum.splits)
  then show ?thesis
    unfolding run_cleanup_def by (subst w1(1)) (simp add: sample_drain [OF w1(2)] sbind_def sreturn_def)
qed

lemma cleanup_ends_run_witness:
  "\<exists>w m s job_ids status asked. run_cleanup sample_node_env sample_run_id sample_node = Some (Inr 0, w) \<and>
     nd_disk w = Some m \<and> run_state_of m = Inr s \<and> s \<in> {SUCCEEDED, FAILED, STOPPED} \<and>
     nd_log w = ScancelRun job_ids status # asked \<and> ''7'' \<in> set job_ids \<and> seen_gone asked ''7''"
proof -
  from sample_cleanup obtain w where w: "run_cleanup sample_node_env sample_run_id sample_node = Some (Inr 0, w)"
    "map lane_job_id (lanes_of (nd_disk w)) = [''7'']" by (elim exE conjE) (rule that)
  have "ne_files sample_node_env c \<noteq> FailsBefore" for c by (simp add: sample_node_env_def)
  then have "ne_files sample_node_env (nd_rest sample_node) \<noteq> FailsBefore \<and>
      ne_files sample_node_env (ne_later sample_node_env (nd_rest sample_node)) \<noteq> FailsBefore" by simp
  with cleanup_ends_run [OF w(1)] obtain m s where m: "nd_disk w = Some m" "run_state_of m = Inr s" "s \<in> {SUCCEEDED, FAILED, STOPPED}"
    and canceled: "\<forall>lane \<in> set (manifest_lanes m). \<exists>job_ids status asked. nd_log w = nd_log sample_node @ ScancelRun job_ids status # asked \<and>
      lane_job_id lane \<in> set job_ids \<and> seen_gone asked (lane_job_id lane)"
    by (elim exE conjE impE, intro conjI) (assumption | rule that)+
  from w(2) m(1) obtain lane where "lane \<in> set (manifest_lanes m)" "lane_job_id lane = ''7''" by (auto simp: lanes_of_def)
  with canceled obtain job_ids status asked where "nd_log w = ScancelRun job_ids status # asked" "''7'' \<in> set job_ids" "seen_gone asked ''7''"
    by (auto simp: sample_node_def)
  with w(1) m show ?thesis by (intro exI conjI)
qed

text \<open>The read that fails: the cleanup reports success, and has ended the run, although a lane of the manifest was
  never cancelled and nothing was asked of the queue.\<close>

definition sample_unreadable_env :: "rat node_env" where
  "sample_unreadable_env = sample_node_env\<lparr>ne_files := (\<lambda>c. if c = 5 then FailsBefore else FilesWork)\<rparr>"

lemma unreadable_manifest_forgets_lanes:
  "\<exists>w. run_cleanup sample_unreadable_env sample_run_id sample_node = Some (Inr 0, w) \<and>
     map lane_job_id (lanes_of (nd_disk w)) = [''7''] \<and> nd_log w = []"
proof -
  have w1: "sample_lanes_canceled sample_unreadable_env = ([], snd (sample_lanes_canceled sample_unreadable_env))"
    "nd_log (snd (sample_lanes_canceled sample_unreadable_env)) = []"
    by code_simp+
  let ?w1 = "snd (sample_lanes_canceled sample_unreadable_env)"
  have "sample_lanes_of (sample_finalize sample_unreadable_env ?w1) = Some [''7'']" by code_simp
  then obtain v w where w: "sample_finalize sample_unreadable_env ?w1 = (Inr v, w)" "map lane_job_id (lanes_of (nd_disk w)) = [''7'']"
    by (cases "sample_finalize sample_unreadable_env ?w1") (auto simp: sample_lanes_of_def split: sum.splits)
  have "nd_log w = []" using w(1) w1(2) node_mutate_log [of sample_unreadable_env _ sample_run_id ?w1] by (metis snd_conv)
  with w show ?thesis
    unfolding run_cleanup_def
    by (subst w1(1)) (simp add: wait_for_lanes_to_drain_def drain_loop.simps [of _ _ "[]"] sbind_def sreturn_def)
qed

end
