(* ===== verification/WaterFill.thy ===== *)
theory WaterFill
  imports NumpyArrays PyText "HOL-Library.List_Lexorder" "HOL-Library.Product_Lexorder" "HOL-Library.Multiset"
begin

text \<open>
  The water fill of \<^verbatim>\<open>next/recipes/curation/fairness.py\<close>: one tier of groups with capacities shares a target
  by integer max-min, and a seeded digest decides who gets the remainder. Capacities are NumPy \<^verbatim>\<open>int64\<close>
  arrays, whose sums wrap. The BLAKE2b digest is a parameter of the model.
\<close>

section \<open>The order of the remainder\<close>

text \<open>\<open>digest\<close> is \<open>hashlib.blake2b(_, digest_size=16)\<close>; ranks are computed from the sorted digests, a tie
  falls back to the key.\<close>

definition digest_input :: "int \<Rightarrow> string \<Rightarrow> string" where
  "digest_input seed key = py_str_int seed @ ''|'' @ key"

definition residual_ranks :: "(string \<Rightarrow> string) \<Rightarrow> string list \<Rightarrow> int \<Rightarrow> int list" where
  "residual_ranks digest keys seed =
     (let digests = map (\<lambda>key. digest (digest_input seed key)) keys;
          order = sort_key (\<lambda>index. (digests ! index, keys ! index)) [0..<length keys]
      in foldl (\<lambda>ranks (index, rank). ranks[index := int rank]) (replicate (length keys) 0)
           (zip order [0..<length keys]))"

section \<open>The water fill\<close>

definition saturated_sum :: "int list \<Rightarrow> int list \<Rightarrow> int \<Rightarrow> int" where
  "saturated_sum capacity_sorted prefix_sums fill_line =
     (let below_count = searchsorted_left capacity_sorted fill_line;
          below_total = (if below_count > 0 then prefix_sums ! (below_count - 1) else 0)
      in below_total + fill_line * (int (length capacity_sorted) - int below_count))"

function fill_loop :: "(int \<Rightarrow> int) \<Rightarrow> int \<Rightarrow> int \<Rightarrow> int \<Rightarrow> int" where
  "fill_loop saturated demand low high =
     (if low < high then
        let mid = (low + high + 1) div 2
        in if saturated mid \<le> demand then fill_loop saturated demand mid high
           else fill_loop saturated demand low (mid - 1)
      else low)"
  by pat_completeness auto
termination
  by (relation "measure (\<lambda>(_, _, low, high). nat (high - low))") auto

declare fill_loop.simps [simp del]

definition water_fill :: "int list \<Rightarrow> int \<Rightarrow> int list \<Rightarrow> int list" where
  "water_fill capacity target residual_order =
     (let n_groups = length capacity in
      if n_groups = 0 then []
      else
        let total = np_sum capacity;
            demand = max 0 (min target total)
        in if demand = 0 then replicate n_groups 0
           else if demand = total then capacity
           else
             let capacity_sorted = sort capacity;
                 prefix_sums = np_cumsum capacity_sorted;
                 fill_line = fill_loop (saturated_sum capacity_sorted prefix_sums) demand 0 (last capacity_sorted);
                 quota = map (\<lambda>c. min c fill_line) capacity;
                 remainder = demand - np_sum quota
             in if remainder > 0 then
                  let active = filter (\<lambda>i. capacity ! i > fill_line) [0..<n_groups];
                      active = sort_key (\<lambda>i. residual_order ! i) active
                  in foldl (\<lambda>q i. q[i := q ! i + 1]) quota (take (nat remainder) active)
                else quota)"

section \<open>The fill line\<close>

text \<open>The capacities below a level: what a tier hands out when the line stands there.\<close>

definition level_sum :: "int list \<Rightarrow> int \<Rightarrow> int" where
  "level_sum xs l = sum_list (map (\<lambda>c. min c l) xs)"

definition fits_i64 :: "int list \<Rightarrow> bool" where
  "fits_i64 xs \<longleftrightarrow> (\<forall>x \<in> set xs. 0 \<le> x) \<and> sum_list xs < 2 ^ 63"

lemma np_sum_fits: "fits_i64 xs \<Longrightarrow> np_sum xs = sum_list xs"
  by (simp add: np_sum_def fits_i64_def wrap_i64_id is_i64_def sum_list_nonneg order_trans [of _ 0])

lemma np_cumsum_from_nth:
  assumes "0 \<le> acc" "\<forall>x \<in> set xs. 0 \<le> x" "acc + sum_list xs < 2 ^ 63" "i < length xs"
  shows "np_cumsum_from acc xs ! i = acc + sum_list (take (Suc i) xs)"
  using assms
proof (induction xs arbitrary: acc i)
  case (Cons x xs)
  have "0 \<le> sum_list xs" using Cons.prems(2) by (auto intro: sum_list_nonneg)
  then have s: "wrap_i64 (acc + x) = acc + x"
    using Cons.prems by (intro wrap_i64_id) (auto simp: is_i64_def)
  show ?case
  proof (cases i)
    case (Suc j)
    then show ?thesis using Cons.prems Cons.IH [of "acc + x" j] s by (auto simp: Let_def)
  qed (simp add: s Let_def)
qed simp

lemma level_sum_flat: "\<forall>x \<in> set xs. l \<le> x \<Longrightarrow> level_sum xs l = l * int (length xs)"
  by (induction xs) (auto simp: level_sum_def algebra_simps)

lemma level_sum_split:
  "sorted xs \<Longrightarrow> level_sum xs l = sum_list (takeWhile (\<lambda>x. x < l) xs) + l * (int (length xs) - int (length (takeWhile (\<lambda>x. x < l) xs)))"
proof (induction xs)
  case (Cons x xs)
  show ?case
  proof (cases "x < l")
    case False
    with Cons.prems have "\<forall>y \<in> set (x # xs). l \<le> y" by auto
    from level_sum_flat [OF this] False show ?thesis by simp
  qed (use Cons in \<open>simp add: level_sum_def\<close>)
qed (simp add: level_sum_def)

lemma saturated_sum_eq:
  assumes "sorted cs" "fits_i64 cs"
  shows "saturated_sum cs (np_cumsum cs) l = level_sum cs l"
proof -
  let ?below = "takeWhile (\<lambda>x. x < l) cs"
  have "np_cumsum cs ! (length ?below - 1) = sum_list ?below" if "?below \<noteq> []"
  proof -
    have "length ?below - 1 < length cs" using that length_takeWhile_le [of "\<lambda>x. x < l" cs] by (cases cs) auto
    with assms(2) have "np_cumsum cs ! (length ?below - 1) = sum_list (take (Suc (length ?below - 1)) cs)"
      using np_cumsum_from_nth [of 0 cs "length ?below - 1"] by (simp add: np_cumsum_def fits_i64_def)
    also have "take (Suc (length ?below - 1)) cs = ?below"
      using that by (simp add: takeWhile_eq_take [of _ cs, symmetric])
    finally show ?thesis .
  qed
  then show ?thesis
    unfolding saturated_sum_def searchsorted_left_def Let_def level_sum_split [OF assms(1)] by auto
qed

lemma level_sum_mono: "l \<le> m \<Longrightarrow> level_sum xs l \<le> level_sum xs m"
  unfolding level_sum_def by (intro sum_list_mono) auto

lemma level_sum_mset: "mset xs = mset ys \<Longrightarrow> level_sum xs l = level_sum ys l"
  unfolding level_sum_def by (metis mset_map sum_mset_sum_list)

lemma level_sum_full: "\<forall>x \<in> set xs. x \<le> l \<Longrightarrow> level_sum xs l = sum_list xs"
  by (induction xs) (auto simp: level_sum_def)

lemma level_sum_Suc: "level_sum xs (l + 1) = level_sum xs l + int (length (filter (\<lambda>c. l < c) xs))"
  by (induction xs) (auto simp: level_sum_def)

text \<open>The binary search returns a level that keeps at most the demand while the next one keeps more.\<close>

lemma fill_loop_line:
  assumes "low \<le> high" "saturated low \<le> demand" "demand < saturated (high + 1)"
  shows "saturated (fill_loop saturated demand low high) \<le> demand \<and>
    demand < saturated (fill_loop saturated demand low high + 1) \<and> low \<le> fill_loop saturated demand low high"
  using assms
proof (induction saturated demand low high rule: fill_loop.induct)
  case (1 saturated demand low high)
  let ?mid = "(low + high + 1) div 2"
  show ?case
  proof (cases "low < high")
    case True
    then have mid: "low \<le> ?mid - 1" "?mid \<le> high" by auto
    show ?thesis
    proof (cases "saturated ?mid \<le> demand")
      case True
      with 1(1) [OF \<open>low < high\<close> refl True] 1 mid show ?thesis
        by (subst (1 2 3) fill_loop.simps) (auto simp: Let_def)
    next
      case False
      with 1(2) [OF \<open>low < high\<close> refl False] 1 mid show ?thesis
        by (subst (1 2 3) fill_loop.simps) (auto simp: Let_def)
    qed
  next
    case False
    then show ?thesis using 1 by (subst (1 2 3) fill_loop.simps) auto
  qed
qed

text \<open>Handing one row to each of several distinct groups.\<close>

lemma length_hand_out [simp]: "length (foldl (\<lambda>q i. q[i := q ! i + 1]) q is) = length (q :: int list)"
  by (induction "is" arbitrary: q) auto

lemma nth_hand_out:
  "distinct is \<Longrightarrow> set is \<subseteq> {..<length q} \<Longrightarrow> i < length q \<Longrightarrow>
     foldl (\<lambda>q i. q[i := q ! i + 1]) q is ! i = q ! i + (if i \<in> set is then 1 else (0 :: int))"
proof (induction "is" arbitrary: q)
  case (Cons j js)
  then show ?case using Cons.IH [of "q[j := q ! j + 1]"] by (auto simp: nth_list_update)
qed simp

lemma sum_list_bump: "i < length q \<Longrightarrow> sum_list (q[i := q ! i + 1]) = sum_list q + (1 :: int)"
  by (induction q arbitrary: i) (auto split: nat.splits)

lemma sum_hand_out:
  "set is \<subseteq> {..<length q} \<Longrightarrow> sum_list (foldl (\<lambda>q i. q[i := q ! i + 1]) q is) = sum_list q + int (length is)"
  by (induction "is" arbitrary: q) (auto simp: sum_list_bump)

section \<open>The allocation of a tier\<close>

text \<open>\<open>filled l\<close>: every group has its capacity below the line \<open>l\<close>, and some above it one more.\<close>

definition filled :: "int \<Rightarrow> int list \<Rightarrow> int list \<Rightarrow> bool" where
  "filled l capacity quota \<longleftrightarrow> 0 \<le> l \<and> length quota = length capacity \<and>
     (\<forall>i < length capacity. quota ! i = min (capacity ! i) l \<or> l < capacity ! i \<and> quota ! i = l + 1)"

definition by_rank :: "int list \<Rightarrow> int list \<Rightarrow> int list \<Rightarrow> bool" where
  "by_rank rank capacity quota \<longleftrightarrow>
     (\<forall>i < length capacity. \<forall>j < length capacity. quota ! i < capacity ! i \<and> quota ! i < quota ! j \<longrightarrow> rank ! j \<le> rank ! i)"

lemma level_sum_nonneg: "fits_i64 xs \<Longrightarrow> 0 \<le> l \<Longrightarrow> 0 \<le> level_sum xs l \<and> level_sum xs l \<le> sum_list xs"
  unfolding level_sum_def fits_i64_def
  by (auto intro!: sum_list_nonneg sum_list_mono [of xs "\<lambda>c. min c l" "\<lambda>c. c", simplified])

lemma sort_prefix_least:
  assumes "i \<in> set (take k (sort_key f xs))" "j \<in> set xs" "j \<notin> set (take k (sort_key f xs))"
  shows "f i \<le> f j"
proof -
  let ?s = "sort_key f xs"
  have "j \<in> set (drop k ?s)"
    using assms(2,3) by (metis Un_iff append_take_drop_id set_append set_sort)
  moreover have "sorted (map f (take k ?s) @ map f (drop k ?s))"
    by (simp flip: map_append)
  ultimately show ?thesis using assms(1) by (auto simp: sorted_append)
qed

lemma sorted_le_last: "sorted xs \<Longrightarrow> x \<in> set xs \<Longrightarrow> x \<le> last xs"
  by (induction xs rule: rev_induct) (auto simp: sorted_append)

lemma fits_i64_sort [simp]: "fits_i64 (sort xs) = fits_i64 xs"
  unfolding fits_i64_def by (metis mset_sort set_sort sum_mset_sum_list)

lemma fill_line_exists:
  assumes fits: "fits_i64 capacity" and target: "0 < target" "target < sum_list capacity"
    and l: "l = fill_loop (saturated_sum (sort capacity) (np_cumsum (sort capacity))) target 0 (last (sort capacity))"
  shows "0 \<le> l \<and> level_sum capacity l \<le> target \<and> target < level_sum capacity (l + 1)"
proof -
  let ?sorted = "sort capacity"
  have nonempty: "capacity \<noteq> []" using target by auto
  have sat: "saturated_sum ?sorted (np_cumsum ?sorted) m = level_sum capacity m" for m
    using fits by (subst saturated_sum_eq) (auto intro: level_sum_mset)
  have "\<forall>x \<in> set capacity. x \<le> last ?sorted" using sorted_le_last [of ?sorted] by simp
  then have "target < level_sum capacity (last ?sorted + 1)"
    using target by (subst level_sum_full) (auto simp: order.trans)
  moreover have "level_sum capacity 0 = 0"
    using fits by (simp add: level_sum_flat fits_i64_def)
  moreover have "0 \<le> last ?sorted"
  proof -
    have "?sorted \<noteq> []" using nonempty by (metis length_0_conv length_sort)
    then have "last ?sorted \<in> set capacity" using last_in_set [of ?sorted] by simp
    then show ?thesis using fits by (simp add: fits_i64_def)
  qed
  ultimately show ?thesis
    unfolding l using target fill_loop_line [of 0 "last ?sorted" "saturated_sum ?sorted (np_cumsum ?sorted)" target] by (auto simp: sat)
qed

lemma water_fill_filled:
  assumes fits: "fits_i64 capacity" and target: "0 < target" "target < sum_list capacity"
  shows "\<exists>l. filled l capacity (water_fill capacity target rank) \<and> by_rank rank capacity (water_fill capacity target rank) \<and>
    sum_list (water_fill capacity target rank) = target"
proof -
  let ?n = "length capacity"
  define l where "l = fill_loop (saturated_sum (sort capacity) (np_cumsum (sort capacity))) target 0 (last (sort capacity))"
  define quota where "quota = map (\<lambda>c. min c l) capacity"
  define active where "active = filter (\<lambda>i. capacity ! i > l) [0..<?n]"
  define winners where "winners = take (nat (target - level_sum capacity l)) (sort_key (\<lambda>i. rank ! i) active)"
  let ?q = "foldl (\<lambda>q i. q[i := q ! i + 1]) quota winners"
  have nonempty: "capacity \<noteq> []" using target by auto
  have line: "0 \<le> l" "level_sum capacity l \<le> target" "target < level_sum capacity (l + 1)"
    using fill_line_exists [OF fits target l_def] by auto
  have sum: "sum_list quota = level_sum capacity l" by (simp add: quota_def level_sum_def)
  have "fits_i64 quota"
    using fits line(1) level_sum_nonneg [OF fits line(1)] sum by (auto simp: fits_i64_def quota_def)
  then have np: "np_sum quota = level_sum capacity l" using sum np_sum_fits by simp
  have eq: "water_fill capacity target rank = ?q"
    using nonempty target line(2) np_sum_fits [OF fits] np
    by (auto simp: water_fill_def Let_def l_def [symmetric] quota_def [symmetric] active_def [symmetric] winners_def)
  have "length active = length (filter (\<lambda>c. l < c) capacity)"
    unfolding active_def by (metis (mono_tags, lifting) filter_map length_map map_nth comp_apply filter_cong)
  then have "nat (target - level_sum capacity l) \<le> length active"
    using line(3) level_sum_Suc [of capacity l] by simp
  then have enough: "int (length winners) = target - level_sum capacity l"
    using line(2) by (simp add: winners_def min.absorb2)
  have winners: "distinct winners" "set winners \<subseteq> set active"
    unfolding winners_def active_def by (auto simp: distinct_take dest: in_set_takeD)
  then have range: "set winners \<subseteq> {..<length quota}" by (auto simp: active_def quota_def)
  have nth: "?q ! i = min (capacity ! i) l + (if i \<in> set winners then 1 else 0)" if "i < ?n" for i
    using that nth_hand_out [OF winners(1) range] by (simp add: quota_def)
  have "filled l capacity ?q"
    unfolding filled_def
  proof (intro conjI allI impI)
    fix i assume i: "i < ?n"
    show "?q ! i = min (capacity ! i) l \<or> l < capacity ! i \<and> ?q ! i = l + 1"
      unfolding nth [OF i] using winners(2) by (auto simp: active_def)
  qed (use line(1) in \<open>simp_all add: quota_def\<close>)
  moreover have "by_rank rank capacity ?q"
    unfolding by_rank_def
  proof (intro allI impI, elim conjE)
    fix i j assume ij: "i < ?n" "j < ?n" "?q ! i < capacity ! i" "?q ! i < ?q ! j"
    with nth have "i \<notin> set winners" "i \<in> set active" "j \<in> set winners"
      using winners(2) line(1) by (auto simp: active_def min_def split: if_splits)
    then show "rank ! j \<le> rank ! i" unfolding winners_def by (rule_tac sort_prefix_least)
  qed
  moreover have "sum_list ?q = target" using sum_hand_out [OF range] sum enough by simp
  ultimately show ?thesis unfolding eq by blast
qed

text \<open>The cases of the call: nothing asked for, everything asked for, or a fill line.\<close>

lemma water_fill_cases:
  assumes "fits_i64 capacity"
  shows "sum_list (water_fill capacity target rank) = max 0 (min target (sum_list capacity)) \<and>
    by_rank rank capacity (water_fill capacity target rank) \<and> (\<exists>l. filled l capacity (water_fill capacity target rank))"
proof -
  have total: "0 \<le> sum_list capacity" and nonneg: "\<forall>i < length capacity. 0 \<le> capacity ! i"
    using assms by (auto simp: fits_i64_def sum_list_nonneg)
  consider "target \<le> 0 \<or> sum_list capacity = 0" | "0 < sum_list capacity" "sum_list capacity \<le> target" | "0 < target" "target < sum_list capacity"
    using total by linarith
  then show ?thesis
  proof cases
    case 1
    then have eq: "water_fill capacity target rank = replicate (length capacity) 0"
      using total by (auto simp: water_fill_def Let_def np_sum_fits [OF assms])
    have "filled 0 capacity (replicate (length capacity) 0)" using nonneg by (simp add: filled_def)
    then show ?thesis using 1 total by (auto simp: eq by_rank_def sum_list_replicate)
  next
    case 2
    then have eq: "water_fill capacity target rank = capacity"
      by (auto simp: water_fill_def Let_def np_sum_fits [OF assms])
    have "\<forall>i < length capacity. capacity ! i \<le> sum_list capacity"
      using assms by (auto simp: fits_i64_def intro!: member_le_sum_list)
    then have "filled (sum_list capacity) capacity capacity" using total by (simp add: filled_def)
    then show ?thesis using 2 by (auto simp: eq by_rank_def)
  next
    case 3
    then show ?thesis using water_fill_filled [OF assms 3, of rank] by auto
  qed
qed

lemma filled_bounds:
  assumes "filled l capacity quota" "\<forall>i < length capacity. 0 \<le> capacity ! i" "i < length capacity"
  shows "0 \<le> quota ! i" "quota ! i \<le> capacity ! i"
  using assms by (force simp: filled_def)+

lemma level_sum_eq_sum: "level_sum xs m = (\<Sum>i < length xs. min (xs ! i) m)"
  by (simp add: level_sum_def sum_list_sum_nth atLeast0LessThan)

text \<open>Among all allocations of the same total within the capacities, a filled one is the most even: below
  every level it has at least as much.\<close>

lemma filled_most_even:
  assumes filled: "filled l capacity quota" and len: "length other = length capacity"
    and cap: "\<forall>i < length capacity. other ! i \<le> capacity ! i" and sum: "sum_list other = sum_list quota"
  shows "level_sum other m \<le> level_sum quota m"
proof (cases "m \<le> l")
  case True
  have "min (other ! i) m \<le> min (quota ! i) m" if "i < length capacity" for i
  proof -
    have "quota ! i = min (capacity ! i) l \<or> l < capacity ! i \<and> quota ! i = l + 1"
      using filled that by (simp add: filled_def)
    then show ?thesis using cap True that by fastforce
  qed
  then show ?thesis
    using filled len by (auto simp: level_sum_eq_sum filled_def intro!: sum_mono)
next
  case False
  have "\<forall>x \<in> set quota. x \<le> m"
    using filled False by (fastforce simp: filled_def in_set_conv_nth)
  then have "level_sum quota m = sum_list quota" by (rule level_sum_full)
  moreover have "level_sum other m \<le> sum_list other"
    unfolding level_sum_def using sum_list_mono [of other "\<lambda>c. min c m" "\<lambda>c. c"] by simp
  ultimately show ?thesis using sum by simp
qed

text \<open>The residual ranks number the keys in the order of their digests, wherever they stand in the list.\<close>

lemma residual_ranks_order:
  fixes digest :: "string \<Rightarrow> string" and seed :: int
  assumes "distinct keys" "i < length keys" "j < length keys"
  defines "rank \<equiv> residual_ranks digest keys seed"
  shows "rank ! i < rank ! j \<longleftrightarrow>
    (digest (digest_input seed (keys ! i)), keys ! i) < (digest (digest_input seed (keys ! j)), keys ! j)"
proof -
  let ?digests = "map (\<lambda>key. digest (digest_input seed key)) keys"
  let ?f = "\<lambda>index. (?digests ! index, keys ! index)"
  let ?order = "sort_key ?f [0..<length keys]"
  have order: "distinct ?order" "set ?order = {..<length keys}" "length ?order = length keys" by auto
  have rank: "rank ! (?order ! k) = int k" if "k < length keys" for k
    using that order scatter_nth [of ?order "replicate (length keys) 0" "[0..<length keys]" k int]
    by (simp add: rank_def residual_ranks_def Let_def)
  have "i \<in> set ?order" "j \<in> set ?order" using assms(2,3) by simp_all
  then obtain a b where ab: "a < length keys" "?order ! a = i" "b < length keys" "?order ! b = j"
    unfolding in_set_conv_nth order(3) by blast
  have mono: "?f (?order ! k) < ?f (?order ! m)" if "k < m" "m < length keys" for k m
  proof -
    have "sorted (map ?f ?order)" by simp
    from sorted_nth_mono [OF this, of k m] have "?f (?order ! k) \<le> ?f (?order ! m)"
      using that order(3) by simp
    moreover have "?order ! k \<noteq> ?order ! m" using that order(3) by (simp add: nth_eq_iff_index_eq [OF order(1)])
    moreover have "?order ! k \<in> {..<length keys}" "?order ! m \<in> {..<length keys}"
      using that order(2,3) nth_mem [of k ?order] nth_mem [of m ?order] by auto
    ultimately have "keys ! (?order ! k) \<noteq> keys ! (?order ! m)" and "?f (?order ! k) \<le> ?f (?order ! m)"
      by (simp_all add: nth_eq_iff_index_eq [OF assms(1)])
    then show ?thesis by (auto simp: less_le)
  qed
  have "a < b \<longleftrightarrow> ?f i < ?f j"
  proof (cases a b rule: linorder_cases)
    case less
    then show ?thesis using mono [OF less ab(3)] unfolding ab by simp
  next
    case greater
    then show ?thesis using mono [OF greater ab(1)] unfolding ab by (metis less_not_sym)
  qed (use ab in auto)
  moreover have "rank ! i = int a" "rank ! j = int b" using rank [OF ab(1)] rank [OF ab(3)] unfolding ab by simp_all
  ultimately show ?thesis using assms(2,3) by simp
qed

lemma length_residual_ranks [simp]: "length (residual_ranks digest keys seed) = length keys"
proof -
  have "length (foldl (\<lambda>ranks (index, rank). ranks[index := int rank]) rs ps) = length rs" for rs :: "int list" and ps
    by (induction ps arbitrary: rs) auto
  then show ?thesis by (simp add: residual_ranks_def Let_def)
qed

text \<open>C10: \<open>_water_fill\<close> hands out exactly the clamped target, within the capacities, a leftover row never to
  a group of a later rank while an unsaturated one of an earlier rank goes without; and no other allocation
  of the same total is more even: below every level the water fill has at least as much.\<close>
theorem water_fill_max_min:
  fixes target :: int and rank :: "int list"
  assumes "fits_i64 capacity"
  defines "quota \<equiv> water_fill capacity target rank"
  shows "length quota = length capacity \<and> sum_list quota = max 0 (min target (sum_list capacity)) \<and>
    (\<forall>i < length capacity. 0 \<le> quota ! i \<and> quota ! i \<le> capacity ! i) \<and>
    by_rank rank capacity quota \<and>
    (\<forall>other m. length other = length capacity \<and> (\<forall>i < length capacity. other ! i \<le> capacity ! i) \<and>
       sum_list other = sum_list quota \<longrightarrow> level_sum other m \<le> level_sum quota m)"
proof -
  from water_fill_cases [OF assms(1)] obtain l where
    l: "filled l capacity quota" and "sum_list quota = max 0 (min target (sum_list capacity))" "by_rank rank capacity quota"
    unfolding quota_def by blast
  moreover have "\<forall>i < length capacity. 0 \<le> capacity ! i" using assms(1) by (auto simp: fits_i64_def)
  ultimately show ?thesis
    using filled_bounds [OF l] filled_most_even [OF l] by (simp add: filled_def)
qed

lemma water_fill_max_min_witness:
  "water_fill [5, 2, 4, 1] 8 [3, 0, 1, 2] = [2, 2, 3, 1] \<and>
   (\<forall>m. level_sum [3, 2, 2, 1] m \<le> level_sum [2, 2, 3, 1] m)"
proof -
  have eq: "water_fill [5, 2, 4, 1] 8 [3, 0, 1, 2] = [2, 2, 3, 1]" by code_simp
  have fits: "fits_i64 [5, 2, 4, 1]" by (simp add: fits_i64_def)
  have "\<forall>i < length [5 :: int, 2, 4, 1]. [3 :: int, 2, 2, 1] ! i \<le> [5, 2, 4, 1] ! i"
    by (auto simp: less_Suc_eq numeral_eq_Suc)
  then show ?thesis
    using water_fill_max_min [OF fits, where target = 8 and rank = "[3, 0, 1, 2]"] eq by (auto simp: eq)
qed

end
