(* ===== verification/Fairness.thy ===== *)
theory Fairness
  imports WaterFill
begin

text \<open>
  The fairness quota of \<^verbatim>\<open>next/recipes/curation/fairness.py\<close>: survivors counted per (task, cell) group, the
  nested allocation of \<^verbatim>\<open>FairnessQuota\<close> over tasks and cells, the diagnosis of starved groups and the cut of
  each group against its quota. A table is the list of its rows; exceptions are their classes.
\<close>

datatype fairness_error = FairnessValueError | FairnessOverflowError

type_synonym level2_key = "string \<times> int"

section \<open>Building the quota\<close>

record fairness_quota =
  level1_keys :: "string list"
  level1_capacity :: "int list"
  level2_keys :: "level2_key list"
  level2_capacity :: "int list"
  target :: int
  residual_seed :: int

definition np_int64 :: "int list \<Rightarrow> fairness_error + int list" where
  "np_int64 xs = (if list_all is_i64 xs then Inr xs else Inl FairnessOverflowError)"

text \<open>Consecutive pairs of one parent are summed: the loop of \<open>build\<close>, and of the validation.\<close>

definition level1_step :: "string list \<times> int list \<Rightarrow> level2_key \<times> int \<Rightarrow> string list \<times> int list" where
  "level1_step acc pair =
     (case (acc, pair) of ((keys, caps), ((parent, child), c)) \<Rightarrow>
        if keys = [] \<or> last keys \<noteq> parent then (keys @ [parent], caps @ [c])
        else (keys, butlast caps @ [last caps + c]))"

definition level1_of :: "level2_key list \<Rightarrow> int list \<Rightarrow> string list \<times> int list" where
  "level1_of keys caps = foldl level1_step ([], []) (zip keys caps)"

definition validate_level1_slices :: "string list \<Rightarrow> int list \<Rightarrow> level2_key list \<Rightarrow> int list \<Rightarrow> fairness_error + unit" where
  "validate_level1_slices keys1 caps1 keys2 caps2 =
     (case level1_of keys2 caps2 of (derived_level1_keys, derived_level1_capacity) \<Rightarrow>
        if derived_level1_keys \<noteq> keys1 then Inl FairnessValueError
        else rbind (np_int64 derived_level1_capacity) (\<lambda>derived.
          if caps1 \<noteq> derived then Inl FairnessValueError else Inr ()))"

definition attrs_post_init :: "fairness_quota \<Rightarrow> fairness_error + fairness_quota" where
  "attrs_post_init q =
     (if length (level1_keys q) \<noteq> length (level1_capacity q) then Inl FairnessValueError
      else if length (level2_keys q) \<noteq> length (level2_capacity q) then Inl FairnessValueError
      else if target q < 0 then Inl FairnessValueError
      else if list_ex (\<lambda>(lower, upper). \<not> lower < upper) (zip (level1_keys q) (tl (level1_keys q))) then Inl FairnessValueError
      else if list_ex (\<lambda>(lower, upper). \<not> lower < upper) (zip (level2_keys q) (tl (level2_keys q))) then Inl FairnessValueError
      else if list_ex (\<lambda>c. c \<le> 0) (level2_capacity q) then Inl FairnessValueError
      else rbind (validate_level1_slices (level1_keys q) (level1_capacity q) (level2_keys q) (level2_capacity q))
        (\<lambda>_. Inr q))"

definition build :: "level2_key list \<Rightarrow> int list \<Rightarrow> int \<Rightarrow> int \<Rightarrow> fairness_error + fairness_quota" where
  "build keys counts tgt seed =
     (if length keys \<noteq> length counts then Inl FairnessValueError
      else if \<not> distinct keys then Inl FairnessValueError
      else if list_ex (\<lambda>c. c \<le> 0) counts then Inl FairnessValueError
      else
        let ordered = sort_key fst (zip keys counts);
            sorted_keys = map fst ordered
        in rbind (np_int64 (map snd ordered)) (\<lambda>sorted_caps.
             case level1_of sorted_keys sorted_caps of (keys1, caps1) \<Rightarrow>
               rbind (np_int64 caps1) (\<lambda>caps1.
                 attrs_post_init \<lparr>level1_keys = keys1, level1_capacity = caps1, level2_keys = sorted_keys,
                   level2_capacity = sorted_caps, target = tgt, residual_seed = seed\<rparr>)))"

section \<open>The nested allocation\<close>

definition pair_digest_keys :: "level2_key list \<Rightarrow> string list" where
  "pair_digest_keys pairs = map (\<lambda>(task, cell). py_str_int cell @ ''|'' @ task) pairs"

text \<open>The loop over the parents; \<open>keys\<close> and \<open>caps\<close> are the pairs from \<open>start\<close> on. The keys are distinct, so
  the dictionary is the list of its items.\<close>

fun quotas_loop :: "(string \<Rightarrow> string) \<Rightarrow> int \<Rightarrow> (string \<times> int) list \<Rightarrow> level2_key list \<Rightarrow> int list \<Rightarrow> (level2_key \<times> int) list" where
  "quotas_loop digest seed [] keys caps = []"
| "quotas_loop digest seed ((parent, quota) # parents) keys caps =
     (let children = takeWhile (\<lambda>pair. fst pair = parent) keys;
          child_quota = water_fill (take (length children) caps) quota (residual_ranks digest (pair_digest_keys children) seed)
      in zip children child_quota @
         quotas_loop digest seed parents (drop (length children) keys) (drop (length children) caps))"

definition quotas :: "(string \<Rightarrow> string) \<Rightarrow> fairness_quota \<Rightarrow> (level2_key \<times> int) list" where
  "quotas digest q =
     (let level1_quota = water_fill (level1_capacity q) (target q) (residual_ranks digest (level1_keys q) (residual_seed q))
      in quotas_loop digest (residual_seed q) (zip (level1_keys q) level1_quota) (level2_keys q) (level2_capacity q))"

text \<open>The count \<open>unfunded_groups\<close> returns, with the warning it logs.\<close>

datatype starvation = NoWarning | TargetBelowTasks int | DegenerateCells int

definition DEGENERATE_UNFUNDED_WARN_FACTOR :: int where "DEGENERATE_UNFUNDED_WARN_FACTOR = 5"

definition allocated_to :: "(level2_key \<times> int) list \<Rightarrow> string \<Rightarrow> int" where
  "allocated_to qs task = sum_list (map snd (filter (\<lambda>((t, _), _). t = task) qs))"

definition unfunded_groups :: "fairness_quota \<Rightarrow> (level2_key \<times> int) list \<Rightarrow> int \<times> starvation" where
  "unfunded_groups q qs =
     (let unfunded = int (length (filter (\<lambda>(_, n). n = 0) qs)) in
      if target q \<le> 0 then (unfunded, NoWarning)
      else
        let starved_tasks = int (length (filter (\<lambda>task. allocated_to qs task = 0) (level1_keys q)))
        in if starved_tasks > 0 then (unfunded, TargetBelowTasks starved_tasks)
           else if DEGENERATE_UNFUNDED_WARN_FACTOR * unfunded > int (length qs) then (unfunded, DegenerateCells unfunded)
           else (unfunded, NoWarning))"

section \<open>The groups of the allocation\<close>

text \<open>Runs of consecutive pairs with one parent. Both the derivation of level 1 and the nested loop walk
  these runs.\<close>

function parent_runs :: "(level2_key \<times> int) list \<Rightarrow> (string \<times> (level2_key \<times> int) list) list" where
  "parent_runs [] = []"
| "parent_runs (p # ps) =
     (fst (fst p), p # takeWhile (\<lambda>x. fst (fst x) = fst (fst p)) ps) #
     parent_runs (dropWhile (\<lambda>x. fst (fst x) = fst (fst p)) ps)"
  by pat_completeness auto
termination
  by (relation "measure length") (auto simp: le_imp_less_Suc length_dropWhile_le)

definition run_total :: "string \<times> (level2_key \<times> int) list \<Rightarrow> int" where
  "run_total g = sum_list (map snd (snd g))"

lemma foldl_level1_step:
  "foldl level1_step (ks @ [p], cs @ [c]) ps =
     (ks @ p # map fst (parent_runs (dropWhile (\<lambda>x. fst (fst x) = p) ps)),
      cs @ (c + sum_list (map snd (takeWhile (\<lambda>x. fst (fst x) = p) ps))) #
        map run_total (parent_runs (dropWhile (\<lambda>x. fst (fst x) = p) ps)))"
proof (induction ps arbitrary: ks p cs c)
  case (Cons x ps)
  obtain parent child n where x: "x = ((parent, child), n)" by (metis surj_pair)
  show ?case
  proof (cases "parent = p")
    case True
    then show ?thesis using Cons [of ks p cs "c + n"] x by (simp add: level1_step_def)
  next
    case False
    then show ?thesis using Cons [of "ks @ [p]" parent "cs @ [c]" n] x
      by (simp add: level1_step_def run_total_def)
  qed
qed simp

lemma level1_of_runs:
  assumes "length keys = length caps"
  shows "level1_of keys caps = (map fst (parent_runs (zip keys caps)), map run_total (parent_runs (zip keys caps)))"
proof (cases "zip keys caps")
  case (Cons p ps)
  obtain parent child n where p: "p = ((parent, child), n)" by (metis surj_pair)
  show ?thesis
    unfolding level1_of_def Cons using foldl_level1_step [of "[]" parent "[]" n ps] p
    by (simp add: level1_step_def run_total_def)
next
  case Nil
  then show ?thesis unfolding level1_of_def Nil by simp
qed

lemma concat_parent_runs: "concat (map snd (parent_runs ps)) = ps"
  by (induction ps rule: parent_runs.induct) simp_all

lemma parent_runs_member:
  "(p, items) \<in> set (parent_runs ps) \<Longrightarrow> items \<noteq> [] \<and> set items \<subseteq> set ps \<and> (\<forall>x \<in> set items. fst (fst x) = p)"
proof (induction ps arbitrary: p items rule: parent_runs.induct)
  case (2 x xs)
  let ?P = "\<lambda>y. fst (fst y) = fst (fst x)"
  have sub: "set (dropWhile ?P xs) \<subseteq> set xs" by (auto dest: set_dropWhileD)
  show ?case
  proof (cases "(p, items) \<in> set (parent_runs (dropWhile ?P xs))")
    case True
    then have "items \<noteq> [] \<and> set items \<subseteq> set (dropWhile ?P xs) \<and> (\<forall>y \<in> set items. fst (fst y) = p)" by (rule 2(1))
    then show ?thesis using sub by (meson order_trans set_subset_Cons)
  next
    case False
    then have "p = fst (fst x)" "items = x # takeWhile ?P xs" using 2(2) by auto
    then show ?thesis by (auto dest: set_takeWhileD)
  qed
qed simp

lemma sum_list_run_total: "sum_list (map run_total (parent_runs ps)) = sum_list (map snd ps)"
proof -
  have "sum_list (map snd (concat (map snd gs))) = sum_list (map run_total gs)"
    for gs :: "(string \<times> (level2_key \<times> int) list) list"
    by (induction gs) (auto simp: run_total_def)
  from this [of "parent_runs ps"] show ?thesis by (simp add: concat_parent_runs)
qed

text \<open>What one run receives from its parent's quota.\<close>

definition run_quota :: "(string \<Rightarrow> string) \<Rightarrow> int \<Rightarrow> (level2_key \<times> int) list \<Rightarrow> int \<Rightarrow> (level2_key \<times> int) list" where
  "run_quota digest seed items quota =
     zip (map fst items) (water_fill (map snd items) quota (residual_ranks digest (pair_digest_keys (map fst items)) seed))"

lemma quotas_loop_runs:
  "length qs = length (parent_runs ps) \<Longrightarrow>
   quotas_loop digest seed (zip (map fst (parent_runs ps)) qs) (map fst ps) (map snd ps) =
     concat (map2 (\<lambda>(_, items) quota. run_quota digest seed items quota) (parent_runs ps) qs)"
proof (induction ps arbitrary: qs rule: parent_runs.induct)
  case (2 p ps)
  from 2(2) obtain q qs' where qs: "qs = q # qs'" by (cases qs) auto
  let ?P = "\<lambda>x. fst (fst x) = fst (fst p)"
  have take: "takeWhile (\<lambda>pair. fst pair = fst (fst p)) (map fst (p # ps)) = map fst (p # takeWhile ?P ps)"
    by (simp add: takeWhile_map comp_def)
  have drop: "drop (length (takeWhile ?P ps)) ps = dropWhile ?P ps"
    by (simp add: dropWhile_eq_drop)
  show ?case
    using 2(1) [of qs'] 2(2) qs take
    by (simp add: run_quota_def Let_def take_map drop_map drop takeWhile_eq_take [symmetric])
qed simp

section \<open>What a built quota holds\<close>

definition ordered_pairs :: "level2_key list \<Rightarrow> int list \<Rightarrow> (level2_key \<times> int) list" where
  "ordered_pairs keys counts = sort_key fst (zip keys counts)"

lemma ascending_iff:
  fixes xs :: "'a :: linorder list"
  shows "list_ex (\<lambda>(lower, upper). \<not> lower < upper) (zip xs (tl xs)) \<longleftrightarrow> \<not> sorted_wrt (<) xs"
proof (induction xs rule: induct_list012)
  case (3 x y zs)
  have "sorted_wrt (<) (x # y # zs) \<longleftrightarrow> x < y \<and> sorted_wrt (<) (y # zs)"
    by (auto intro: less_trans)
  with 3(2) show ?case by simp
qed simp_all

lemma ordered_pairs_facts:
  assumes "length keys = length counts"
  shows "mset (ordered_pairs keys counts) = mset (zip keys counts)"
    and "set (map snd (ordered_pairs keys counts)) = set counts"
    and "sum_list (map snd (ordered_pairs keys counts)) = sum_list counts"
    and "distinct keys \<Longrightarrow> sorted_wrt (<) (map fst (ordered_pairs keys counts))"
proof -
  let ?ps = "ordered_pairs keys counts"
  show m: "mset ?ps = mset (zip keys counts)" by (simp add: ordered_pairs_def)
  have "mset (map snd ?ps) = mset counts"
    by (metis m assms map_snd_zip mset_map)
  then show "set (map snd ?ps) = set counts" "sum_list (map snd ?ps) = sum_list counts"
    by (metis set_mset_mset, metis sum_mset_sum_list)
  have "mset (map fst ?ps) = mset keys" by (metis m assms map_fst_zip mset_map)
  moreover assume "distinct keys"
  ultimately have "distinct (map fst ?ps)" by (metis mset_eq_imp_distinct_iff)
  moreover have "sorted (map fst ?ps)" by (simp add: ordered_pairs_def)
  ultimately show "sorted_wrt (<) (map fst ?ps)" by (simp add: strict_sorted_iff)
qed

lemma parents_sorted: "sorted_wrt (<) (map fst ps) \<Longrightarrow> sorted (map (\<lambda>x. fst (fst x)) (ps :: (level2_key \<times> int) list))"
  by (induction ps) (auto simp: less_prod_def' less_imp_le)

lemma later_runs_greater:
  assumes "sorted (map (\<lambda>x. fst (fst x)) (p # ps))" "e \<in> set (dropWhile (\<lambda>x. fst (fst x) = fst (fst p)) ps)"
  shows "fst (fst p) < fst (fst (e :: level2_key \<times> int))"
  using assms
proof (induction ps)
  case (Cons x xs)
  show ?case
  proof (cases "fst (fst x) = fst (fst p)")
    case False
    then have "fst (fst p) < fst (fst x)" using Cons.prems(1) by (simp add: order.not_eq_order_implies_strict)
    moreover have "fst (fst x) \<le> fst (fst e)" using Cons.prems False by auto
    ultimately show ?thesis by (rule order_less_le_trans)
  qed (use Cons in auto)
qed simp

lemma ascending_parent_runs:
  assumes "sorted (map (\<lambda>x. fst (fst x)) ps)"
  shows "sorted_wrt (<) (map fst (parent_runs ps))"
  using assms
proof (induction ps rule: parent_runs.induct)
  case (2 p ps)
  let ?P = "\<lambda>x. fst (fst x) = fst (fst p)"
  have "sorted (map (\<lambda>x. fst (fst x)) (dropWhile ?P ps))"
    using 2(2) by (simp add: dropWhile_eq_drop drop_map [symmetric] sorted_wrt_drop)
  moreover have "fst (fst p) < t" if run: "(t, items) \<in> set (parent_runs (dropWhile ?P ps))" for t items
  proof -
    have "hd items \<in> set (dropWhile ?P ps)" "fst (fst (hd items)) = t"
      using parent_runs_member [OF run] hd_in_set by blast+
    then show ?thesis using later_runs_greater [OF 2(2)] by blast
  qed
  ultimately show ?case using 2(1) by auto
qed simp

lemma build_Inr:
  assumes "build keys counts tgt seed = Inr q"
  defines "ps \<equiv> ordered_pairs keys counts"
  shows "length keys = length counts" "distinct keys" "\<forall>c \<in> set counts. 0 < c" "0 \<le> tgt"
    and "q = \<lparr>level1_keys = map fst (parent_runs ps), level1_capacity = map run_total (parent_runs ps),
      level2_keys = map fst ps, level2_capacity = map snd ps, target = tgt, residual_seed = seed\<rparr>"
  using assms(1)
  by (auto simp: build_def Let_def rbind_eq_Inr np_int64_def attrs_post_init_def list_ex_iff not_le level1_of_runs zip_map_fst_snd
    ps_def ordered_pairs_def split: if_splits)

lemma fits_is_i64: "fits_i64 xs \<Longrightarrow> list_all is_i64 xs"
proof -
  assume fits: "fits_i64 xs"
  have "x \<le> sum_list xs" if "x \<in> set xs" for x
    using fits that by (auto simp: fits_i64_def intro: member_le_sum_list)
  with fits show ?thesis
    by (force simp: fits_i64_def is_i64_def list_all_iff)
qed

lemma fits_run_totals:
  assumes "fits_i64 (map snd ps)"
  shows "fits_i64 (map run_total (parent_runs ps))"
proof -
  have "0 \<le> run_total g" if "g \<in> set (parent_runs ps)" for g
  proof -
    have "set (snd g) \<subseteq> set ps" using parent_runs_member [of "fst g" "snd g" ps] that by simp
    then have "\<forall>x \<in> set (map snd (snd g)). 0 \<le> x" using assms by (auto simp: fits_i64_def)
    then show ?thesis unfolding run_total_def by (intro sum_list_nonneg) blast
  qed
  then show ?thesis using assms by (auto simp: fits_i64_def sum_list_run_total)
qed

lemma build_succeeds:
  assumes "length keys = length counts" "distinct keys" "\<forall>c \<in> set counts. 0 < c" "0 \<le> tgt" "sum_list counts < 2 ^ 63"
  shows "\<exists>q. build keys counts tgt seed = Inr q"
proof -
  let ?ps = "ordered_pairs keys counts"
  note facts = ordered_pairs_facts [OF assms(1)]
  have fits: "fits_i64 (map snd ?ps)" using assms(3,5) facts(2,3) by (auto simp: fits_i64_def less_imp_le)
  have asc: "sorted_wrt (<) (map fst ?ps)" using facts(4) assms(2) .
  have "\<not> list_ex (\<lambda>c. c \<le> 0) (map snd ?ps)" "\<not> list_ex (\<lambda>c. c \<le> 0) counts"
    unfolding list_ex_iff facts(2) using assms(3) by auto
  moreover have "np_int64 (map snd ?ps) = Inr (map snd ?ps)"
    "np_int64 (map run_total (parent_runs ?ps)) = Inr (map run_total (parent_runs ?ps))"
    using fits_is_i64 [OF fits] fits_is_i64 [OF fits_run_totals [OF fits]] by (simp_all add: np_int64_def)
  moreover have "sorted_wrt (<) (map fst (parent_runs ?ps))"
    using ascending_parent_runs [OF parents_sorted [OF asc]] .
  ultimately show ?thesis
    using assms asc unfolding build_def Let_def ordered_pairs_def [symmetric]
    by (simp add: level1_of_runs zip_map_fst_snd attrs_post_init_def ascending_iff validate_level1_slices_def)
qed

section \<open>The nested allocation of a built quota\<close>

definition shares :: "(string \<Rightarrow> string) \<Rightarrow> int \<Rightarrow> int \<Rightarrow> (level2_key \<times> int) list \<Rightarrow> int list" where
  "shares digest seed tgt ps =
     water_fill (map run_total (parent_runs ps)) tgt (residual_ranks digest (map fst (parent_runs ps)) seed)"

definition granted :: "level2_key \<times> int \<Rightarrow> level2_key \<times> int \<Rightarrow> bool" where
  "granted got had \<longleftrightarrow> fst got = fst had \<and> 0 \<le> snd got \<and> snd got \<le> snd had"

lemma length_water_fill: "fits_i64 caps \<Longrightarrow> length (water_fill caps tgt rank) = length caps"
  using water_fill_cases [of caps tgt rank] by (auto simp: filled_def)

lemma water_fill_bounds:
  "fits_i64 caps \<Longrightarrow> i < length caps \<Longrightarrow> 0 \<le> water_fill caps tgt rank ! i \<and> water_fill caps tgt rank ! i \<le> caps ! i"
  using water_fill_cases [of caps tgt rank] filled_bounds by (metis fits_i64_def nth_mem)

lemma run_quota_granted:
  assumes "fits_i64 (map snd items)"
  shows "list_all2 granted (run_quota digest seed items n) items"
  using length_water_fill [OF assms] water_fill_bounds [OF assms]
  by (auto simp: run_quota_def list_all2_conv_all_nth granted_def)

lemma run_quota_sum:
  assumes "fits_i64 (map snd items)" "0 \<le> n" "n \<le> sum_list (map snd items)"
  shows "sum_list (map snd (run_quota digest seed items n)) = n"
  using length_water_fill [OF assms(1)] water_fill_cases [OF assms(1)] assms(2,3)
  by (simp add: run_quota_def)

lemma quotas_eq:
  assumes "build keys counts tgt seed = Inr q" "sum_list counts < 2 ^ 63"
  defines "ps \<equiv> ordered_pairs keys counts"
  shows "quotas digest q = concat (map2 (\<lambda>(_, items) n. run_quota digest seed items n) (parent_runs ps) (shares digest seed tgt ps))"
    and "fits_i64 (map snd ps)" and "length (shares digest seed tgt ps) = length (parent_runs ps)"
proof -
  note built = build_Inr [OF assms(1), folded ps_def]
  show fits: "fits_i64 (map snd ps)"
    using ordered_pairs_facts(2,3) [OF built(1)] built(3) assms(2) by (auto simp: ps_def fits_i64_def less_imp_le)
  show len: "length (shares digest seed tgt ps) = length (parent_runs ps)"
    using length_water_fill [OF fits_run_totals [OF fits]] by (simp add: shares_def)
  show "quotas digest q = concat (map2 (\<lambda>(_, items) n. run_quota digest seed items n) (parent_runs ps) (shares digest seed tgt ps))"
    using quotas_loop_runs [OF len] by (simp add: quotas_def built(5) shares_def Let_def)
qed

lemma fits_items:
  assumes "fits_i64 (map snd ps)" "(t, items) \<in> set (parent_runs ps)"
  shows "fits_i64 (map snd items)"
proof -
  have "run_total (t, items) \<le> sum_list (map run_total (parent_runs ps))"
    using fits_run_totals [OF assms(1)] assms(2) by (intro member_le_sum_list) (auto simp: fits_i64_def)
  then show ?thesis
    using assms parent_runs_member [OF assms(2)]
    by (auto simp: fits_i64_def run_total_def sum_list_run_total)
qed

lemma concat_granted:
  fixes digest :: "string \<Rightarrow> string" and seed :: int
  assumes "length qs = length gs" "\<And>t items. (t, items) \<in> set gs \<Longrightarrow> fits_i64 (map snd items)"
    and "list_all2 (\<lambda>g n. 0 \<le> n \<and> n \<le> run_total g) gs qs"
  defines "r \<equiv> concat (map2 (\<lambda>(_, items) n. run_quota digest seed items n) gs qs)"
  shows "list_all2 granted r (concat (map snd gs)) \<and> sum_list (map snd r) = sum_list qs"
  unfolding r_def using assms(1-3)
proof (induction gs arbitrary: qs)
  case (Cons g gs)
  obtain t items where g: "g = (t, items)" by force
  from Cons.prems(1) obtain n ns where qs: "qs = n # ns" by (cases qs) auto
  have fits: "fits_i64 (map snd items)" using Cons.prems(2) g by auto
  have "list_all2 granted (concat (map2 (\<lambda>(_, items) n. run_quota digest seed items n) gs ns)) (concat (map snd gs)) \<and>
    sum_list (map snd (concat (map2 (\<lambda>(_, items) n. run_quota digest seed items n) gs ns))) = sum_list ns"
    using Cons.prems qs by (intro Cons.IH) auto
  then show ?case
    using run_quota_granted [OF fits] run_quota_sum [OF fits] g qs Cons.prems(3)
    by (auto simp: run_total_def intro!: list_all2_appendI)
qed simp

section \<open>What each task receives\<close>

lemma allocated_to_simps [simp]:
  "allocated_to [] t = 0"
  "allocated_to (xs @ ys) t = allocated_to xs t + allocated_to ys t"
  by (simp_all add: allocated_to_def)

lemma allocated_to_all: "\<forall>x \<in> set xs. fst (fst x) = t \<Longrightarrow> allocated_to xs t = sum_list (map snd xs)"
  unfolding allocated_to_def by (subst filter_True) (auto simp: case_prod_beta)

lemma allocated_to_none: "\<forall>x \<in> set xs. fst (fst x) \<noteq> t \<Longrightarrow> allocated_to xs t = 0"
  unfolding allocated_to_def by (subst filter_False) (auto simp: case_prod_beta)

lemma allocated_to_mset: "mset xs = mset ys \<Longrightarrow> allocated_to xs t = allocated_to ys t"
  by (simp only: allocated_to_def sum_mset_sum_list [symmetric] mset_map mset_filter)

lemma allocated_runs:
  assumes "distinct (map fst gs)" "length qs = length gs" "i < length gs"
    and "\<And>t items x n. (t, items) \<in> set gs \<Longrightarrow> x \<in> set (f items n) \<Longrightarrow> fst (fst x) = t"
  shows "allocated_to (concat (map2 (\<lambda>(_, items) n. f items n) gs qs)) (fst (gs ! i)) = sum_list (map snd (f (snd (gs ! i)) (qs ! i)))"
  using assms
proof (induction gs arbitrary: qs i)
  case (Cons g gs)
  obtain t items where g: "g = (t, items)" by force
  from Cons.prems(2) obtain n ns where qs: "qs = n # ns" by (cases qs) auto
  have own: "\<forall>x \<in> set (f items n). fst (fst x) = t" using Cons.prems(4) [of t items _ n] g by (metis list.set_intros(1))
  show ?case
  proof (cases i)
    case 0
    have "\<forall>x \<in> set (concat (map2 (\<lambda>(_, items) n. f items n) gs ns)). fst (fst x) \<noteq> t"
    proof
      fix x assume "x \<in> set (concat (map2 (\<lambda>(_, items) n. f items n) gs ns))"
      then obtain s js m where "(s, js) \<in> set gs" "x \<in> set (f js m)" by (auto dest: set_zip_leftD)
      then have "fst (fst x) = s" "s \<in> fst ` set gs"
        using Cons.prems(4) [of s js x m] by (simp, metis fst_conv image_eqI)
      then show "fst (fst x) \<noteq> t" using Cons.prems(1) g by auto
    qed
    then show ?thesis using own 0 g qs by (simp add: allocated_to_all allocated_to_none)
  next
    case (Suc j)
    have "fst (gs ! j) \<noteq> t" using Cons.prems(1,3) g Suc by (auto simp: image_iff)
    then have "allocated_to (f items n) (fst (gs ! j)) = 0" using own by (intro allocated_to_none) auto
    moreover have "allocated_to (concat (map2 (\<lambda>(_, items) n. f items n) gs ns)) (fst (gs ! j)) = sum_list (map snd (f (snd (gs ! j)) (ns ! j)))"
    proof (rule Cons.IH)
      show "fst (fst x) = s" if "(s, js) \<in> set gs" "x \<in> set (f js m)" for s js x m
        using Cons.prems(4) that by (metis list.set_intros(2))
    qed (use Cons.prems(1-3) qs Suc in auto)
    ultimately show ?thesis using g qs Suc by simp
  qed
qed simp

lemma filled_even:
  assumes "filled l caps quota" "i < length caps" "j < length caps" "quota ! i < caps ! i"
  shows "quota ! j \<le> quota ! i + 1"
  using assms unfolding filled_def by (smt (verit))

lemma filled_covers:
  assumes "filled l caps quota" "\<forall>c \<in> set caps. 1 \<le> c" "int (length caps) \<le> sum_list quota" "i < length caps"
  shows "1 \<le> quota ! i"
proof (rule ccontr)
  assume none: "\<not> 1 \<le> quota ! i"
  have cap: "1 \<le> caps ! j" if "j < length caps" for j using assms(2) that by simp
  have len: "length quota = length caps" using assms(1) by (simp add: filled_def)
  have "quota ! j \<le> 1" if "j < length caps" for j
    using filled_even [OF assms(1,4) that] none cap [OF assms(4)] by linarith
  then have "(\<Sum>j < length caps. quota ! j) < (\<Sum>j < length caps. 1)"
    using assms(4) none by (intro sum_strict_mono_ex1) force+
  then show False using assms(3) len by (simp add: sum_list_sum_nth atLeast0LessThan)
qed

lemma run_of_task:
  assumes "x \<in> set ps"
  shows "\<exists>i < length (parent_runs ps). fst (parent_runs ps ! i) = fst (fst x) \<and> x \<in> set (snd (parent_runs ps ! i))"
proof -
  have "x \<in> set (concat (map snd (parent_runs ps)))" using assms by (simp add: concat_parent_runs)
  then obtain g where g: "g \<in> set (parent_runs ps)" "x \<in> set (snd g)" by auto
  then have "fst g = fst (fst x)" using parent_runs_member [of "fst g" "snd g" ps] by simp
  with g show ?thesis by (metis in_set_conv_nth)
qed

lemma map2_left: "length qs = length gs \<Longrightarrow> map2 (\<lambda>(_, items) n. items) gs qs = map snd gs"
  by (rule nth_equalityI) (auto simp: case_prod_beta)

lemma shares_bounds:
  assumes "fits_i64 (map snd ps)"
  shows "list_all2 (\<lambda>g n. 0 \<le> n \<and> n \<le> run_total g) (parent_runs ps) (shares digest seed tgt ps)"
  using water_fill_bounds [OF fits_run_totals [OF assms]] length_water_fill [OF fits_run_totals [OF assms]]
  by (auto simp: list_all2_conv_all_nth shares_def)

lemma run_quota_keys: "x \<in> set (run_quota digest seed items n) \<Longrightarrow> fst x \<in> fst ` set items"
  by (cases x) (auto simp: run_quota_def dest!: set_zip_leftD)

lemma task_shares:
  assumes "build keys counts tgt seed = Inr q" "sum_list counts < 2 ^ 63"
  defines "ps \<equiv> ordered_pairs keys counts"
  assumes i: "i < length (parent_runs ps)"
  shows "allocated_to (quotas digest q) (fst (parent_runs ps ! i)) = shares digest seed tgt ps ! i"
    and "allocated_to (zip keys counts) (fst (parent_runs ps ! i)) = run_total (parent_runs ps ! i)"
proof -
  note built = build_Inr [OF assms(1), folded ps_def] and eq = quotas_eq [OF assms(1,2), folded ps_def]
  obtain t items where g: "parent_runs ps ! i = (t, items)" by force
  then have mem: "(t, items) \<in> set (parent_runs ps)" using i by (metis nth_mem)
  have dist: "distinct (map fst (parent_runs ps))"
    using ordered_pairs_facts(4) [OF built(1,2)] ascending_parent_runs [OF parents_sorted] by (simp add: ps_def strict_sorted_iff)
  have "0 \<le> shares digest seed tgt ps ! i \<and> shares digest seed tgt ps ! i \<le> run_total (t, items)"
    using list_all2_nthD [OF shares_bounds [OF eq(2), of digest seed tgt] i] g by simp
  then have "sum_list (map snd (run_quota digest seed items (shares digest seed tgt ps ! i))) = shares digest seed tgt ps ! i"
    by (intro run_quota_sum fits_items [OF eq(2) mem]) (auto simp: run_total_def)
  moreover have "allocated_to (quotas digest q) (fst (parent_runs ps ! i)) =
      sum_list (map snd (run_quota digest seed (snd (parent_runs ps ! i)) (shares digest seed tgt ps ! i)))"
    unfolding eq(1)
  proof (rule allocated_runs [OF dist eq(3) i])
    show "fst (fst x) = s" if "(s, js) \<in> set (parent_runs ps)" "x \<in> set (run_quota digest seed js m)" for s js x m
      using parent_runs_member [OF that(1)] run_quota_keys [OF that(2)] by auto
  qed
  ultimately show "allocated_to (quotas digest q) (fst (parent_runs ps ! i)) = shares digest seed tgt ps ! i"
    using g by simp
  have "allocated_to (zip keys counts) (fst (parent_runs ps ! i)) = allocated_to (concat (map2 (\<lambda>(_, items) n. items) (parent_runs ps) (shares digest seed tgt ps))) (fst (parent_runs ps ! i))"
    unfolding map2_left [OF eq(3)] concat_parent_runs
    by (intro allocated_to_mset) (use ordered_pairs_facts(1) [OF built(1)] in \<open>simp add: ps_def\<close>)
  also have "\<dots> = sum_list (map snd (snd (parent_runs ps ! i)))"
    by (rule allocated_runs [OF dist eq(3) i, where f = "\<lambda>items n. items"]) (use parent_runs_member in blast)
  finally show "allocated_to (zip keys counts) (fst (parent_runs ps ! i)) = run_total (parent_runs ps ! i)"
    by (simp add: run_total_def)
qed

lemma task_index:
  assumes "build keys counts tgt seed = Inr q" "(a, c) \<in> set keys"
  defines "ps \<equiv> ordered_pairs keys counts"
  shows "\<exists>i < length (parent_runs ps). fst (parent_runs ps ! i) = a"
proof -
  note built = build_Inr [OF assms(1)]
  from built(1) assms(2) obtain n where "((a, c), n) \<in> set (zip keys counts)"
    by (metis in_set_impl_in_set_zip1)
  then have "((a, c), n) \<in> set ps"
    using ordered_pairs_facts(1) [OF built(1)] by (metis ps_def mset_eq_setD)
  from run_of_task [OF this] show ?thesis by auto
qed

lemma quotas_granted:
  assumes "build keys counts tgt seed = Inr q" and "sum_list counts < 2 ^ 63"
  shows "list_all2 granted (quotas digest q) (ordered_pairs keys counts)"
    and "sum_list (map snd (quotas digest q)) = min tgt (sum_list counts)"
proof -
  let ?ps = "ordered_pairs keys counts"
  note built = build_Inr [OF assms(1)] and eq = quotas_eq [OF assms] and facts = ordered_pairs_facts [OF build_Inr(1) [OF assms(1)]]
  have "list_all2 granted (quotas digest q) (concat (map snd (parent_runs ?ps))) \<and>
    sum_list (map snd (quotas digest q)) = sum_list (shares digest seed tgt ?ps)"
    unfolding eq(1) by (rule concat_granted [OF eq(3) fits_items [OF eq(2)] shares_bounds [OF eq(2)]])
  moreover have "sum_list (shares digest seed tgt ?ps) = min tgt (sum_list counts)"
    using water_fill_cases [OF fits_run_totals [OF eq(2)]] built(3,4) facts(3)
    by (simp add: shares_def sum_list_run_total sum_list_nonneg less_imp_le)
  ultimately show "list_all2 granted (quotas digest q) ?ps" "sum_list (map snd (quotas digest q)) = min tgt (sum_list counts)"
    by (simp_all add: concat_parent_runs)
qed

text \<open>C12: The nested quotas of a built allocation hand out exactly the target, or everything when the target
  is larger, and give every group between nothing and its survivors.\<close>
theorem quotas_exact:
  assumes "build keys counts tgt seed = Inr q" and "sum_list counts < 2 ^ 63"
  shows "sum_list (map snd (quotas digest q)) = min tgt (sum_list counts) \<and>
    list_all2 granted (quotas digest q) (zip (level2_keys q) (level2_capacity q)) \<and>
    mset (zip (level2_keys q) (level2_capacity q)) = mset (zip keys counts)"
  using quotas_granted [OF assms] ordered_pairs_facts(1) [OF build_Inr(1) [OF assms(1)]] build_Inr(5) [OF assms(1)]
  by (simp add: zip_map_fst_snd)

lemma cell_in_run:
  assumes "build keys counts tgt seed = Inr q" "sum_list counts < 2 ^ 63" "((a, c), m) \<in> set (quotas digest q)"
  defines "ps \<equiv> ordered_pairs keys counts"
  shows "\<exists>t items n x. (t, items) \<in> set (parent_runs ps) \<and> t = a \<and> x < length items \<and> fst (items ! x) = (a, c) \<and>
    n = allocated_to (quotas digest q) a \<and>
    m = water_fill (map snd items) n (residual_ranks digest (pair_digest_keys (map fst items)) seed) ! x"
proof -
  note eq = quotas_eq [OF assms(1,2), folded ps_def]
  from assms(3) obtain k where k: "k < length (parent_runs ps)"
    and mem: "((a, c), m) \<in> set (run_quota digest seed (snd (parent_runs ps ! k)) (shares digest seed tgt ps ! k))"
  proof -
    from assms(3) obtain p where p: "p \<in> set (zip (parent_runs ps) (shares digest seed tgt ps))"
      "((a, c), m) \<in> set (run_quota digest seed (snd (fst p)) (snd p))"
      unfolding eq(1) by auto
    then obtain k where "k < length (parent_runs ps)" "p = (parent_runs ps ! k, shares digest seed tgt ps ! k)"
      by (auto simp: set_zip)
    with p(2) show thesis by (intro that) auto
  qed
  obtain t items where g: "parent_runs ps ! k = (t, items)" by force
  from k g have run: "(t, items) \<in> set (parent_runs ps)" by (metis nth_mem)
  from mem g obtain x where x: "x < length items" "fst (items ! x) = (a, c)"
    "m = water_fill (map snd items) (shares digest seed tgt ps ! k) (residual_ranks digest (pair_digest_keys (map fst items)) seed) ! x"
    by (auto simp: run_quota_def set_zip)
  have "t = a" using parent_runs_member [OF run] x(1,2) by (metis fst_conv nth_mem)
  moreover have "shares digest seed tgt ps ! k = allocated_to (quotas digest q) t"
    using task_shares(1) [OF assms(1,2), folded ps_def, OF k] g by simp
  ultimately show ?thesis using run x by blast
qed

lemma cell_capacity:
  assumes "build keys counts tgt seed = Inr q" "((a, c), n) \<in> set (zip keys counts)"
    and "(t, items) \<in> set (parent_runs (ordered_pairs keys counts))" "x < length items" "fst (items ! x) = (a, c)"
  shows "snd (items ! x) = n"
proof -
  note built = build_Inr [OF assms(1)]
  have "items ! x \<in> set (ordered_pairs keys counts)"
    using parent_runs_member [OF assms(3)] assms(4) by (meson nth_mem subsetD)
  then have "((a, c), snd (items ! x)) \<in> set (zip keys counts)"
    using ordered_pairs_facts(1) [OF built(1)] assms(5) by (metis mset_eq_setD prod.collapse)
  with assms(2) show ?thesis
    using built(1,2) by (metis distinct_map eq_key_imp_eq_value map_fst_zip)
qed

lemma same_run:
  assumes "build keys counts tgt seed = Inr q"
    and "(t, items) \<in> set (parent_runs (ordered_pairs keys counts))" "(t, items') \<in> set (parent_runs (ordered_pairs keys counts))"
  shows "items = items'"
proof -
  have "distinct (map fst (parent_runs (ordered_pairs keys counts)))"
    using ordered_pairs_facts(4) [OF build_Inr(1,2) [OF assms(1)]] ascending_parent_runs [OF parents_sorted] by (simp add: strict_sorted_iff)
  with assms(2,3) show ?thesis by (metis eq_key_imp_eq_value)
qed

text \<open>C11: Tasks share the target evenly, and cells share their task's part: a task, or a cell of a task, that
  still has survivors to give is at most one row behind any other.\<close>
theorem quotas_share_evenly:
  assumes "build keys counts tgt seed = Inr q" and "sum_list counts < 2 ^ 63"
  shows "(\<forall>a \<in> fst ` set keys. \<forall>b \<in> fst ` set keys. allocated_to (quotas digest q) a < allocated_to (zip keys counts) a \<longrightarrow>
      allocated_to (quotas digest q) b \<le> allocated_to (quotas digest q) a + 1) \<and>
    (\<forall>a i j n m m'. ((a, i), n) \<in> set (zip keys counts) \<and> ((a, i), m) \<in> set (quotas digest q) \<and>
      ((a, j), m') \<in> set (quotas digest q) \<and> m < n \<longrightarrow> m' \<le> m + 1)"
proof (intro conjI ballI impI allI)
  let ?ps = "ordered_pairs keys counts" and ?got = "allocated_to (quotas digest q)"
  note eq = quotas_eq [OF assms]
  fix a b assume "a \<in> fst ` set keys" "b \<in> fst ` set keys" and short: "?got a < allocated_to (zip keys counts) a"
  then obtain i j where "(a, i) \<in> set keys" "(b, j) \<in> set keys" by auto
  from this [THEN task_index [OF assms(1)]] obtain x y
    where x: "x < length (parent_runs ?ps)" "fst (parent_runs ?ps ! x) = a"
    and y: "y < length (parent_runs ?ps)" "fst (parent_runs ?ps ! y) = b"
    by blast
  from water_fill_cases [OF fits_run_totals [OF eq(2)]] obtain l where "filled l (map run_total (parent_runs ?ps)) (shares digest seed tgt ?ps)"
    unfolding shares_def by blast
  from filled_even [OF this, of x y] show "?got b \<le> ?got a + 1"
    using short task_shares(1) [OF assms x(1), of digest] task_shares(1) [OF assms y(1), of digest]
      task_shares(2) [OF assms x(1)] eq(3) x y by simp
next
  let ?ps = "ordered_pairs keys counts"
  note eq = quotas_eq [OF assms]
  fix a i j n m m'
  assume *: "((a, i), n) \<in> set (zip keys counts) \<and> ((a, i), m) \<in> set (quotas digest q) \<and> ((a, j), m') \<in> set (quotas digest q) \<and> m < n"
  then obtain items x where x: "(a, items) \<in> set (parent_runs ?ps)" "x < length items" "fst (items ! x) = (a, i)"
    "m = water_fill (map snd items) (allocated_to (quotas digest q) a) (residual_ranks digest (pair_digest_keys (map fst items)) seed) ! x"
    using cell_in_run [OF assms] by metis
  from * obtain items' y where y: "(a, items') \<in> set (parent_runs ?ps)" "y < length items'"
    "m' = water_fill (map snd items') (allocated_to (quotas digest q) a) (residual_ranks digest (pair_digest_keys (map fst items')) seed) ! y"
    using cell_in_run [OF assms] by metis
  have same: "items' = items" using same_run [OF assms(1) y(1) x(1)] .
  from water_fill_cases [OF fits_items [OF eq(2) x(1)]] obtain l where
    "filled l (map snd items) (water_fill (map snd items) (allocated_to (quotas digest q) a) (residual_ranks digest (pair_digest_keys (map fst items)) seed))"
    by blast
  from filled_even [OF this, of x y] show "m' \<le> m + 1"
    using x y * same cell_capacity [OF assms(1) _ x(1-3), of n] by auto
qed

text \<open>The order in which the groups were observed cannot reach the quota: two listings of the same groups
  and counts build the same allocation, or are refused alike.\<close>
theorem build_order_independent:
  assumes "length keys = length counts" "length keys' = length counts'" "mset (zip keys counts) = mset (zip keys' counts')"
  shows "build keys counts tgt seed = build keys' counts' tgt seed"
proof -
  have "mset keys = mset keys'" "mset counts = mset counts'"
    using assms by (metis map_fst_zip mset_map, metis map_snd_zip mset_map)
  then have "distinct keys = distinct keys'" "set counts = set counts'"
    by (metis mset_eq_imp_distinct_iff, metis mset_eq_setD)
  moreover have "sort_key fst (zip keys counts) = sort_key fst (zip keys' counts')" if "distinct keys"
  proof (rule sort_key_inj_key_eq)
    show "inj_on fst (set (zip keys counts))"
      using that assms(1) by (metis distinct_map map_fst_zip)
  qed (simp_all add: assms(3))
  ultimately show ?thesis using assms(1,2) by (simp add: build_def list_ex_iff)
qed

lemma level1_keys_set:
  assumes "build keys counts tgt seed = Inr q"
  shows "distinct (level1_keys q) \<and> set (level1_keys q) = fst ` set keys"
proof -
  let ?ps = "ordered_pairs keys counts"
  note built = build_Inr [OF assms]
  have "distinct (map fst (parent_runs ?ps))"
    using ordered_pairs_facts(4) [OF built(1,2)] ascending_parent_runs [OF parents_sorted] by (simp add: strict_sorted_iff)
  moreover have "set (map fst (parent_runs ?ps)) = fst ` set keys"
  proof (intro equalityI subsetI)
    fix t assume "t \<in> set (map fst (parent_runs ?ps))"
    then obtain items where run: "(t, items) \<in> set (parent_runs ?ps)" by auto
    from parent_runs_member [OF run] have "hd items \<in> set ?ps" "fst (fst (hd items)) = t" using hd_in_set by blast+
    then have "fst (hd items) \<in> set keys"
      using ordered_pairs_facts(1) [OF built(1)] by (metis mset_eq_setD prod.collapse set_zip_leftD)
    then show "t \<in> fst ` set keys" using \<open>fst (fst (hd items)) = t\<close> by force
  next
    fix t assume "t \<in> fst ` set keys"
    then obtain c where "(t, c) \<in> set keys" by auto
    from task_index [OF assms this] show "t \<in> set (map fst (parent_runs ?ps))" by auto
  qed
  ultimately show ?thesis using built(5) by simp
qed

lemma task_starved_iff:
  assumes "build keys counts tgt seed = Inr q" "sum_list counts < 2 ^ 63"
  shows "(\<exists>task \<in> set (level1_keys q). allocated_to (quotas digest q) task = 0) \<longleftrightarrow> tgt < int (length (level1_keys q))"
proof -
  let ?ps = "ordered_pairs keys counts"
  let ?gs = "parent_runs ?ps" and ?sh = "shares digest seed tgt (ordered_pairs keys counts)"
  note built = build_Inr [OF assms(1)] and eq = quotas_eq [OF assms] and facts = ordered_pairs_facts [OF build_Inr(1) [OF assms(1)]]
  have n: "length (level1_keys q) = length ?gs" using built(5) by simp
  have pos: "\<forall>c \<in> set (map snd ?ps). 0 < c" using built(3) facts(2) by simp
  have caps: "1 \<le> c" if "c \<in> set (map run_total ?gs)" for c
  proof -
    from that obtain t items where run: "(t, items) \<in> set ?gs" "c = run_total (t, items)" by auto
    then obtain x where x: "x \<in> set items" "x \<in> set ?ps"
      using parent_runs_member by (metis list.set_sel(1) subsetD)
    then have "snd x \<le> c"
      using fits_items [OF eq(2) run(1)] run(2) by (auto simp: run_total_def fits_i64_def intro!: member_le_sum_list)
    moreover have "0 < snd x" using pos x(2) by simp
    ultimately show ?thesis by simp
  qed
  have total: "int (length ?gs) \<le> sum_list counts"
  proof -
    have "(\<Sum>_ \<leftarrow> map run_total ?gs. 1) \<le> (\<Sum>c \<leftarrow> map run_total ?gs. c)" by (rule sum_list_mono) (use caps in auto)
    then show ?thesis by (simp add: sum_list_run_total facts(3) sum_list_triv comp_def)
  qed
  have sum: "sum_list ?sh = min tgt (sum_list counts)"
    using water_fill_cases [OF fits_run_totals [OF eq(2)]] built(3,4) facts(3)
    by (simp add: shares_def sum_list_run_total sum_list_nonneg less_imp_le)
  have share: "allocated_to (quotas digest q) (level1_keys q ! i) = ?sh ! i" if "i < length ?gs" for i
    using task_shares(1) [OF assms that, of digest] that built(5) by simp
  obtain l where filled: "filled l (map run_total ?gs) ?sh"
    using water_fill_cases [OF fits_run_totals [OF eq(2)]] unfolding shares_def by blast
  have nonneg: "0 \<le> ?sh ! i" if "i < length ?gs" for i
    using list_all2_nthD [OF shares_bounds [OF eq(2)] that] by simp
  have "(\<exists>i < length ?gs. ?sh ! i = 0) \<longleftrightarrow> tgt < int (length ?gs)"
  proof
    assume "\<exists>i < length ?gs. ?sh ! i = 0"
    then obtain i where i: "i < length ?gs" "?sh ! i = 0" by blast
    show "tgt < int (length ?gs)"
    proof (rule ccontr)
      assume "\<not> tgt < int (length ?gs)"
      with sum total have "int (length (map run_total ?gs)) \<le> sum_list ?sh" by simp
      from filled_covers [OF filled _ this, of i] caps i show False by simp
    qed
  next
    assume less: "tgt < int (length ?gs)"
    show "\<exists>i < length ?gs. ?sh ! i = 0"
    proof (rule ccontr)
      assume none: "\<not> (\<exists>i < length ?gs. ?sh ! i = 0)"
      have "1 \<le> ?sh ! i" if "i < length ?gs" for i
        using none nonneg [OF that] that by (metis int_one_le_iff_zero_less order_le_imp_less_or_eq)
      then have "(\<Sum>i < length ?gs. 1) \<le> (\<Sum>i < length ?gs. ?sh ! i)" by (intro sum_mono) auto
      then show False using less sum eq(3) by (simp add: sum_list_sum_nth atLeast0LessThan)
    qed
  qed
  then show ?thesis unfolding n using share by (metis in_set_conv_nth n)
qed

text \<open>C13: The warning that the target is below the number of tasks is logged exactly when it is, and from that
  target on every task receives a row.\<close>
theorem starvation_diagnosed:
  assumes "build keys counts tgt seed = Inr q" and "sum_list counts < 2 ^ 63" and "0 < tgt"
  shows "((\<exists>n. snd (unfunded_groups q (quotas digest q)) = TargetBelowTasks n) \<longleftrightarrow> tgt < int (card (fst ` set keys))) \<and>
    (int (card (fst ` set keys)) \<le> tgt \<longrightarrow> (\<forall>task \<in> fst ` set keys. allocated_to (quotas digest q) task \<noteq> 0))"
proof -
  let ?starved = "\<lambda>task. allocated_to (quotas digest q) task = 0"
  have "target q = tgt" using build_Inr(5) [OF assms(1)] by simp
  then have "(\<exists>n. snd (unfunded_groups q (quotas digest q)) = TargetBelowTasks n) \<longleftrightarrow> filter ?starved (level1_keys q) \<noteq> []"
    using assms(3) by (auto simp: unfunded_groups_def Let_def)
  also have "\<dots> \<longleftrightarrow> (\<exists>task \<in> set (level1_keys q). ?starved task)"
    by (auto simp: filter_empty_conv)
  finally show ?thesis
    using task_starved_iff [OF assms(1,2), of digest] level1_keys_set [OF assms(1)] by (metis distinct_card not_less)
qed

definition sample_keys :: "level2_key list" where
  "sample_keys = [(''stack'', 1), (''fold'', 0), (''stack'', 0)]"

definition sample_counts :: "int list" where
  "sample_counts = [3, 1, 2]"

definition sample_quota :: fairness_quota where
  "sample_quota = \<lparr>level1_keys = [''fold'', ''stack''], level1_capacity = [1, 5],
     level2_keys = [(''fold'', 0), (''stack'', 0), (''stack'', 1)], level2_capacity = [1, 2, 3], target = 4, residual_seed = 7\<rparr>"

lemma sample_build: "build sample_keys sample_counts 4 7 = Inr sample_quota"
  by code_simp

lemma sample_quotas: "quotas rev sample_quota = [((''fold'', 0), 1), ((''stack'', 0), 2), ((''stack'', 1), 1)]"
  by code_simp

lemma sample_sum: "sum_list sample_counts < 2 ^ 63"
  by (simp add: sample_counts_def)

lemma quotas_exact_witness: "sum_list (map snd (quotas rev sample_quota)) = 4"
  using quotas_exact [OF sample_build sample_sum, of rev] by (simp add: sample_counts_def)

lemma quotas_share_evenly_witness:
  "((''stack'', 1), 1) \<in> set (quotas rev sample_quota) \<and> ((''stack'', 0), 2) \<in> set (quotas rev sample_quota) \<and> (2 :: int) \<le> 1 + 1"
proof (intro conjI)
  show "(2 :: int) \<le> 1 + 1"
    by (rule quotas_share_evenly [OF sample_build sample_sum, of rev, THEN conjunct2, rule_format, of "''stack''" 1 3 1 0])
      (simp add: sample_quotas sample_keys_def sample_counts_def)
qed (simp_all add: sample_quotas)

lemma build_order_independent_witness: "build (rev sample_keys) (rev sample_counts) 4 7 = Inr sample_quota"
proof -
  have "build (rev sample_keys) (rev sample_counts) 4 7 = build sample_keys sample_counts 4 7"
    by (rule build_order_independent) (simp_all add: sample_keys_def sample_counts_def)
  then show ?thesis by (simp add: sample_build)
qed

lemma starvation_diagnosed_witness:
  "allocated_to (quotas rev sample_quota) ''fold'' \<noteq> 0 \<and> allocated_to (quotas rev sample_quota) ''stack'' \<noteq> 0"
proof -
  have tasks: "fst ` set sample_keys = {''fold'', ''stack''}" by (auto simp: sample_keys_def)
  then show ?thesis using starvation_diagnosed [OF sample_build sample_sum, of rev] unfolding tasks by simp
qed

end
