(* ===== verification/FairnessCut.thy ===== *)
theory FairnessCut
  imports Complex_Main Fairness "HOL-Library.AList"
begin

text \<open>
  The cut of \<^verbatim>\<open>next/recipes/curation/fairness.py\<close> and the stages of \<^verbatim>\<open>next/recipes/curation/pipeline.py\<close>
  around it: counting survivors, resolving the target, selecting each grp against its quota and counting the
  verdicts. A table is the list of its rows. Ray's \<^verbatim>\<open>groupby(...).count()\<close> and \<^verbatim>\<open>map_groups\<close> are modelled by
  what they document: one aggregate, or one call, per distinct key. A distance is a finite number or null, and
  nulls sort last.
\<close>

section \<open>Rows and verdicts\<close>

datatype within_group_order = Farthest | Nearest | Neutral

record group_row =
  canonical_task :: string
  subtask_cluster :: int
  clip_key :: string
  row_fragment :: int
  row_dedup_key :: int
  row_distance :: "rat option"
  row_reason :: "string option"

record verdict_row =
  verdict_key :: string
  verdict_fragment :: int
  verdict_dedup_key :: int
  verdict_reason :: "string option"

definition SELECTED :: string where "SELECTED = ''selected''"
definition BELOW_QUOTA :: string where "BELOW_QUOTA = ''below_quota''"
definition UNFUNDED :: string where "UNFUNDED = ''unfunded''"

definition survivor_group_counts :: "(string \<times> int \<times> string option \<times> int) list \<Rightarrow> (level2_key \<times> int) list" where
  "survivor_group_counts group_counts =
     foldl (\<lambda>counts (task, cluster, reason, n). if reason = None \<and> n > 0 then AList.update (task, cluster) n counts else counts)
       [] group_counts"

section \<open>The cut of one group\<close>

text \<open>The sort keys of \<open>_SORT_KEYS\<close>; \<open>sort_indices\<close> is stable.\<close>

definition sort_key_of :: "within_group_order \<Rightarrow> group_row \<Rightarrow> bool \<times> rat \<times> string \<times> int" where
  "sort_key_of order row =
     (case order of
        Farthest \<Rightarrow> (row_distance row = None, (case row_distance row of None \<Rightarrow> 0 | Some d \<Rightarrow> - d), clip_key row, row_fragment row)
      | Nearest \<Rightarrow> (row_distance row = None, (case row_distance row of None \<Rightarrow> 0 | Some d \<Rightarrow> d), clip_key row, row_fragment row)
      | Neutral \<Rightarrow> (False, 0, clip_key row, row_fragment row))"

definition row_key :: "group_row \<Rightarrow> level2_key" where
  "row_key row = (canonical_task row, subtask_cluster row)"

definition one_level2_key :: "group_row list \<Rightarrow> fairness_error + level2_key" where
  "one_level2_key grp =
     (case (remdups (map canonical_task grp), remdups (map subtask_cluster grp)) of
        ([task], [cluster]) \<Rightarrow> Inr (task, cluster)
      | _ \<Rightarrow> Inl FairnessValueError)"

definition verdict_rows :: "group_row list \<Rightarrow> string option list \<Rightarrow> verdict_row list" where
  "verdict_rows grp reasons =
     map2 (\<lambda>row reason. \<lparr>verdict_key = clip_key row, verdict_fragment = row_fragment row,
       verdict_dedup_key = row_dedup_key row, verdict_reason = reason\<rparr>) grp reasons"

definition select_within_quota ::
  "group_row list \<Rightarrow> (level2_key \<times> int) list \<Rightarrow> within_group_order \<Rightarrow> fairness_error + verdict_row list" where
  "select_within_quota grp qs order =
     (let existing = map row_reason grp;
          survivor = map (\<lambda>reason. reason = None) existing;
          survivor_count = length (filter (\<lambda>s. s) survivor)
      in if survivor_count = 0 then Inr (verdict_rows grp existing)
         else rbind (one_level2_key grp) (\<lambda>key.
           case map_of qs key of
             None \<Rightarrow> Inl FairnessValueError
           | Some quota \<Rightarrow>
               let assigned = replicate (length grp) (if quota = 0 then UNFUNDED else BELOW_QUOTA);
                   ranked = sort_key (\<lambda>i. sort_key_of order (grp ! i)) [0..<length grp];
                   winners = take (nat quota) (filter (\<lambda>i. survivor ! i) ranked);
                   assigned = (if quota > 0 then foldl (\<lambda>a i. a[i := SELECTED]) assigned winners else assigned)
               in Inr (verdict_rows grp
                    (map2 (\<lambda>reason verdict. case reason of Some r \<Rightarrow> Some r | None \<Rightarrow> Some verdict) existing assigned))))"

section \<open>The stages of the pipeline\<close>

text \<open>\<open>rounded\<close> is the rounding of a floating-point operation to the nearest double.\<close>

record selection_target =
  target_count :: "int option"
  target_fraction :: "rat option"

definition resolve :: "(rat \<Rightarrow> rat) \<Rightarrow> selection_target \<Rightarrow> int \<Rightarrow> int" where
  "resolve rounded t survivor_count =
     (if survivor_count \<le> 0 then 0
      else case target_count t of
        Some n \<Rightarrow> min n survivor_count
      | None \<Rightarrow>
          (case target_fraction t of
             Some f \<Rightarrow>
               let scaled = \<lfloor>rounded (rounded (f * of_int survivor_count) + 1 / 2)\<rfloor>
               in max 1 (min scaled survivor_count)
           | None \<Rightarrow> survivor_count))"

definition group_counts :: "group_row list \<Rightarrow> (string \<times> int \<times> string option \<times> int) list" where
  "group_counts merged =
     map (\<lambda>(task, cluster, reason). (task, cluster, reason,
         int (length (filter (\<lambda>row. canonical_task row = task \<and> subtask_cluster row = cluster \<and> row_reason row = reason) merged))))
       (remdups (map (\<lambda>row. (canonical_task row, subtask_cluster row, row_reason row)) merged))"

definition build_quota :: "(rat \<Rightarrow> rat) \<Rightarrow> selection_target \<Rightarrow> int \<Rightarrow> (string \<times> int \<times> string option \<times> int) list \<Rightarrow> fairness_error + fairness_quota \<times> int" where
  "build_quota rounded config_target fairness_residual_seed counts =
     (let survivors_by_group = survivor_group_counts counts;
          survivors = sum_list (map snd survivors_by_group)
      in if survivors = 0 then Inl FairnessValueError
         else
           let tgt = resolve rounded config_target survivors
           in rbind (build (map fst survivors_by_group) (map snd survivors_by_group) tgt fairness_residual_seed)
                (\<lambda>q. Inr (q, tgt)))"

text \<open>\<open>map_groups\<close> calls the cut once per distinct key; the call that raises is the result.\<close>

fun map_groups :: "('a list \<Rightarrow> fairness_error + 'b list) \<Rightarrow> 'a list list \<Rightarrow> fairness_error + 'b list" where
  "map_groups f [] = Inr []"
| "map_groups f (grp # groups) = rbind (f grp) (\<lambda>rows. rbind (map_groups f groups) (\<lambda>rest. Inr (rows @ rest)))"

definition groups_of :: "group_row list \<Rightarrow> group_row list list" where
  "groups_of merged = map (\<lambda>key. filter (\<lambda>row. row_key row = key) merged) (remdups (map row_key merged))"

definition select :: "within_group_order \<Rightarrow> group_row list \<Rightarrow> (level2_key \<times> int) list \<Rightarrow> fairness_error + verdict_row list" where
  "select order merged qs = map_groups (\<lambda>grp. select_within_quota grp qs order) (groups_of merged)"

definition reason_table :: "verdict_row list \<Rightarrow> (string option \<times> int) list" where
  "reason_table verdicts =
     map (\<lambda>reason. (reason, int (length (filter (\<lambda>v. verdict_reason v = reason) verdicts)))) (remdups (map verdict_reason verdicts))"

definition reason_counts :: "(string option \<times> int) list \<Rightarrow> int \<Rightarrow> fairness_error + (string \<times> int) list" where
  "reason_counts observed eligible_rows =
     (let counts = foldl (\<lambda>counts (reason, n). case reason of None \<Rightarrow> counts | Some r \<Rightarrow> AList.update r n counts) [] observed;
          unreasoned = sum_list (map snd (filter (\<lambda>(reason, n). reason = None) observed))
      in if unreasoned \<noteq> 0 then Inl FairnessValueError
         else if sum_list (map snd counts) \<noteq> eligible_rows then Inl FairnessValueError
         else Inr counts)"

text \<open>The driver's steps between the merged rows and the write.\<close>

definition curate ::
  "(string \<Rightarrow> string) \<Rightarrow> (rat \<Rightarrow> rat) \<Rightarrow> selection_target \<Rightarrow> int \<Rightarrow> within_group_order \<Rightarrow> int \<Rightarrow> group_row list \<Rightarrow>
     fairness_error + verdict_row list \<times> (string \<times> int) list" where
  "curate digest rounded config_target seed order eligible_rows merged =
     rbind (build_quota rounded config_target seed (group_counts merged)) (\<lambda>(q, tgt).
     rbind (select order merged (quotas digest q)) (\<lambda>verdicts.
     rbind (reason_counts (reason_table verdicts) eligible_rows) (\<lambda>counts. Inr (verdicts, counts))))"

section \<open>What the cut selects\<close>

lemma foldl_mark_nth:
  "i < length a \<Longrightarrow> foldl (\<lambda>a i. a[i := x]) a is ! i = (if i \<in> set is then x else a ! i)"
proof (induction "is" arbitrary: a)
  case (Cons j js)
  then show ?case using Cons.IH [of "a[j := x]"] by (auto simp: nth_list_update)
qed simp

lemma length_foldl_mark [simp]: "length (foldl (\<lambda>a i. a[i := x]) a is) = length a"
  by (induction "is" arbitrary: a) auto

definition survivor_indices :: "group_row list \<Rightarrow> nat list" where
  "survivor_indices grp = filter (\<lambda>i. row_reason (grp ! i) = None) [0..<length grp]"

definition cut_winners :: "within_group_order \<Rightarrow> int \<Rightarrow> group_row list \<Rightarrow> nat list" where
  "cut_winners order quota grp =
     take (nat quota) (sort_key (\<lambda>i. sort_key_of order (grp ! i)) (survivor_indices grp))"

definition cut_reason :: "within_group_order \<Rightarrow> int \<Rightarrow> group_row list \<Rightarrow> nat \<Rightarrow> string option" where
  "cut_reason order quota grp i =
     (case row_reason (grp ! i) of
        Some r \<Rightarrow> Some r
      | None \<Rightarrow> Some (if i \<in> set (cut_winners order quota grp) then SELECTED else if quota = 0 then UNFUNDED else BELOW_QUOTA))"

lemma filter_sort_key: "filter P (sort_key f xs) = sort_key f (filter P xs)"
  by (simp add: filter_sort)

lemma length_survivors: "length (survivor_indices grp) = length (filter (\<lambda>row. row_reason row = None) grp)"
proof -
  have "map (\<lambda>i. grp ! i) (survivor_indices grp) = filter (\<lambda>row. row_reason row = None) grp"
    unfolding survivor_indices_def by (metis (mono_tags, lifting) comp_apply filter_cong filter_map map_nth)
  then show ?thesis by (metis length_map)
qed

lemma select_within_quota_rows:
  assumes "select_within_quota grp qs order = Inr rows" "survivor_indices grp \<noteq> []"
  shows "\<exists>key quota. one_level2_key grp = Inr key \<and> map_of qs key = Some quota \<and>
    rows = verdict_rows grp (map (cut_reason order quota grp) [0..<length grp])"
proof -
  have "length (filter (\<lambda>s. s) (map (\<lambda>reason. reason = None) (map row_reason grp))) = length (survivor_indices grp)"
    by (simp add: length_survivors filter_map comp_def)
  then have some: "length (filter (\<lambda>s. s) (map (\<lambda>reason. reason = None) (map row_reason grp))) \<noteq> 0"
    using assms(2) by (simp only: length_0_conv) simp
  obtain key where key: "one_level2_key grp = Inr key"
    using assms(1) some by (cases "one_level2_key grp") (simp_all only: select_within_quota_def Let_def if_False rbind_Inl, simp_all)
  obtain quota where quota: "map_of qs key = Some quota"
    using assms(1) some key by (cases "map_of qs key") (simp_all only: select_within_quota_def Let_def if_False rbind_Inr option.case, simp_all)
  have rows: "rows = verdict_rows grp (map2 (\<lambda>reason verdict. case reason of Some r \<Rightarrow> Some r | None \<Rightarrow> Some verdict)
      (map row_reason grp)
      (let assigned = replicate (length grp) (if quota = 0 then UNFUNDED else BELOW_QUOTA);
           ranked = sort_key (\<lambda>i. sort_key_of order (grp ! i)) [0..<length grp];
           winners = take (nat quota) (filter (\<lambda>i. map (\<lambda>reason. reason = None) (map row_reason grp) ! i) ranked)
       in if quota > 0 then foldl (\<lambda>a i. a[i := SELECTED]) assigned winners else assigned))"
    using assms(1) some by (simp only: select_within_quota_def Let_def if_False rbind_Inr key quota option.case sum.inject)
  have "filter (\<lambda>i. map (\<lambda>reason. reason = None) (map row_reason grp) ! i) (sort_key (\<lambda>i. sort_key_of order (grp ! i)) [0..<length grp]) =
      sort_key (\<lambda>i. sort_key_of order (grp ! i)) (survivor_indices grp)"
    unfolding survivor_indices_def filter_sort_key by (intro arg_cong [where f = "sort_key _"] filter_cong) auto
  then have "rows = verdict_rows grp (map (cut_reason order quota grp) [0..<length grp])"
    unfolding rows Let_def cut_winners_def cut_reason_def
    by (intro arg_cong [where f = "verdict_rows grp"] nth_equalityI) (auto simp: foldl_mark_nth split: option.splits)
  with key quota show ?thesis by blast
qed

lemma verdict_rows_nth:
  "i < length grp \<Longrightarrow> length reasons = length grp \<Longrightarrow>
   verdict_rows grp reasons ! i = \<lparr>verdict_key = clip_key (grp ! i), verdict_fragment = row_fragment (grp ! i),
     verdict_dedup_key = row_dedup_key (grp ! i), verdict_reason = reasons ! i\<rparr>"
  by (simp add: verdict_rows_def)

lemma length_verdict_rows [simp]: "length reasons = length grp \<Longrightarrow> length (verdict_rows grp reasons) = length grp"
  by (simp add: verdict_rows_def)

lemma cut_winners_facts:
  "distinct (cut_winners order quota grp)"
  "set (cut_winners order quota grp) \<subseteq> {i. i < length grp \<and> row_reason (grp ! i) = None}"
  "length (cut_winners order quota grp) = min (nat quota) (length (survivor_indices grp))"
  by (auto simp: cut_winners_def survivor_indices_def min.commute dest!: in_set_takeD)

lemma cut_winners_first:
  assumes "i \<in> set (cut_winners order quota grp)" "j < length grp" "row_reason (grp ! j) = None" "j \<notin> set (cut_winners order quota grp)"
  shows "sort_key_of order (grp ! i) \<le> sort_key_of order (grp ! j)"
  using assms sort_prefix_least [of i "nat quota" "\<lambda>i. sort_key_of order (grp ! i)" "survivor_indices grp" j]
  by (simp add: cut_winners_def survivor_indices_def)

lemma verdict_names_distinct [simp]:
  "UNFUNDED \<noteq> SELECTED" "BELOW_QUOTA \<noteq> SELECTED" "SELECTED \<noteq> UNFUNDED" "SELECTED \<noteq> BELOW_QUOTA"
  by (simp_all add: UNFUNDED_def SELECTED_def BELOW_QUOTA_def)

text \<open>C14: The cut of a group selects as many of its survivors as its quota allows, none of them behind one it
  passed over, and leaves every row's identity, and every reason a row already had, as they were.\<close>
theorem cut_keeps_the_first:
  assumes "select_within_quota grp qs order = Inr rows" and "survivor_indices grp \<noteq> []"
  shows "\<exists>key quota. one_level2_key grp = Inr key \<and> map_of qs key = Some quota \<and> length rows = length grp \<and>
    (\<forall>i < length grp. verdict_key (rows ! i) = clip_key (grp ! i) \<and> verdict_fragment (rows ! i) = row_fragment (grp ! i) \<and>
       (\<forall>r. row_reason (grp ! i) = Some r \<longrightarrow> verdict_reason (rows ! i) = Some r)) \<and>
    card {i. i < length grp \<and> row_reason (grp ! i) = None \<and> verdict_reason (rows ! i) = Some SELECTED} =
      min (nat quota) (length (survivor_indices grp)) \<and>
    (\<forall>i < length grp. \<forall>j < length grp. row_reason (grp ! i) = None \<and> row_reason (grp ! j) = None \<and>
       verdict_reason (rows ! i) = Some SELECTED \<and> verdict_reason (rows ! j) \<noteq> Some SELECTED \<longrightarrow>
       sort_key_of order (grp ! i) \<le> sort_key_of order (grp ! j))"
proof -
  from select_within_quota_rows [OF assms] obtain key quota where key: "one_level2_key grp = Inr key" "map_of qs key = Some quota"
    and rows: "rows = verdict_rows grp (map (cut_reason order quota grp) [0..<length grp])" by blast
  have nth: "rows ! i = \<lparr>verdict_key = clip_key (grp ! i), verdict_fragment = row_fragment (grp ! i),
      verdict_dedup_key = row_dedup_key (grp ! i), verdict_reason = cut_reason order quota grp i\<rparr>"
    if "i < length grp" for i
    using that by (simp add: rows verdict_rows_nth)
  have sel: "verdict_reason (rows ! i) = Some SELECTED \<longleftrightarrow> i \<in> set (cut_winners order quota grp)"
    if "i < length grp" "row_reason (grp ! i) = None" for i
    using that by (simp add: nth cut_reason_def)
  then have "{i. i < length grp \<and> row_reason (grp ! i) = None \<and> verdict_reason (rows ! i) = Some SELECTED} = set (cut_winners order quota grp)"
    using cut_winners_facts(2) [of order quota grp] by blast
  then have "card {i. i < length grp \<and> row_reason (grp ! i) = None \<and> verdict_reason (rows ! i) = Some SELECTED} =
      min (nat quota) (length (survivor_indices grp))"
    using cut_winners_facts(1,3) [of order quota grp] distinct_card by fastforce
  moreover have "length rows = length grp" by (simp add: rows)
  moreover have "\<forall>i < length grp. verdict_key (rows ! i) = clip_key (grp ! i) \<and> verdict_fragment (rows ! i) = row_fragment (grp ! i) \<and>
       (\<forall>r. row_reason (grp ! i) = Some r \<longrightarrow> verdict_reason (rows ! i) = Some r)"
    by (simp add: nth cut_reason_def)
  moreover have "\<forall>i < length grp. \<forall>j < length grp. row_reason (grp ! i) = None \<and> row_reason (grp ! j) = None \<and>
       verdict_reason (rows ! i) = Some SELECTED \<and> verdict_reason (rows ! j) \<noteq> Some SELECTED \<longrightarrow>
       sort_key_of order (grp ! i) \<le> sort_key_of order (grp ! j)"
    using sel cut_winners_first by blast
  ultimately show ?thesis using key by blast
qed

section \<open>The whole selection\<close>

lemma remdups_constant: "xs \<noteq> [] \<Longrightarrow> \<forall>x \<in> set xs. x = a \<Longrightarrow> remdups xs = [a]"
proof (induction xs)
  case (Cons x xs)
  then show ?case by (cases xs) auto
qed simp

lemma one_level2_key_uniform:
  "grp \<noteq> [] \<Longrightarrow> \<forall>row \<in> set grp. row_key row = key \<Longrightarrow> one_level2_key grp = Inr key"
  by (cases key) (simp add: one_level2_key_def row_key_def remdups_constant [of _ "fst key"] remdups_constant [of _ "snd key"])

lemma select_within_quota_returns:
  assumes "\<forall>row \<in> set grp. row_key row = key" "survivor_indices grp \<noteq> [] \<Longrightarrow> map_of qs key = Some quota"
  shows "\<exists>rows. select_within_quota grp qs order = Inr rows"
proof (cases "survivor_indices grp = []")
  case True
  then have "filter (\<lambda>row. row_reason row = None) grp = []" using length_survivors [of grp] by simp
  then show ?thesis by (simp add: select_within_quota_def Let_def filter_map comp_def)
next
  case False
  then have "grp \<noteq> []" by (auto simp: survivor_indices_def)
  with one_level2_key_uniform assms(1) have "one_level2_key grp = Inr key" by blast
  then show ?thesis using assms(2) [OF False] by (simp add: select_within_quota_def Let_def)
qed

definition selected_count :: "verdict_row list \<Rightarrow> nat" where
  "selected_count rows = length (filter (\<lambda>v. verdict_reason v = Some SELECTED) rows)"

lemma sum_filter_by_key:
  "finite K \<Longrightarrow> f ` set xs \<subseteq> K \<Longrightarrow> (\<Sum>k\<in>K. length (filter (\<lambda>x. f x = k \<and> P x) xs)) = length (filter P xs)"
proof (induction xs)
  case (Cons x xs)
  have "length (filter (\<lambda>y. f y = k \<and> P y) (x # xs)) = (if k = f x then (if P x then 1 else 0) else 0) + length (filter (\<lambda>y. f y = k \<and> P y) xs)" for k
    by simp
  then show ?case using Cons by (simp add: sum.distrib)
qed simp

lemma update_fresh: "k \<notin> fst ` set al \<Longrightarrow> AList.update k v al = al @ [(k, v)]"
  by (induction al) auto

lemma foldl_update_fresh:
  "distinct (map k (filter P xs)) \<Longrightarrow> k ` set (filter P xs) \<inter> fst ` set al = {} \<Longrightarrow>
   foldl (\<lambda>al x. if P x then AList.update (k x) (v x) al else al) al xs = al @ map (\<lambda>x. (k x, v x)) (filter P xs)"
proof (induction xs arbitrary: al)
  case (Cons x xs)
  show ?case
  proof (cases "P x")
    case True
    then have "k x \<notin> fst ` set al" using Cons.prems by auto
    with True Cons.prems Cons.IH [of "al @ [(k x, v x)]"] show ?thesis by (auto simp: update_fresh)
  qed (use Cons in auto)
qed simp

text \<open>The survivors of a key, and the counts the quota is built from.\<close>

definition survivors_of :: "group_row list \<Rightarrow> level2_key \<Rightarrow> nat" where
  "survivors_of merged key = length (filter (\<lambda>row. row_key row = key \<and> row_reason row = None) merged)"

definition survivor_counts :: "group_row list \<Rightarrow> (level2_key \<times> int) list" where
  "survivor_counts merged = survivor_group_counts (group_counts merged)"

lemma survivor_counts_facts:
  shows "distinct (map fst (survivor_counts merged))"
    and "(key, n) \<in> set (survivor_counts merged) \<longleftrightarrow> 0 < survivors_of merged key \<and> n = int (survivors_of merged key)"
proof -
  let ?triples = "remdups (map (\<lambda>row. (canonical_task row, subtask_cluster row, row_reason row)) merged)"
  let ?P = "\<lambda>(task :: string, cluster :: int, reason :: string option, n :: int). reason = None \<and> n > 0"
  let ?k = "\<lambda>(task :: string, cluster :: int, reason :: string option, n :: int). (task, cluster)"
  let ?v = "\<lambda>(task :: string, cluster :: int, reason :: string option, n :: int). n"
  have dist: "distinct (map ?k (filter ?P (group_counts merged)))"
    unfolding distinct_map
  proof
    show "distinct (filter ?P (group_counts merged))"
      unfolding group_counts_def by (intro distinct_filter) (auto simp: distinct_map inj_on_def)
    show "inj_on ?k (set (filter ?P (group_counts merged)))"
      by (auto simp: inj_on_def group_counts_def)
  qed
  have step: "(\<lambda>counts (task, cluster, reason, n). if reason = None \<and> n > 0 then AList.update (task, cluster) n counts else counts) =
      (\<lambda>al x. if ?P x then AList.update (?k x) (?v x) al else al)"
    by (auto simp: fun_eq_iff)
  have eq: "survivor_counts merged = map (\<lambda>x. (?k x, ?v x)) (filter ?P (group_counts merged))"
    unfolding survivor_counts_def survivor_group_counts_def step using foldl_update_fresh [OF dist, of "[]" ?v] by simp
  then show "distinct (map fst (survivor_counts merged))" using dist by (simp only: map_map comp_def fst_conv)
  obtain task cluster where key: "key = (task, cluster)" by force
  let ?s = "length (filter (\<lambda>row. canonical_task row = task \<and> subtask_cluster row = cluster \<and> row_reason row = None) merged)"
  have s: "survivors_of merged key = ?s"
    by (simp add: survivors_of_def row_key_def key conj_assoc)
  have pos: "0 < ?s \<longleftrightarrow> (task, cluster, None) \<in> set ?triples"
    by (auto simp: filter_empty_conv image_iff)
  have "(key, n) \<in> set (survivor_counts merged) \<longleftrightarrow> (task, cluster, None, n) \<in> set (group_counts merged) \<and> 0 < n"
    unfolding eq key by (auto simp: image_iff)
  also have "(task, cluster, None, n) \<in> set (group_counts merged) \<longleftrightarrow> (task, cluster, None) \<in> set ?triples \<and> n = int ?s"
    unfolding group_counts_def set_map by (auto simp: image_iff simp del: set_remdups intro!: bexI [of _ "(task, cluster, None)"])
  finally show "(key, n) \<in> set (survivor_counts merged) \<longleftrightarrow> 0 < survivors_of merged key \<and> n = int (survivors_of merged key)"
    unfolding s using pos by auto
qed

lemma survivor_counts_sum:
  "sum_list (map snd (survivor_counts merged)) = int (length (filter (\<lambda>row. row_reason row = None) merged))"
proof -
  let ?keys = "row_key ` set merged"
  have sub: "fst ` set (survivor_counts merged) \<subseteq> ?keys"
  proof
    fix key assume "key \<in> fst ` set (survivor_counts merged)"
    then have "0 < survivors_of merged key" by (auto simp: survivor_counts_facts(2))
    then obtain row where "row \<in> set merged" "row_key row = key" by (auto simp: survivors_of_def filter_empty_conv)
    then show "key \<in> ?keys" by blast
  qed
  have none: "survivors_of merged k = 0" if "k \<notin> fst ` set (survivor_counts merged)" for k
    using that survivor_counts_facts(2) [of k "int (survivors_of merged k)" merged] by force
  have "sum_list (map snd (survivor_counts merged)) = (\<Sum>x\<in>set (survivor_counts merged). snd x)"
    using survivor_counts_facts(1) by (simp add: distinct_map sum_list_distinct_conv_sum_set)
  also have "\<dots> = (\<Sum>x\<in>set (survivor_counts merged). int (survivors_of merged (fst x)))"
    by (rule sum.cong) (auto simp: survivor_counts_facts(2))
  also have "\<dots> = (\<Sum>k\<in>fst ` set (survivor_counts merged). int (survivors_of merged k))"
    using survivor_counts_facts(1) by (simp add: distinct_map sum.reindex)
  also have "\<dots> = (\<Sum>k\<in>?keys. int (survivors_of merged k))"
    using sub none by (intro sum.mono_neutral_left) auto
  also have "\<dots> = int (\<Sum>k\<in>?keys. survivors_of merged k)" by simp
  also have "(\<Sum>k\<in>?keys. survivors_of merged k) = length (filter (\<lambda>row. row_reason row = None) merged)"
    unfolding survivors_of_def by (rule sum_filter_by_key) auto
  finally show ?thesis .
qed

lemma mset_concat_groups:
  "distinct ks \<Longrightarrow> f ` set xs \<subseteq> set ks \<Longrightarrow> mset (concat (map (\<lambda>k. filter (\<lambda>x. f x = k) xs) ks)) = mset xs"
proof (induction ks arbitrary: xs)
  case (Cons k ks)
  let ?rest = "filter (\<lambda>x. f x \<noteq> k) xs"
  have "map (\<lambda>j. filter (\<lambda>x. f x = j) xs) ks = map (\<lambda>j. filter (\<lambda>x. f x = j) ?rest) ks"
    using Cons.prems(1) by (intro map_cong refl) (auto intro: filter_cong)
  then have "mset (concat (map (\<lambda>j. filter (\<lambda>x. f x = j) xs) (k # ks))) =
      mset (filter (\<lambda>x. f x = k) xs) + mset (concat (map (\<lambda>j. filter (\<lambda>x. f x = j) ?rest) ks))"
    by (simp only: list.map concat.simps mset_append)
  also have "mset (concat (map (\<lambda>j. filter (\<lambda>x. f x = j) ?rest) ks)) = mset ?rest"
    using Cons.prems by (intro Cons.IH) auto
  also have "mset (filter (\<lambda>x. f x = k) xs) + mset ?rest = mset xs"
    by (simp add: multiset_partition [symmetric])
  finally show ?case .
qed simp

lemma map_groups_returns:
  "\<forall>g \<in> set gs. \<exists>rows. f g = Inr rows \<Longrightarrow> map_groups f gs = Inr (concat (map (\<lambda>g. projr (f g)) gs))"
  by (induction gs) auto

definition row_identity :: "group_row \<Rightarrow> string \<times> int \<times> int" where
  "row_identity row = (clip_key row, row_fragment row, row_dedup_key row)"

definition verdict_identity :: "verdict_row \<Rightarrow> string \<times> int \<times> int" where
  "verdict_identity v = (verdict_key v, verdict_fragment v, verdict_dedup_key v)"

lemma verdict_rows_identity:
  "length reasons = length grp \<Longrightarrow> map verdict_identity (verdict_rows grp reasons) = map row_identity grp"
  by (rule nth_equalityI) (simp_all add: verdict_rows_nth verdict_identity_def row_identity_def)

lemma verdict_rows_reason: "length reasons = length grp \<Longrightarrow> map verdict_reason (verdict_rows grp reasons) = reasons"
  by (rule nth_equalityI) (simp_all add: verdict_rows_nth)

lemma selected_count_reasons: "selected_count rows = length (filter (\<lambda>r. r = Some SELECTED) (map verdict_reason rows))"
  by (simp add: selected_count_def filter_map comp_def)

lemma count_indices: "length (filter P (map f [0..<n])) = card {i. i < n \<and> P (f i)}"
proof -
  have "length (filter P (map f [0..<n])) = length (filter (P \<circ> f) [0..<n])" by (simp add: filter_map)
  also have "\<dots> = card (set (filter (P \<circ> f) [0..<n]))" by (rule distinct_card [symmetric]) simp
  also have "set (filter (P \<circ> f) [0..<n]) = {i. i < n \<and> P (f i)}" by auto
  finally show ?thesis .
qed

lemma select_group:
  assumes "\<forall>row \<in> set grp. row_key row = key \<and> row_reason row \<noteq> Some SELECTED"
    and "survivor_indices grp \<noteq> [] \<Longrightarrow> map_of qs key = Some quota \<and> quota \<le> int (length (survivor_indices grp))"
  shows "\<exists>rows. select_within_quota grp qs order = Inr rows \<and> map verdict_identity rows = map row_identity grp \<and>
    None \<notin> set (map verdict_reason rows) \<and> selected_count rows = (if survivor_indices grp = [] then 0 else nat quota)"
proof (cases "survivor_indices grp = []")
  case True
  then have none: "filter (\<lambda>row. row_reason row = None) grp = []" using length_survivors [of grp] by simp
  then have eq: "select_within_quota grp qs order = Inr (verdict_rows grp (map row_reason grp))"
    by (simp add: select_within_quota_def Let_def filter_map comp_def)
  have reasons: "map verdict_reason (verdict_rows grp (map row_reason grp)) = map row_reason grp"
    by (rule verdict_rows_reason) simp
  have "filter (\<lambda>r. r = Some SELECTED) (map row_reason grp) = []" "None \<notin> set (map row_reason grp)"
    using assms(1) none by (auto simp: filter_empty_conv)
  then show ?thesis using eq True by (simp add: verdict_rows_identity selected_count_reasons reasons del: set_map length_filter_map)
next
  case False
  then have quota: "map_of qs key = Some quota" "quota \<le> int (length (survivor_indices grp))" using assms(2) by auto
  obtain rows where rows: "select_within_quota grp qs order = Inr rows"
    using select_within_quota_returns assms quota(1) by blast
  have "grp \<noteq> []" using False by (auto simp: survivor_indices_def)
  then have "one_level2_key grp = Inr key" using one_level2_key_uniform assms(1) by blast
  with select_within_quota_rows [OF rows False] quota(1)
  have eq: "rows = verdict_rows grp (map (cut_reason order quota grp) [0..<length grp])" by auto
  have "{i. i < length grp \<and> cut_reason order quota grp i = Some SELECTED} = set (cut_winners order quota grp)"
    using assms(1) cut_winners_facts(2) [of order quota grp] nth_mem [of _ grp]
    by (fastforce simp: cut_reason_def split: option.splits if_splits)
  moreover have reasons: "map verdict_reason rows = map (cut_reason order quota grp) [0..<length grp]"
    unfolding eq by (rule verdict_rows_reason) simp
  moreover have "selected_count rows = card {i. i < length grp \<and> cut_reason order quota grp i = Some SELECTED}"
    unfolding selected_count_reasons reasons by (rule count_indices)
  ultimately have "selected_count rows = length (cut_winners order quota grp)"
    by (simp add: distinct_card cut_winners_facts(1))
  moreover have "None \<notin> set (map verdict_reason rows)"
    unfolding reasons by (auto simp: cut_reason_def split: option.splits)
  ultimately show ?thesis
    using rows False quota(2) eq by (auto simp: verdict_rows_identity cut_winners_facts(3))
qed

lemma int_sum_list: "int (sum_list (map f xs)) = sum_list (map (\<lambda>x. int (f x)) xs)"
  by (induction xs) auto

lemma reason_counts_returns:
  assumes "None \<notin> set (map verdict_reason vs)"
  shows "\<exists>counts. reason_counts (reason_table vs) (int (length vs)) = Inr counts"
proof -
  let ?P = "\<lambda>(reason :: string option, n :: int). reason \<noteq> None"
  let ?rs = "remdups (map verdict_reason vs)"
  have some: "\<forall>x \<in> set (reason_table vs). ?P x" using assms by (auto simp: reason_table_def image_iff) (metis not_None_eq)
  then have all: "filter ?P (reason_table vs) = reason_table vs" by (rule filter_True)
  have none: "filter (\<lambda>(reason, n). reason = None) (reason_table vs) = []" using some by (auto simp: filter_empty_conv)
  have step: "(\<lambda>counts (reason, n). case reason of None \<Rightarrow> counts | Some r \<Rightarrow> AList.update r n counts) =
      (\<lambda>al x. if ?P x then AList.update (the (fst x)) (snd x) al else al)"
    by (auto simp: fun_eq_iff split: option.splits)
  have "distinct (map (\<lambda>x. the (fst x)) (reason_table vs))"
  proof -
    have "map (\<lambda>x. the (fst x)) (reason_table vs) = map the ?rs" by (simp add: reason_table_def comp_def)
    moreover have "distinct (map the ?rs)"
      using assms unfolding distinct_map by (auto simp: inj_on_def) (metis option.expand imageI)
    ultimately show ?thesis by simp
  qed
  then have "foldl (\<lambda>counts (reason, n). case reason of None \<Rightarrow> counts | Some r \<Rightarrow> AList.update r n counts) [] (reason_table vs) =
      map (\<lambda>x. (the (fst x), snd x)) (reason_table vs)"
    unfolding step using foldl_update_fresh [of "\<lambda>x. the (fst x)" ?P "reason_table vs" "[]" snd, unfolded all] by simp
  moreover have "sum_list (map snd (reason_table vs)) = int (length vs)"
  proof -
    have "sum_list (map snd (reason_table vs)) = int (\<Sum>r\<leftarrow>?rs. length (filter (\<lambda>v. verdict_reason v = r) vs))"
      by (simp add: reason_table_def comp_def int_sum_list del: set_remdups)
    also have "(\<Sum>r\<leftarrow>?rs. length (filter (\<lambda>v. verdict_reason v = r) vs)) = (\<Sum>r\<in>set ?rs. length (filter (\<lambda>v. verdict_reason v = r \<and> True) vs))"
      by (simp add: sum_list_distinct_conv_sum_set)
    also have "\<dots> = length (filter (\<lambda>v. True) vs)" by (rule sum_filter_by_key) auto
    finally show ?thesis by simp
  qed
  ultimately show ?thesis using none by (simp add: reason_counts_def Let_def comp_def)
qed

lemma granted_lookup:
  "list_all2 granted r ps \<Longrightarrow> map_of ps k = Some c \<Longrightarrow> \<exists>a. map_of r k = Some a \<and> 0 \<le> a \<and> a \<le> c"
  by (induction r ps rule: list_all2_induct) (auto simp: granted_def split: if_splits)

lemma granted_keys: "list_all2 granted r ps \<Longrightarrow> map fst r = map fst ps"
  by (induction r ps rule: list_all2_induct) (auto simp: granted_def)

lemma sum_by_lookup:
  assumes "distinct (map fst r)"
  shows "sum_list (map snd r) = (\<Sum>k\<in>fst ` set r. the (map_of r k))"
proof -
  have "(\<Sum>k\<in>fst ` set r. the (map_of r k)) = (\<Sum>x\<in>set r. the (map_of r (fst x)))"
    using assms by (simp add: distinct_map sum.reindex)
  also have "\<dots> = (\<Sum>x\<in>set r. snd x)"
    using assms by (intro sum.cong) auto
  finally show ?thesis using assms by (simp add: distinct_map sum_list_distinct_conv_sum_set)
qed

lemma resolve_bounds:
  assumes "\<And>c. target_count t = Some c \<Longrightarrow> 0 \<le> c" "0 < n"
  shows "0 \<le> resolve rounded t n \<and> resolve rounded t n \<le> n"
  using assms by (auto simp: resolve_def Let_def split: option.splits)

text \<open>The cut of all groups under quotas that cover every surviving group.\<close>

lemma select_with_quotas:
  assumes "\<forall>row \<in> set merged. row_reason row \<noteq> Some SELECTED"
    and lookup: "\<And>k. 0 < survivors_of merged k \<Longrightarrow> \<exists>a. map_of r k = Some a \<and> 0 \<le> a \<and> a \<le> int (survivors_of merged k)"
  shows "\<exists>verdicts. select order merged r = Inr verdicts \<and> mset (map verdict_identity verdicts) = mset (map row_identity merged) \<and>
    None \<notin> set (map verdict_reason verdicts) \<and>
    selected_count verdicts = (\<Sum>k\<in>row_key ` set merged. if survivors_of merged k = 0 then 0 else nat (the (map_of r k)))"
proof -
  let ?rows = "\<lambda>k. filter (\<lambda>row. row_key row = k) merged"
  let ?cut = "\<lambda>g. projr (select_within_quota g r order)"
  let ?ks = "remdups (map row_key merged)"
  have cut: "select_within_quota (?rows k) r order = Inr (?cut (?rows k)) \<and> map verdict_identity (?cut (?rows k)) = map row_identity (?rows k) \<and>
      None \<notin> set (map verdict_reason (?cut (?rows k))) \<and>
      selected_count (?cut (?rows k)) = (if survivors_of merged k = 0 then 0 else nat (the (map_of r k)))" for k
  proof -
    have len: "length (survivor_indices (?rows k)) = survivors_of merged k"
      by (simp add: length_survivors survivors_of_def conj_commute)
    then have pos: "survivor_indices (?rows k) \<noteq> [] \<longleftrightarrow> 0 < survivors_of merged k" by (metis length_greater_0_conv)
    have "\<exists>rows. select_within_quota (?rows k) r order = Inr rows \<and> map verdict_identity rows = map row_identity (?rows k) \<and>
        None \<notin> set (map verdict_reason rows) \<and> selected_count rows = (if survivor_indices (?rows k) = [] then 0 else nat (the (map_of r k)))"
    proof (rule select_group)
      show "map_of r k = Some (the (map_of r k)) \<and> the (map_of r k) \<le> int (length (survivor_indices (?rows k)))"
        if "survivor_indices (?rows k) \<noteq> []"
        using lookup [of k] that pos len by auto
    qed (use assms(1) in auto)
    then show ?thesis using pos by auto
  qed
  define verdicts where "verdicts = concat (map (\<lambda>k. ?cut (?rows k)) ?ks)"
  have "\<forall>g \<in> set (groups_of merged). \<exists>rows. select_within_quota g r order = Inr rows"
    unfolding groups_of_def set_map using cut by blast
  from map_groups_returns [OF this] have "select order merged r = Inr verdicts"
    by (simp add: select_def verdicts_def groups_of_def comp_def)
  moreover have "map verdict_identity verdicts = map row_identity (concat (map ?rows ?ks))"
    using cut by (simp add: verdicts_def map_concat comp_def)
  then have "mset (map verdict_identity verdicts) = mset (map row_identity merged)"
    using mset_concat_groups [of ?ks row_key merged] by (simp only: mset_map) auto
  moreover have "None \<notin> set (map verdict_reason verdicts)"
  proof
    assume "None \<in> set (map verdict_reason verdicts)"
    then obtain k where "None \<in> set (map verdict_reason (?cut (?rows k)))"
      unfolding verdicts_def set_map set_concat by blast
    then show False using cut by blast
  qed
  moreover have "selected_count verdicts = (\<Sum>k\<leftarrow>?ks. selected_count (?cut (?rows k)))"
    by (simp add: verdicts_def selected_count_def filter_concat length_concat comp_def)
  then have "selected_count verdicts = (\<Sum>k\<in>row_key ` set merged. if survivors_of merged k = 0 then 0 else nat (the (map_of r k)))"
    using cut by (simp add: sum_list_distinct_conv_sum_set)
  ultimately show ?thesis by blast
qed

text \<open>The quotas built from the counts of the merged rows.\<close>

lemma quotas_of_survivors:
  assumes "0 \<le> tgt" "tgt \<le> int (length (filter (\<lambda>row. row_reason row = None) merged))" "length merged < 2 ^ 63"
  shows "\<exists>q. build (map fst (survivor_counts merged)) (map snd (survivor_counts merged)) tgt seed = Inr q \<and>
    (\<forall>k. 0 < survivors_of merged k \<longrightarrow> (\<exists>a. map_of (quotas digest q) k = Some a \<and> 0 \<le> a \<and> a \<le> int (survivors_of merged k))) \<and>
    (\<Sum>k\<in>row_key ` set merged. if survivors_of merged k = 0 then 0 else nat (the (map_of (quotas digest q) k))) = nat tgt"
proof -
  let ?keys = "map fst (survivor_counts merged)" and ?counts = "map snd (survivor_counts merged)"
  have sum: "sum_list ?counts < 2 ^ 63"
    using order.strict_trans1 [OF length_filter_le assms(3), of "\<lambda>row. row_reason row = None"] by (simp add: survivor_counts_sum)
  have "\<forall>c \<in> set ?counts. 0 < c" by (auto simp: survivor_counts_facts(2))
  then obtain q where q: "build ?keys ?counts tgt seed = Inr q"
    using build_succeeds [of ?keys ?counts tgt seed] survivor_counts_facts(1) assms(1) sum by auto
  let ?r = "quotas digest q"
  have granted: "list_all2 granted ?r (ordered_pairs ?keys ?counts)" and total: "sum_list (map snd ?r) = tgt"
    using quotas_granted [OF q sum, of digest] survivor_counts_sum [of merged] assms(2) by simp_all
  have dist: "distinct (map fst (ordered_pairs ?keys ?counts))"
    using ordered_pairs_facts(4) [of ?keys ?counts] survivor_counts_facts(1) by (simp add: strict_sorted_iff)
  have ordered: "set (ordered_pairs ?keys ?counts) = set (survivor_counts merged)"
    using ordered_pairs_facts(1) [of ?keys ?counts] by (metis length_map mset_eq_setD zip_map_fst_snd)
  have lookup: "\<exists>a. map_of ?r k = Some a \<and> 0 \<le> a \<and> a \<le> int (survivors_of merged k)" if "0 < survivors_of merged k" for k
    using granted_lookup [OF granted] that dist ordered by (simp add: survivor_counts_facts(2))
  have "fst ` set ?r = fst ` set (survivor_counts merged)"
    using arg_cong [OF granted_keys [OF granted], of set] ordered by simp
  also have "\<dots> = {k. \<exists>n. (k, n) \<in> set (survivor_counts merged)}" by force
  finally have dom: "fst ` set ?r = {k. 0 < survivors_of merged k}" by (simp add: survivor_counts_facts(2))
  have "int (\<Sum>k\<in>row_key ` set merged. if survivors_of merged k = 0 then 0 else nat (the (map_of ?r k))) =
      (\<Sum>k\<in>row_key ` set merged. if 0 < survivors_of merged k then the (map_of ?r k) else 0)"
    unfolding of_nat_sum
  proof (rule sum.cong [OF refl])
    show "int (if survivors_of merged k = 0 then 0 else nat (the (map_of ?r k))) = (if 0 < survivors_of merged k then the (map_of ?r k) else 0)" for k
      using lookup [of k] by (cases "survivors_of merged k = 0") auto
  qed
  also have "\<dots> = (\<Sum>k\<in>fst ` set ?r. the (map_of ?r k))"
  proof (rule sum.mono_neutral_cong_right)
    show "fst ` set ?r \<subseteq> row_key ` set merged"
      unfolding dom
    proof
      fix k assume "k \<in> {k. 0 < survivors_of merged k}"
      then obtain row where "row \<in> set merged" "row_key row = k" by (auto simp: survivors_of_def filter_empty_conv)
      then show "k \<in> row_key ` set merged" by blast
    qed
  qed (auto simp: dom)
  also have "\<dots> = tgt"
    using sum_by_lookup [of ?r] granted_keys [OF granted] dist total by simp
  finally have "(\<Sum>k\<in>row_key ` set merged. if survivors_of merged k = 0 then 0 else nat (the (map_of ?r k))) = nat tgt"
    by (metis nat_int)
  with q lookup show ?thesis by blast
qed

text \<open>C9: A curation run over rows some of which survived selects exactly the resolved target, gives every row a
  reason and loses or duplicates no row; it raises nothing.\<close>
theorem curate_selects_the_target:
  assumes "\<And>c. target_count t = Some c \<Longrightarrow> 0 \<le> c" and "\<forall>row \<in> set merged. row_reason row \<noteq> Some SELECTED"
    and "length merged < 2 ^ 63" and "filter (\<lambda>row. row_reason row = None) merged \<noteq> []"
  shows "\<exists>verdicts counts. curate digest rounded t seed order (int (length merged)) merged = Inr (verdicts, counts) \<and>
    selected_count verdicts = nat (resolve rounded t (int (length (filter (\<lambda>row. row_reason row = None) merged)))) \<and>
    mset (map verdict_identity verdicts) = mset (map row_identity merged) \<and> None \<notin> set (map verdict_reason verdicts)"
proof -
  let ?n = "int (length (filter (\<lambda>row. row_reason row = None) merged))"
  define tgt where "tgt = resolve rounded t ?n"
  have n: "0 < ?n" using assms(4) by simp
  have tgt: "0 \<le> tgt" "tgt \<le> ?n" using resolve_bounds [OF assms(1) n] by (simp_all add: tgt_def)
  from quotas_of_survivors [OF tgt assms(3), of seed digest] obtain q
    where q: "build (map fst (survivor_counts merged)) (map snd (survivor_counts merged)) tgt seed = Inr q"
    and lookup: "\<And>k. 0 < survivors_of merged k \<Longrightarrow> \<exists>a. map_of (quotas digest q) k = Some a \<and> 0 \<le> a \<and> a \<le> int (survivors_of merged k)"
    and total: "(\<Sum>k\<in>row_key ` set merged. if survivors_of merged k = 0 then 0 else nat (the (map_of (quotas digest q) k))) = nat tgt"
    by blast
  from select_with_quotas [OF assms(2) lookup, of order] obtain verdicts
    where sel: "select order merged (quotas digest q) = Inr verdicts" "None \<notin> set (map verdict_reason verdicts)"
    and identity: "mset (map verdict_identity verdicts) = mset (map row_identity merged)"
    and count: "selected_count verdicts = nat tgt"
    unfolding total by blast
  have "length verdicts = length merged" using identity by (metis length_map mset_eq_length)
  then obtain counts where "reason_counts (reason_table verdicts) (int (length merged)) = Inr counts"
    using reason_counts_returns [OF sel(2)] by auto
  moreover have "build_quota rounded t seed (group_counts merged) = Inr (q, tgt)"
    using q n survivor_counts_sum [of merged] by (simp add: build_quota_def survivor_counts_def [symmetric] tgt_def Let_def)
  ultimately have "curate digest rounded t seed order (int (length merged)) merged = Inr (verdicts, counts)"
    using sel(1) by (simp add: curate_def)
  then show ?thesis using sel(2) count identity unfolding tgt_def by blast
qed

definition sample_row :: "string \<Rightarrow> int \<Rightarrow> string \<Rightarrow> rat \<Rightarrow> string option \<Rightarrow> group_row" where
  "sample_row task cell clip d reason = \<lparr>canonical_task = task, subtask_cluster = cell, clip_key = clip, row_fragment = 0,
     row_dedup_key = 0, row_distance = Some d, row_reason = reason\<rparr>"

definition sample_group :: "group_row list" where
  "sample_group = [sample_row ''stack'' 1 ''b'' (1 / 2) None, sample_row ''stack'' 1 ''c'' (3 / 4) (Some ''duplicate''),
     sample_row ''stack'' 1 ''a'' (1 / 4) None]"

definition sample_merged :: "group_row list" where
  "sample_merged = sample_row ''fold'' 0 ''d'' 1 None # sample_group"

lemma sample_cut:
  "select_within_quota sample_group [((''stack'', 1), 1)] Nearest =
   Inr (verdict_rows sample_group [Some ''below_quota'', Some ''duplicate'', Some ''selected''])"
  by code_simp

lemma cut_keeps_the_first_witness:
  "card {i. i < 3 \<and> row_reason (sample_group ! i) = None \<and>
     verdict_reason (verdict_rows sample_group [Some ''below_quota'', Some ''duplicate'', Some ''selected''] ! i) = Some SELECTED} = 1"
proof -
  have "survivor_indices sample_group = [0, 2]" by code_simp
  moreover have "one_level2_key sample_group = Inr (''stack'', 1)" by code_simp
  moreover have "length sample_group = 3" by (simp add: sample_group_def)
  ultimately show ?thesis using cut_keeps_the_first [OF sample_cut] by simp
qed

lemma curate_selects_the_target_witness:
  "\<exists>verdicts counts. curate rev id \<lparr>target_count = Some 2, target_fraction = None\<rparr> 0 Farthest 4 sample_merged = Inr (verdicts, counts) \<and>
     selected_count verdicts = 2"
proof -
  have len: "length sample_merged = 4" by (simp add: sample_merged_def sample_group_def)
  have three: "length (filter (\<lambda>row. row_reason row = None) sample_merged) = 3"
    by (simp add: sample_merged_def sample_group_def sample_row_def)
  then have "filter (\<lambda>row. row_reason row = None) sample_merged \<noteq> []" by auto
  moreover have "\<forall>row \<in> set sample_merged. row_reason row \<noteq> Some SELECTED"
    by (simp add: sample_merged_def sample_group_def sample_row_def SELECTED_def)
  ultimately show ?thesis
    using curate_selects_the_target [of "\<lparr>target_count = Some 2, target_fraction = None\<rparr>" sample_merged rev id 0 Farthest]
    by (auto simp: len three resolve_def)
qed

end
