(* ===== verification/Spec2Isabelle.thy ===== *)
theory Spec2Isabelle
  imports Dedup ClipPublication SamplingNearest BoxTraversal BoxLocate MoofWalk FragmentTable BoxProbe BlockCache RunManifest SlurmCluster RayRuns FairnessCut
begin

text \<open>
  Cosmos Curator prepares video and sensor corpora. This library models the parts of it that decide what data a
  run reads, keeps and reports, and the client that runs it on a Slurm cluster:

  \<^item> \<^bold>\<open>MP4 decoding\<close> (\<^verbatim>\<open>core/sensors/mp4/\<close>). \<^verbatim>\<open>Bytes\<close> and \<^verbatim>\<open>BoxPrimitives\<close> read box headers and walk one level of
    boxes; \<^verbatim>\<open>BoxTraversal\<close> is the caching walk with its handlers for \<^verbatim>\<open>uuid\<close> boxes; \<^verbatim>\<open>BoxLocate\<close> finds the \<^verbatim>\<open>moov\<close> of
    a file over a range reader; \<^verbatim>\<open>MoofWalk\<close> walks the \<^verbatim>\<open>moof\<close> boxes of a stream read in chunks; \<^verbatim>\<open>MoovTrack\<close>,
    \<^verbatim>\<open>Moov\<close> and \<^verbatim>\<open>FragmentTable\<close> decode the sample tables of whole and of fragmented files; \<^verbatim>\<open>BoxProbe\<close> lays
    extracted boxes out as a sparse file.
  \<^item> \<^bold>\<open>Storage\<close> (\<^verbatim>\<open>core/utils/storage/block_cache_reader.py\<close>). \<^verbatim>\<open>BlockCache\<close> is the seekable reader with its least
    recently used blocks. \<^verbatim>\<open>BinaryFile\<close> is the contract of a readable stream between it and its clients.
  \<^item> \<^bold>\<open>Managed runs\<close> (\<^verbatim>\<open>client/slurm_cli/managed_ray/\<close>). \<^verbatim>\<open>RunManifest\<close> is the manifest and its state machine
    (\<^verbatim>\<open>onnode/slurm_ray_state.py\<close>), \<^verbatim>\<open>RayNode\<close> what runs inside an allocation (\<^verbatim>\<open>onnode/slurm_ray_runtime.py\<close>), \<^verbatim>\<open>SlurmJobs\<close>
    the scheduler client, \<^verbatim>\<open>SlurmRuns\<close> and \<^verbatim>\<open>SlurmStatus\<close> the operations of the user (scale, stop, status), \<^verbatim>\<open>PyText\<close>
    the string methods they parse command output with. \<^verbatim>\<open>SlurmCluster\<close> puts the client on a login node that runs
    the manifest module, and \<^verbatim>\<open>RayRuns\<close> puts the node on the same manifest.
  \<^item> \<^bold>\<open>Curation\<close> (\<^verbatim>\<open>next/recipes/curation/\<close>). \<^verbatim>\<open>WaterFill\<close> and \<^verbatim>\<open>Fairness\<close> are the nested quota of \<^verbatim>\<open>fairness.py\<close>,
    \<^verbatim>\<open>FairnessCut\<close> the cut of the groups and the driver's steps in \<^verbatim>\<open>pipeline.py\<close>; \<^verbatim>\<open>Dedup\<close> is the marking of
    duplicates of one group in \<^verbatim>\<open>dedup.py\<close>: its retention order, its tiled scores and its memory model.
  \<^item> \<^bold>\<open>Publication\<close> (\<^verbatim>\<open>next/utils/lance_fragment_recovery.py\<close>, \<^verbatim>\<open>next/recipes/robot_action_split/\<close>). \<^verbatim>\<open>LanceAppend\<close>
    is the idempotent append of staged fragments to a Lance table; \<^verbatim>\<open>ClipPublication\<close> is the clip recipe above it:
    what is left to do after a crash, the processing of the spans and the publication of their rows in fragments.
  \<^item> \<^bold>\<open>Sampling\<close> (\<^verbatim>\<open>core/sensors/sampling/\<close>, \<^verbatim>\<open>core/sensors/alignment/nearest.py\<close>). \<^verbatim>\<open>SamplingGrid\<close> is the grid and its
    windows, \<^verbatim>\<open>SamplingNearest\<close> the nearest observation of each reference and the sampling of a window.
    \<^verbatim>\<open>NumpyArrays\<close> holds the array operations they share with the quota.

  How the parts interact. The MP4 modules read a file through range requests or in chunks, or lay boxes they have
  extracted out as a sparse file. The block cache is one more stream over a stream: in the repository only
  \<^verbatim>\<open>core/utils/storage_cli.py\<close> opens objects through it, and the MP4 modules do not; the first two properties of this
  theory compose the three models all the same, to show that the contract of the cache is enough for the walk and
  for the sparse file. On a cluster the manifest file is the only state the user's machine, the head and the lanes
  share; all of them change it by one call of \<^verbatim>\<open>mutate_manifest\<close> under its lock, so an interleaving of them is a
  list of mutations, and each side is proved against arbitrary mutations of the others.

  Conventions. A function that may raise returns a sum, \<^verbatim>\<open>Inl\<close> the exception and \<^verbatim>\<open>Inr\<close> the result (\<^verbatim>\<open>rbind\<close> of
  \<^verbatim>\<open>Prelude\<close>); code that keeps state returns it too (\<^verbatim>\<open>sbind\<close>). Bytes are \<^verbatim>\<open>8 word\<close> lists, Python's integers are
  \<^verbatim>\<open>int\<close>, NumPy's \<^verbatim>\<open>int64\<close> is an \<^verbatim>\<open>int\<close> with its wrap or its refusal written out, and the bit pattern is a
  \<^verbatim>\<open>64 word\<close> where the code looks at it. A dictionary is a map, or an association list where its order shows.
  Exceptions are modelled by their class; their texts and the log are left out.

  Interfaces. \<^verbatim>\<open>binary_file\<close>, \<^verbatim>\<open>seekable_file\<close> and \<^verbatim>\<open>cached_stream\<close> state what a stream promises and what the cache
  promises over one, and are interpreted by the sparse file and by the cache over it; \<^verbatim>\<open>range_source\<close> is the
  range reader of the \<^verbatim>\<open>moov\<close> search, interpreted by \<^verbatim>\<open>_make_fetch_range\<close>; \<^verbatim>\<open>remote_relation\<close>, \<^verbatim>\<open>login_node\<close> and
  \<^verbatim>\<open>run_directory\<close> state what the client relies on from the other side of the network, and are interpreted by the
  cluster model of \<^verbatim>\<open>SlurmCluster\<close>, in which a command of the manifest module runs \<^verbatim>\<open>mutate_manifest\<close>.

  What the lemmas show. For the decoders: round trips with the serialised form, containment of every returned
  range, the exceptions that can leave them, and independence of how the input was cut into reads. For the
  cache: refinement of a plain file, the invariant of its blocks, and when it makes no request. For managed runs:
  refinement of an abstract run, its invariants, that a requested stop wins, that every submitted job is recorded
  or cancelled, that a scale leaves the lanes it was asked for, that status finalises only dead runs, and that
  cleanup ends the run and returns. For curation: the quota is max-min optimal, exact and independent of the order
  of its input, a run selects exactly its target, and duplicates are marked by the rule of the recipe, on scores as
  the device computes them, and stably where no pair is near the threshold. For publication: staged rows enter a
  table once, whatever commits report, and no span gets two rows over any number of runs. For sampling: each
  reference falls into exactly one window, and the chosen observation is the nearest one.

  Loops. Where the source's loop is bounded by data it is a recursive function with a measure. Where it waits for
  the world, or its step is a parameter that may be zero, it is a partial function into \<^verbatim>\<open>option\<close>, \<^verbatim>\<open>None\<close> when it
  never returns, and that it returns is a theorem of its own: for the drain of the lanes under the hypothesis that
  the clock advances, for the windows of a grid from the checks of its constructor. There is no fuel.

  Parameters. Slurm, the shell of the login node, the clock, Ray, the failures of the file system on a node, the
  wrapped stream of the cache, Lance's tables, what FFmpeg and Parquet make of a batch of spans, the BLAKE2b digest,
  the entries of a matrix product on a device, its memory and the similarity threshold, and the rounding of
  floating-point operations are arguments of the definitions that use them; what a
  theorem relies on from them is a hypothesis, and a witness instantiates each with a concrete function.

  Not modelled. The models (\<^verbatim>\<open>models/\<close>), the embedding and captioning pipelines and everything else whose work is
  done by PyTorch, vLLM, FFmpeg or Ray operators; float arithmetic on vectors (normalisation, label merging, GPS
  interpolation) and \<^verbatim>\<open>make_ts_grid\<close>, whose guarantees rest on double rounding; the other recipes, the NVCF client,
  Docker and Pixi set-up, command-line parsing, report rendering, profiling and logging; of the modelled modules
  sockets, process groups, signal handlers and threads, and of the file system all but its failures in the cleanup
  of a node.
\<close>

section \<open>The boxes-only stream, read back through the cache\<close>

lemma moof_layout_append:
  "moof_layout pos (xs @ ys) = moof_layout pos xs @ moof_layout (pos + blen (concat (map write_box xs))) ys"
  by (induction pos xs rule: moof_layout.induct) (auto simp: algebra_simps simp del: write_box.simps)

lemma filler_layout:
  assumes "(if gap \<noteq> 0 then rbind (filler_box_header t gap) (\<lambda>h. Inr [(p, h)]) else Inr []) = Inr filler"
    and "0 \<le> gap" "length t = 4" "t \<noteq> ''moof''"
  shows "moof_layout pos (filler_boxes t gap @ bs) = moof_layout (pos + gap) bs"
proof -
  have "blen (concat (map write_box (filler_boxes t gap))) = gap"
  proof (cases "gap = 0")
    case False
    with assms(1) obtain h where h: "filler_box_header t gap = Inr h" by (auto simp: result_simps)
    have "0 < gap" using False assms(2) by simp
    from filler_box_eq [OF h assms(3) this]
    have "concat (map write_box (filler_boxes t gap)) = h @ replicate (nat (gap - blen h)) 0" "blen h \<le> gap"
      by auto
    then show ?thesis by (simp only: length_append length_replicate of_nat_add)
  qed (simp add: filler_boxes_def)
  moreover have "moof_layout pos (filler_boxes t gap) = []" using assms(4) by (simp add: filler_boxes_def)
  ultimately show ?thesis by (simp add: moof_layout_append)
qed

lemma moof_segments_layout:
  assumes "moof_segments (moof_rows_of rows) (tl (map fst rows @ [sz])) = Inr segments"
    and "\<forall>(s, ext, t, p) \<in> set rows. t = ''moof''"
  shows "moof_layout (hd (map fst rows @ [sz])) (layout_boxes rows (tl (map fst rows @ [sz]))) = moof_rows_of rows"
  using assms
proof (induction rows arbitrary: segments)
  case Nil
  then show ?case by (simp add: moof_rows_of_def)
next
  case (Cons row rows)
  obtain s ext p where row: "row = (s, ext, ''moof'', p)" using Cons.prems(2) by (cases row) auto
  let ?b = "(ext, ''moof'', p)"
  let ?W = "write_box ?b" and ?next = "hd (map fst rows @ [sz])"
  let ?gap = "?next - s - blen ?W"
  have bounds: "map fst rows @ [sz] = ?next # tl (map fst rows @ [sz])" by (cases rows) auto
  have rows_eq: "moof_rows_of (row # rows) = (s, ?W) # moof_rows_of rows"
    by (simp add: moof_rows_of_def row)
  have tl_eq: "tl (map fst (row # rows) @ [sz]) = ?next # tl (map fst rows @ [sz])"
    using bounds by simp
  from Cons.prems(1) [unfolded rows_eq tl_eq moof_segments.simps(1) Let_def] obtain filler segs where gap: "0 \<le> ?gap"
    and filler: "(if ?gap \<noteq> 0 then rbind (filler_box_header ''mdat'' ?gap) (\<lambda>h. Inr [(s + blen ?W, h)])
       else Inr []) = Inr filler"
    and segs: "moof_segments (moof_rows_of rows) (tl (map fst rows @ [sz])) = Inr segs"
    by (auto simp: result_simps not_less simp del: write_box.simps split: if_splits)
  have "layout_boxes (row # rows) (tl (map fst (row # rows) @ [sz])) =
      ?b # filler_boxes ''mdat'' ?gap @ layout_boxes rows (tl (map fst rows @ [sz]))"
    by (simp only: tl_eq) (simp only: row layout_boxes.simps(1))
  moreover have "moof_layout (s + blen ?W) (filler_boxes ''mdat'' ?gap @ layout_boxes rows (tl (map fst rows @ [sz]))) =
      moof_rows_of rows"
    using filler_layout [OF filler gap] Cons.IH [OF segs] Cons.prems(2) by simp
  moreover have "hd (map fst (row # rows) @ [sz]) = s" by (simp add: row)
  ultimately show ?case by (simp only: rows_eq moof_layout.simps) simp
qed

lemma boxes_only_layout:
  assumes "boxes_only_stream sz (write_box m) (moof_rows_of rows) = Inr f"
    and "fst (snd m) \<noteq> ''moof''" "\<forall>(s, ext, t, p) \<in> set rows. t = ''moof''"
    and "gap = hd (map fst rows @ [sz]) - blen (write_box m)"
  shows "moof_layout 0 (m # filler_boxes ''free'' gap @ layout_boxes rows (tl (map fst rows @ [sz]))) =
    moof_rows_of rows"
proof -
  let ?W = "write_box m" and ?bounds = "map fst rows @ [sz]"
  have fsts: "map fst (moof_rows_of rows) = map fst rows"
    by (auto simp: moof_rows_of_def)
  from assms(1, 4) obtain filler segs where gap: "0 \<le> gap"
    and filler: "(if gap \<noteq> 0 then rbind (filler_box_header ''free'' gap) (\<lambda>h. Inr [(blen ?W, h)])
       else Inr []) = Inr filler"
    and segs: "moof_segments (moof_rows_of rows) (tl ?bounds) = Inr segs"
    by (auto simp: boxes_only_stream_def Let_def fsts result_simps not_less simp del: write_box.simps
        split: if_splits)
  obtain e t p where m: "m = (e, t, p)" by (cases m)
  with assms(2) have "moof_layout 0 (m # bs) = moof_layout (blen ?W) bs" for bs
    by (simp del: write_box.simps)
  moreover have "blen ?W + gap = hd ?bounds" using assms(4) by simp
  ultimately show ?thesis
    using filler_layout [OF filler gap] moof_segments_layout [OF segs assms(3)] by simp
qed

text \<open>A video of 60 bytes with one fragment, laid out and opened through a cache of two 16-byte blocks.\<close>

definition sample_layout :: "sparse_file res" where
  "sample_layout = boxes_only_stream 60 (write_box (False, ''moov'', [1])) (moof_rows_of [(20, False, ''moof'', [2, 3])])"

definition sample_cached :: "string cache_error + sparse_file block_cache" where
  "sample_cached = make_block_cache sparse_ops (projr sample_layout) 16 2 8"

lemma sample_cached_eq: "sample_cached = Inr (projr sample_cached)"
proof -
  have "\<not> isl sample_cached" by code_simp
  then show ?thesis by (cases sample_cached) simp_all
qed

lemma sample_layout_eq: "sample_layout = Inr (projr sample_layout)"
proof -
  have "\<not> isl sample_layout" by code_simp
  then show ?thesis by (cases sample_layout) simp_all
qed

definition sample_chunks :: "string cache_error + bytes list" where
  "sample_chunks = fst (read_chunks (\<lambda>n. bc_read sparse_ops (Some n)) 7 61 (projr sample_cached))"

lemma sample_chunks_eq:
  "read_chunks (\<lambda>n. bc_read sparse_ops (Some n)) 7 61 (projr sample_cached) =
   (Inr (projr sample_chunks), snd (read_chunks (\<lambda>n. bc_read sparse_ops (Some n)) 7 61 (projr sample_cached)))"
proof -
  have "\<not> isl sample_chunks" by code_simp
  then have "sample_chunks = Inr (projr sample_chunks)" by (cases sample_chunks) simp_all
  then show ?thesis unfolding sample_chunks_def by (metis prod.collapse)
qed

text \<open>C1: The moof walk over a cached reader is the moof walk over the file: for every stream that keeps
  the contract, whatever the block size, the number of blocks and the skip threshold, and for every
  chunk size, the chunks read through the cache give the same moofs and the same exception as the file
  read at once.\<close>

theorem walk_moofs_through_cache:
  assumes "cached_stream ops position ok content" and "cache_ok position ok content r"
    and "bc_pos r = 0" "0 < chunk_bytes" "blen content < 2 ^ 63" "content \<noteq> []"
    and "read_chunks (\<lambda>n. bc_read ops (Some n)) chunk_bytes (Suc (length content)) r = (Inr got, r')"
  shows "walk_moofs file_size got = walk_moofs file_size [content]"
proof -
  from cached_stream.reader_chunks [OF assms(1,2,4) _ assms(7)] assms(3)
  have "concat got = content" "[] \<notin> set got" by simp_all
  then show ?thesis
    using walk_moofs_eq_moofs_from [of got] walk_moofs_eq_moofs_from [of "[content]"] assms(5,6) by simp
qed

theorem walk_moofs_through_cache_witness:
  "walk_moofs 60 (projr sample_chunks) = walk_moofs 60 [sparse_content (projr sample_layout)] \<and>
   length (projr sample_chunks) = 9"
proof -
  let ?f = "projr sample_layout"
  have "sparse_ok ?f" "length (sparse_content ?f) = 60" "sf_position ?f = 0" by code_simp+
  then have holds: "sparse_holds (sparse_content ?f) ?f" and "blen (sparse_content ?f) < 2 ^ 63"
    and "sparse_content ?f \<noteq> []" and len: "Suc (length (sparse_content ?f)) = 61"
    by auto
  have r: "cache_ok sparse_position (sparse_holds (sparse_content ?f)) (sparse_content ?f) (projr sample_cached)"
    "bc_pos (projr sample_cached) = 0"
    using cached_sparse.make_block_cache_ok [OF sample_cached_eq [unfolded sample_cached_def], of 0 ?f "sparse_content ?f"]
      holds \<open>sf_position ?f = 0\<close>
    by (simp_all add: sparse_ops_def sf_tell_def sample_cached_def)
  have "walk_moofs 60 (projr sample_chunks) = walk_moofs 60 [sparse_content ?f]"
    by (rule walk_moofs_through_cache [OF cached_sparse.cached_stream_axioms r(1) r(2) _ _ _ sample_chunks_eq [folded len]])
      (use \<open>blen (sparse_content ?f) < 2 ^ 63\<close> \<open>sparse_content ?f \<noteq> []\<close> in simp_all)
  moreover have "length (projr sample_chunks) = 9" by code_simp
  ultimately show ?thesis by simp
qed

text \<open>C2: The boxes of a fragmented video survive the way through the boxes-only stream: when the layout
  of a \<^verbatim>\<open>moov\<close> and the extracted \<^verbatim>\<open>moof\<close> rows is accepted, walking the stream through a caching reader
  of any configuration yields exactly those rows again, each at its source offset.\<close>

theorem moof_rows_survive_layout:
  assumes "boxes_only_stream file_size (write_box m) (moof_rows_of rows) = Inr f"
    and "box_ok m" "fst (snd m) \<noteq> ''moof''"
    and "\<forall>(s, b) \<in> set rows. box_ok b" "\<forall>(s, ext, t, p) \<in> set rows. t = ''moof''" "file_size < 2 ^ 63"
    and "make_block_cache sparse_ops f block_size max_blocks skip_threshold = Inr r" "0 < chunk_bytes"
    and "read_chunks (\<lambda>n. bc_read sparse_ops (Some n)) chunk_bytes (Suc (nat file_size)) r = (Inr got, r')"
  shows "walk_moofs file_size got = (moof_rows_of rows, None)"
proof -
  define gap where "gap = hd (map fst rows @ [file_size]) - blen (write_box m)"
  let ?boxes = "m # filler_boxes ''free'' gap @ layout_boxes rows (tl (map fst rows @ [file_size]))"
  note c = boxes_only_stream_content [OF assms(1) gap_def]
  then have ok: "sparse_holds (sparse_content f) f" and f: "sf_position f = 0" "sf_size f = file_size" by blast+
  have content: "sparse_content f = concat (map write_box ?boxes)" using c by blast
  have boxes: "\<forall>b \<in> set ?boxes. box_ok b" using c assms(2,4) by (simp del: box_ok.simps)
  have len: "blen (sparse_content f) = file_size" using length_sparse_content ok f by blast
  have r: "cache_ok sparse_position (sparse_holds (sparse_content f)) (sparse_content f) r" "bc_pos r = 0"
    using cached_sparse.make_block_cache_ok [OF assms(7), of 0 f "sparse_content f"] ok f
    by (simp_all add: sparse_ops_def sf_tell_def)
  have "length (sparse_content f) < Suc (nat file_size)" using len by simp
  with cached_sparse.reader_chunks [OF r(1) assms(8) _ assms(9)] r(2)
  have got: "concat got = concat (map write_box ?boxes)" "[] \<notin> set got" using content by simp_all
  have "walk_moofs file_size got = moofs_from file_size (sparse_content f) 0"
    using walk_moofs_eq_moofs_from [OF got(2)] got(1) content len assms(6) by simp
  also have "\<dots> = (moof_layout 0 ?boxes, None)"
    by (rule moofs_from_well_formed [where pre = "[]"]) (use content boxes len assms(6) in \<open>simp_all del: box_ok.simps write_box.simps\<close>)
  finally show ?thesis using boxes_only_layout [OF assms(1,3,5) gap_def] by simp
qed

theorem moof_rows_survive_layout_witness:
  "walk_moofs 60 (projr sample_chunks) = ([(20, write_box (False, ''moof'', [2, 3]))], None)"
proof -
  have "walk_moofs 60 (projr sample_chunks) = (moof_rows_of [(20, False, ''moof'', [2, 3])], None)"
  proof (rule moof_rows_survive_layout [OF sample_layout_eq [unfolded sample_layout_def]])
    show "make_block_cache sparse_ops (projr (boxes_only_stream 60 (write_box (False, ''moov'', [1]))
        (moof_rows_of [(20, False, ''moof'', [2, 3])]))) 16 2 8 = Inr (projr sample_cached)"
      using sample_cached_eq unfolding sample_cached_def sample_layout_def .
    show "read_chunks (\<lambda>n. bc_read sparse_ops (Some n)) 7 (Suc (nat 60)) (projr sample_cached) =
        (Inr (projr sample_chunks), snd (read_chunks (\<lambda>n. bc_read sparse_ops (Some n)) 7 61 (projr sample_cached)))"
      using sample_chunks_eq by simp
  qed code_simp+
  then show ?thesis by (simp add: moof_rows_of_def)
qed

end
